(* ===== verification/Prelude.thy ===== *)
theory Prelude
  imports Main "HOL-Library.Word"
begin

text \<open>
  Shared vocabulary of the development: the machine integer types of the C code, the
  error numbers the library returns, reads and writes of C arrays with the
  out-of-bounds case as a value, the reachable states of a transition system, and the
  interfaces of a system driven by events and of an invariant its events keep, which every
  concurrent component interprets.
\<close>

section \<open>Machine integers\<close>

type_synonym u8 = "8 word"
type_synonym u16 = "16 word"
type_synonym u32 = "32 word"
type_synonym u64 = "64 word"

text \<open>The values of \<open>errno.h\<close> on Linux the code returns.\<close>

abbreviation (input) EPERM :: int where "EPERM \<equiv> 1"
abbreviation (input) EINTR :: int where "EINTR \<equiv> 4"
abbreviation (input) EAGAIN :: int where "EAGAIN \<equiv> 11"
abbreviation (input) EDEADLK :: int where "EDEADLK \<equiv> 35"
abbreviation (input) EBUSY :: int where "EBUSY \<equiv> 16"
abbreviation (input) EINVAL :: int where "EINVAL \<equiv> 22"
abbreviation (input) ENOSPC :: int where "ENOSPC \<equiv> 28"
abbreviation (input) ETIMEDOUT :: int where "ETIMEDOUT \<equiv> 110"

section \<open>Collections of rewrite rules\<close>

named_theorems word_layout \<open>reads and writes of the bytes of the lock word\<close>

section \<open>C arrays\<close>

text \<open>
  A C array is a list. An access outside the list is undefined behaviour in C; here
  it is \<open>None\<close>, so that every definition has to say what happens then.
\<close>

definition arr_read :: "'a list \<Rightarrow> int \<Rightarrow> 'a option" where
  "arr_read xs i = (if 0 \<le> i \<and> i < int (length xs) then Some (xs ! nat i) else None)"

definition arr_write :: "'a list \<Rightarrow> int \<Rightarrow> 'a \<Rightarrow> 'a list option" where
  "arr_write xs i v =
     (if 0 \<le> i \<and> i < int (length xs) then Some (xs[nat i := v]) else None)"

lemma arr_read_in [simp]: "0 \<le> i \<Longrightarrow> i < int (length xs) \<Longrightarrow> arr_read xs i = Some (xs ! nat i)"
  by (simp add: arr_read_def)

lemma arr_read_out [simp]: "i < 0 \<or> int (length xs) \<le> i \<Longrightarrow> arr_read xs i = None"
  by (auto simp: arr_read_def)

lemma arr_read_SomeD:
  "arr_read xs i = Some v \<Longrightarrow> 0 \<le> i \<and> i < int (length xs) \<and> v = xs ! nat i"
  by (auto simp: arr_read_def split: if_splits)

lemma arr_write_in [simp]: "0 \<le> i \<Longrightarrow> i < int (length xs) \<Longrightarrow> arr_write xs i v = Some (xs[nat i := v])"
  by (simp add: arr_write_def)

lemma arr_write_out [simp]: "i < 0 \<or> int (length xs) \<le> i \<Longrightarrow> arr_write xs i v = None"
  by (auto simp: arr_write_def)

lemma arr_write_SomeD:
  "arr_write xs i v = Some ys \<Longrightarrow> 0 \<le> i \<and> i < int (length xs) \<and> ys = xs[nat i := v]"
  by (auto simp: arr_write_def split: if_splits)

lemma arr_write_length: "arr_write xs i v = Some ys \<Longrightarrow> length ys = length xs"
  by (auto dest: arr_write_SomeD)

lemma arr_read_write:
  "arr_write xs i v = Some ys \<Longrightarrow>
   arr_read ys j = (if j = i then Some v else arr_read xs j)"
  by (auto simp: arr_read_def arr_write_def nth_list_update split: if_splits)

section \<open>Transition systems\<close>

inductive reach :: "('s \<Rightarrow> bool) \<Rightarrow> ('s \<Rightarrow> 's \<Rightarrow> bool) \<Rightarrow> 's \<Rightarrow> bool" for init step where
  reach_init: "init s \<Longrightarrow> reach init step s"
| reach_step: "reach init step s \<Longrightarrow> step s t \<Longrightarrow> reach init step t"

text \<open>An invariant may use that the state it steps from is reachable.\<close>

lemma reach_invariant:
  assumes "reach init step s"
    and "\<And>s. init s \<Longrightarrow> I s"
    and "\<And>s t. reach init step s \<Longrightarrow> I s \<Longrightarrow> step s t \<Longrightarrow> I t"
  shows "I s"
  using assms(1) by (induction rule: reach.induct) (auto intro: assms(2,3))

lemma reach_mono:
  assumes "reach init step s" and "\<And>s t. step s t \<Longrightarrow> step' s t"
  shows "reach init step' s"
  using assms(1) by (induction rule: reach.induct) (auto intro: reach.intros assms(2))

lemma reach_steps:
  assumes "reach init step s" and "step\<^sup>*\<^sup>* s t"
  shows "reach init step t"
  using assms(2,1) by (induction rule: rtranclp_induct) (auto intro: reach.intros)

section \<open>Systems driven by events\<close>

text \<open>
  Every machine of the development is a partial function \<open>exec\<close> of an event and a state; a
  schedule is a list of events.
\<close>

fun exec_all :: "('e \<Rightarrow> 's \<Rightarrow> 's option) \<Rightarrow> 'e list \<Rightarrow> 's \<Rightarrow> 's option" where
  "exec_all exec [] s = Some s"
| "exec_all exec (ev # evs) s =
     (case exec ev s of None \<Rightarrow> None | Some s' \<Rightarrow> exec_all exec evs s')"

lemma exec_all_append:
  "exec_all exec (xs @ ys) s =
     (case exec_all exec xs s of None \<Rightarrow> None | Some s' \<Rightarrow> exec_all exec ys s')"
  by (induction xs arbitrary: s) (auto split: option.splits)

text \<open>The interface: the step relation of the machine is what its events do.\<close>

locale event_system =
  fixes exec :: "'e \<Rightarrow> 's \<Rightarrow> 's option"
    and step :: "'s \<Rightarrow> 's \<Rightarrow> bool"
  assumes step_iff: "step s s' \<longleftrightarrow> (\<exists>ev. exec ev s = Some s')"
begin

lemma exec_step: "exec ev s = Some s' \<Longrightarrow> step s s'"
  by (auto simp: step_iff)

lemma run_steps: "exec_all exec evs s = Some s' \<Longrightarrow> step\<^sup>*\<^sup>* s s'"
  by (induction evs arbitrary: s)
    (auto split: option.splits dest: exec_step intro: converse_rtranclp_into_rtranclp)

lemma steps_run: "step\<^sup>*\<^sup>* s s' \<Longrightarrow> \<exists>evs. exec_all exec evs s = Some s'"
proof (induction rule: converse_rtranclp_induct)
  case base
  show ?case by (rule exI [of _ "[]"]) simp
next
  case (step s t)
  then obtain ev evs where "exec ev s = Some t" "exec_all exec evs t = Some s'"
    by (auto simp: step_iff)
  then show ?case by (intro exI [of _ "ev # evs"]) simp
qed

lemma run_reach:
  "exec_all exec evs s = Some s' \<Longrightarrow> reach I step s \<Longrightarrow> reach I step s'"
  by (rule reach_steps [OF _ run_steps])

end

text \<open>A system with an invariant that every event keeps.\<close>

locale checked_system = event_system exec step
  for exec :: "'e \<Rightarrow> 's \<Rightarrow> 's option" and step +
  fixes start :: "'s \<Rightarrow> bool"
    and Inv :: "'s \<Rightarrow> bool"
  assumes start_inv: "start s \<Longrightarrow> Inv s"
    and exec_inv: "Inv s \<Longrightarrow> exec ev s = Some s' \<Longrightarrow> Inv s'"
begin

lemma reachable_inv: "reach start step s \<Longrightarrow> Inv s"
  by (erule reach_invariant) (auto simp: step_iff intro: start_inv exec_inv)

lemma run_inv: "exec_all exec evs s = Some s' \<Longrightarrow> Inv s \<Longrightarrow> Inv s'"
  by (induction evs arbitrary: s) (auto split: option.splits intro: exec_inv)

end

end
