(* ===== verification/LockWord.thy ===== *)
theory LockWord
  imports Prelude
begin

text \<open>
  The lock word of \<open>include/htll.h\<close>: the union \<open>l\<close> of \<open>htll_mutex_t\<close>, read
  as the 32-bit \<open>u\<close> or as the two bytes \<open>b.locked\<close> and \<open>b.contended\<close>
  (little endian), the constants of the header, the two exchange primitives, the
  compare-and-swap builtin used on \<open>u\<close>, and the cycle loops.
\<close>

unbundle bit_operations_syntax

section \<open>Constants of htll.h\<close>

definition HTLL_SPIN_TRIES_LOCK :: u32 where "HTLL_SPIN_TRIES_LOCK = 8192"
definition HTLL_SPIN_TRIES_UNLOCK :: nat where "HTLL_SPIN_TRIES_UNLOCK = 128"
definition UNLOCKED :: u8 where "UNLOCKED = 0"
definition LOCKED :: u8 where "LOCKED = 1"
definition UNCONTENDED :: u8 where "UNCONTENDED = 0"
definition LOCKED_AND_CONTENDED :: u32 where "LOCKED_AND_CONTENDED = 257"

lemmas lock_consts = UNLOCKED_def LOCKED_def UNCONTENDED_def LOCKED_AND_CONTENDED_def

section \<open>The bytes of the lock word\<close>

definition locked :: "u32 \<Rightarrow> u8" where
  "locked u = ucast u"

definition contended :: "u32 \<Rightarrow> u8" where
  "contended u = ucast (drop_bit 8 u)"

definition set_locked :: "u8 \<Rightarrow> u32 \<Rightarrow> u32" where
  "set_locked b u = (u AND NOT 255) OR ucast b"

definition set_contended :: "u8 \<Rightarrow> u32 \<Rightarrow> u32" where
  "set_contended b u = (u AND NOT 65280) OR push_bit 8 (ucast b)"

text \<open>\<open>xchg\<close>: the new memory contents and the old value the instruction returns.\<close>

definition htll_swap_uint32 :: "u32 \<Rightarrow> u32 \<Rightarrow> u32 \<times> u32" where
  "htll_swap_uint32 u x = (x, u)"

definition htll_swap_uint8 :: "u32 \<Rightarrow> u8 \<Rightarrow> u32 \<times> u8" where
  "htll_swap_uint8 u x = (set_locked x u, locked u)"

text \<open>\<open>__sync_val_compare_and_swap\<close> on the word: new contents and old value.\<close>

definition sync_cas32 :: "u32 \<Rightarrow> u32 \<Rightarrow> u32 \<Rightarrow> u32 \<times> u32" where
  "sync_cas32 u old new = (if u = old then new else u, u)"

lemma mask_255: "(255 :: u32) = mask 8"
  by (simp add: mask_eq_exp_minus_1)

lemma mask_65280: "(65280 :: u32) = push_bit 8 (mask 8)"
  by (simp add: mask_eq_exp_minus_1)

lemma locked_set_locked [word_layout, simp]: "locked (set_locked b u) = b"
  unfolding locked_def set_locked_def mask_255
  by (rule bit_word_eqI) (auto simp: bit_simps dest: bit_imp_le_length)

lemma contended_set_locked [word_layout, simp]: "contended (set_locked b u) = contended u"
  unfolding contended_def set_locked_def mask_255
  by (rule bit_word_eqI) (auto simp: bit_simps dest: bit_imp_le_length)

lemma locked_set_contended [word_layout, simp]: "locked (set_contended b u) = locked u"
  unfolding locked_def set_contended_def mask_65280
  by (rule bit_word_eqI) (auto simp: bit_simps dest: bit_imp_le_length)

lemma contended_set_contended [word_layout, simp]: "contended (set_contended b u) = b"
  unfolding contended_def set_contended_def mask_65280
  by (rule bit_word_eqI) (auto simp: bit_simps dest: bit_imp_le_length)

text \<open>
  The word is one of four values: nobody stores anything but 0 or 1 into either byte,
  and the only 32-bit stores are 0 and 257.
\<close>

definition lw_ok :: "u32 \<Rightarrow> bool" where
  "lw_ok u \<longleftrightarrow> u = 0 \<or> u = 1 \<or> u = 256 \<or> u = 257"

lemma lw_ok_cases [consumes 1, case_names free locked_only contended_only both]:
  assumes "lw_ok u"
  obtains "u = 0" | "u = 1" | "u = 256" | "u = 257"
  using assms by (auto simp: lw_ok_def)

lemma lw_ok_bytes:
  assumes "lw_ok u"
  shows "locked u \<in> {0, 1} \<and> contended u \<in> {0, 1}"
  using assms by (cases rule: lw_ok_cases) (simp_all add: locked_def contended_def)

lemma lw_ok_swap8: "lw_ok u \<Longrightarrow> lw_ok (set_locked 1 u)"
  by (auto simp: lw_ok_def set_locked_def)

lemma lw_ok_release: "lw_ok u \<Longrightarrow> lw_ok (set_locked 0 u)"
  by (auto simp: lw_ok_def set_locked_def)

lemma lw_ok_clear: "lw_ok u \<Longrightarrow> lw_ok (set_contended 0 u)"
  by (auto simp: lw_ok_def set_contended_def)

lemma lw_ok_consts [simp]: "lw_ok 0" "lw_ok 1" "lw_ok 257" "lw_ok 256"
  by (simp_all add: lw_ok_def)

lemma byte_consts [word_layout, simp]:
  "locked 0 = 0" "locked 1 = 1" "locked 256 = 0" "locked 257 = 1"
  "contended 0 = 0" "contended 1 = 0" "contended 256 = 1" "contended 257 = 1"
  by (simp_all add: locked_def contended_def)

lemma locked_bit0: "lw_ok u \<Longrightarrow> (u AND ucast LOCKED = ucast UNLOCKED) = (locked u = 0)"
  by (auto simp: lw_ok_def locked_def lock_consts)

lemma lw_ok_unlocked_iff: "lw_ok u \<Longrightarrow> (locked u = 0) = (u = 0 \<or> u = 256)"
  by (auto simp: lw_ok_def)

lemma lw_ok_contended_iff: "lw_ok u \<Longrightarrow> (contended u = 1) = (u = 256 \<or> u = 257)"
  by (auto simp: lw_ok_def)

lemma lw_ok_from_bytes:
  assumes "lw_ok u"
  shows "u = (if locked u = 0 then 0 else 1) + (if contended u = 0 then 0 else 256)"
  using assms by (cases rule: lw_ok_cases) simp_all

section \<open>Time stamps and cycle loops\<close>

text \<open>\<open>rdtsc\<close> leaves the counter in two 32-bit registers.\<close>

definition htll_getticks :: "u32 \<Rightarrow> u32 \<Rightarrow> u64" where
  "htll_getticks lo hi = ucast lo OR push_bit 32 (ucast hi)"

lemma htll_getticks_halves:
  "ucast (htll_getticks lo hi) = lo" "ucast (drop_bit 32 (htll_getticks lo hi)) = hi"
  unfolding htll_getticks_def
  by (rule bit_word_eqI; auto simp: bit_simps dest: bit_imp_le_length)+

text \<open>
  The test of \<open>HTLL_FOR_N_CYCLES\<close>: the difference of two \<open>uint64_t\<close> stamps is compared
  with an \<open>int\<close> bound, which C converts to \<open>uint64_t\<close> by sign extension.
\<close>

definition cycles_exceeded :: "u32 \<Rightarrow> u64 \<Rightarrow> u64 \<Rightarrow> bool" where
  "cycles_exceeded n s e \<longleftrightarrow> scast n < e - s"

text \<open>One evaluation of the condition of \<open>while (cy--)\<close>: stop, or go on with the decremented counter.\<close>

definition delay_ticks_step :: "nat \<Rightarrow> nat option" where
  "delay_ticks_step cy = (if cy = 0 then None else Some (cy - 1))"

end
