(* ===== verification/Segments.thy ===== *)
theory Segments
  imports LockWord
begin

text \<open>
  The epoch interface of \<open>src/htll.c\<close>: a thread brackets a piece of work with
  \<open>segment_start\<close> and \<open>segment_end\<close>; segments nest on a per-thread stack; each
  segment id carries a reorder window (\<open>wait_time\<close>) that \<open>segment_end\<close> adapts to the
  latency the caller asked for. All state is thread local (\<open>__thread\<close>).
\<close>

section \<open>Constants and state\<close>

definition MAX_SEGMENT :: int where "MAX_SEGMENT = 256"
definition MAX_DEPTH :: int where "MAX_DEPTH = 30"
definition DEFAULT_REORDER :: u64 where "DEFAULT_REORDER = 10000"
definition MIN_REORDER :: u64 where "MIN_REORDER = 10000"
definition DEFAULT_ADJUST_UNIT :: u64 where "DEFAULT_ADJUST_UNIT = 5000"
definition MIN_ADJUST_UNIT :: u64 where "MIN_ADJUST_UNIT = 1000"
definition SEGMENT_REQ_THRESHOLD :: u64 where "SEGMENT_REQ_THRESHOLD = 100"

lemmas seg_consts = MAX_SEGMENT_def MAX_DEPTH_def DEFAULT_REORDER_def MIN_REORDER_def
  DEFAULT_ADJUST_UNIT_def MIN_ADJUST_UNIT_def SEGMENT_REQ_THRESHOLD_def

record segment_t =
  wait_time :: u64
  unit :: u64
  has_waiter :: u64
  start_ts :: u64
  quick_start :: u64

record tls =
  segment :: "segment_t list"
  cur_segment_id :: int
  segment_stack :: "int list"
  stack_pos :: int

text \<open>The initial thread-local block: zeroed arrays and the two explicit initialisers.\<close>

definition zero_segment :: segment_t where
  "zero_segment = \<lparr>wait_time = 0, unit = 0, has_waiter = 0, start_ts = 0, quick_start = 0\<rparr>"

definition fresh_tls :: tls where
  "fresh_tls = \<lparr>segment = replicate (nat MAX_SEGMENT) zero_segment, cur_segment_id = -1,
                segment_stack = replicate (nat MAX_DEPTH) 0, stack_pos = -1\<rparr>"

text \<open>An access outside one of the two arrays ends the execution with a fault.\<close>

datatype fault = Segment_out_of_bounds int | Stack_out_of_bounds int

section \<open>Operations\<close>

definition htll_thread_start :: "tls \<Rightarrow> tls" where
  "htll_thread_start t =
     t\<lparr>segment := fold (\<lambda>i xs. xs[i := (xs ! i)\<lparr>wait_time := DEFAULT_REORDER,
                                              unit := DEFAULT_ADJUST_UNIT\<rparr>])
                       [0..<nat MAX_SEGMENT] (segment t),
       cur_segment_id := -1\<rparr>"

definition push_segment :: "int \<Rightarrow> tls \<Rightarrow> fault + int \<times> tls" where
  "push_segment segment_id t =
     (let t = t\<lparr>stack_pos := stack_pos t + 1\<rparr> in
      if stack_pos t = MAX_SEGMENT then Inr (- ENOSPC, t)
      else case arr_write (segment_stack t) (stack_pos t) segment_id of
             None \<Rightarrow> Inl (Stack_out_of_bounds (stack_pos t))
           | Some st \<Rightarrow> Inr (0, t\<lparr>segment_stack := st\<rparr>))"

definition pop_segment :: "tls \<Rightarrow> fault + int \<times> tls" where
  "pop_segment t =
     (if stack_pos t < 0 then Inr (- EINVAL, t)
      else case arr_read (segment_stack t) (stack_pos t) of
             None \<Rightarrow> Inl (Stack_out_of_bounds (stack_pos t))
           | Some v \<Rightarrow> Inr (v, t\<lparr>stack_pos := stack_pos t - 1\<rparr>))"

definition is_stack_empty :: "tls \<Rightarrow> bool" where
  "is_stack_empty t \<longleftrightarrow> stack_pos t < 0"

text \<open>\<open>now\<close> is the value \<open>htll_getticks\<close> returns in the call.\<close>

definition segment_start :: "int \<Rightarrow> u64 \<Rightarrow> tls \<Rightarrow> fault + int \<times> tls" where
  "segment_start segment_id now t =
     (if segment_id < 0 \<or> segment_id > MAX_SEGMENT \<or> cur_segment_id t < -1
      then Inr (- EINVAL, t)
      else case push_segment (cur_segment_id t) t of
             Inl f \<Rightarrow> Inl f
           | Inr (r, t) \<Rightarrow>
               if r < 0 then Inr (- ENOSPC, t)
               else let t = t\<lparr>cur_segment_id := segment_id\<rparr> in
                    case arr_read (segment t) segment_id of
                      None \<Rightarrow> Inl (Segment_out_of_bounds segment_id)
                    | Some sg \<Rightarrow>
                        Inr (0, t\<lparr>segment := (segment t)[nat segment_id := sg\<lparr>start_ts := now\<rparr>]\<rparr>))"

text \<open>The adaptation of the window: the new \<open>wait_time\<close> and the new \<open>unit\<close>.\<close>

definition adjust_window :: "u64 \<Rightarrow> u64 \<Rightarrow> u64 \<Rightarrow> u64 \<Rightarrow> u64 \<times> u64" where
  "adjust_window duration required_latency wt un =
     (let (wt, un) =
            (if duration > required_latency
             then let wt = drop_bit 1 wt; un = wt div 99
                  in (wt, if un < MIN_ADJUST_UNIT then MIN_ADJUST_UNIT else un)
             else (wt + un, un))
      in (if wt < MIN_REORDER then MIN_REORDER else wt, un))"

text \<open>The code after the label \<open>out\<close>: return to the enclosing segment.\<close>

definition leave_segment :: "tls \<Rightarrow> fault + int \<times> tls" where
  "leave_segment t =
     (if is_stack_empty t then Inr (0, t\<lparr>cur_segment_id := -1\<rparr>)
      else case pop_segment t of
             Inl f \<Rightarrow> Inl f
           | Inr (v, t) \<Rightarrow> Inr (0, t\<lparr>cur_segment_id := v\<rparr>))"

definition segment_end :: "int \<Rightarrow> u64 \<Rightarrow> u64 \<Rightarrow> tls \<Rightarrow> fault + int \<times> tls" where
  "segment_end segment_id required_latency now t =
     (let cur = cur_segment_id t in
      case arr_read (segment t) cur of
        None \<Rightarrow> Inl (Segment_out_of_bounds cur)
      | Some sg \<Rightarrow>
          let wt = wait_time sg; un = unit sg; duration = now - start_ts sg;
              put = (\<lambda>sg. t\<lparr>segment := (segment t)[nat cur := sg]\<rparr>)
          in if has_waiter sg \<noteq> 0
             then if required_latency < SEGMENT_REQ_THRESHOLD
                  then leave_segment (put (sg\<lparr>wait_time := MIN_REORDER\<rparr>))
                  else if segment_id < 0 \<or> segment_id > MAX_SEGMENT then Inr (- EINVAL, t)
                  else if segment_id \<noteq> cur then Inr (- EINVAL, t)
                  else let (wt, un) = adjust_window duration required_latency wt un
                       in leave_segment (put (sg\<lparr>wait_time := wt, has_waiter := 0, unit := un\<rparr>))
             else leave_segment (put (sg\<lparr>has_waiter := 0, unit := un\<rparr>)))"

text \<open>What the lock does to the current segment when it had to sleep.\<close>

definition mark_waiter :: "tls \<Rightarrow> fault + tls" where
  "mark_waiter t =
     (case arr_read (segment t) (cur_segment_id t) of
        None \<Rightarrow> Inl (Segment_out_of_bounds (cur_segment_id t))
      | Some sg \<Rightarrow>
          Inr (t\<lparr>segment := (segment t)[nat (cur_segment_id t) := sg\<lparr>has_waiter := 1\<rparr>]\<rparr>))"

text \<open>
  The read of the current window: at the entry of every lock, and as the timeout of a sleep in a
  segment or in a condition wait.
\<close>

definition read_window :: "tls \<Rightarrow> fault + u64" where
  "read_window t =
     (case arr_read (segment t) (cur_segment_id t) of
        None \<Rightarrow> Inl (Segment_out_of_bounds (cur_segment_id t))
      | Some sg \<Rightarrow> Inr (wait_time sg))"

section \<open>Well-formed thread-local state\<close>

definition tls_ok :: "tls \<Rightarrow> bool" where
  "tls_ok t \<longleftrightarrow>
     length (segment t) = nat MAX_SEGMENT \<and> length (segment_stack t) = nat MAX_DEPTH \<and>
     -1 \<le> cur_segment_id t \<and> cur_segment_id t < MAX_SEGMENT \<and>
     -1 \<le> stack_pos t \<and> stack_pos t < MAX_DEPTH \<and>
     (\<forall>v \<in> set (take (nat (stack_pos t + 1)) (segment_stack t)). -1 \<le> v \<and> v < MAX_SEGMENT)"

definition seg_window_ok :: "segment_t \<Rightarrow> bool" where
  "seg_window_ok sg \<longleftrightarrow> MIN_REORDER \<le> wait_time sg \<and> MIN_ADJUST_UNIT \<le> unit sg"

definition window_ok :: "tls \<Rightarrow> bool" where
  "window_ok t \<longleftrightarrow> list_all seg_window_ok (segment t)"

lemma tls_ok_fresh: "tls_ok fresh_tls"
  by (simp add: tls_ok_def fresh_tls_def seg_consts)

lemma fold_list_update:
  "n \<le> length xs \<Longrightarrow>
   fold (\<lambda>i ys. ys[i := f (ys ! i)]) [0..<n] xs = map f (take n xs) @ drop n xs"
proof (induction n)
  case 0
  then show ?case by simp
next
  case (Suc n)
  then have n: "n < length xs" by simp
  then have "drop n xs = xs ! n # drop (Suc n) xs" by (simp add: Cons_nth_drop_Suc)
  moreover from Suc
  have "fold (\<lambda>i ys. ys[i := f (ys ! i)]) [0..<n] xs = map f (take n xs) @ drop n xs" by simp
  ultimately show ?case
    using n by (simp add: nth_append list_update_append take_Suc_conv_app_nth)
qed

lemma htll_thread_start_map:
  assumes "length (segment t) = nat MAX_SEGMENT"
  shows "htll_thread_start t =
    t\<lparr>segment := map (\<lambda>sg. sg\<lparr>wait_time := DEFAULT_REORDER, unit := DEFAULT_ADJUST_UNIT\<rparr>) (segment t),
      cur_segment_id := -1\<rparr>"
  unfolding htll_thread_start_def using assms
  by (subst fold_list_update) simp_all

lemma htll_thread_start_ok:
  assumes "tls_ok t"
  shows "tls_ok (htll_thread_start t)" "window_ok (htll_thread_start t)"
proof -
  from assms have len: "length (segment t) = nat MAX_SEGMENT" by (simp add: tls_ok_def)
  show "tls_ok (htll_thread_start t)"
    using assms by (simp add: htll_thread_start_map [OF len] tls_ok_def seg_consts)
  show "window_ok (htll_thread_start t)"
    by (simp add: htll_thread_start_map [OF len] window_ok_def list_all_iff seg_window_ok_def seg_consts)
qed

section \<open>The operations on well-formed states\<close>

lemma take_Suc_update:
  "n < length xs \<Longrightarrow> take (Suc n) (xs[n := v]) = take n xs @ [v]"
  by (simp add: take_Suc_conv_app_nth)

lemma push_segment_ok:
  assumes "tls_ok t" and "stack_pos t < MAX_DEPTH - 1"
  shows "push_segment v t =
    Inr (0, t\<lparr>stack_pos := stack_pos t + 1,
              segment_stack := (segment_stack t)[nat (stack_pos t + 1) := v]\<rparr>)"
  using assms by (auto simp: push_segment_def tls_ok_def seg_consts Let_def)

lemma push_segment_full:
  assumes "tls_ok t" and "stack_pos t = MAX_DEPTH - 1"
  shows "push_segment v t = Inl (Stack_out_of_bounds MAX_DEPTH)"
  using assms by (auto simp: push_segment_def tls_ok_def seg_consts Let_def)

lemma leave_segment_ok:
  assumes "tls_ok t" and "0 \<le> stack_pos t"
  shows "leave_segment t =
    Inr (0, t\<lparr>stack_pos := stack_pos t - 1,
              cur_segment_id := segment_stack t ! nat (stack_pos t)\<rparr>)"
  using assms by (auto simp: leave_segment_def pop_segment_def is_stack_empty_def tls_ok_def seg_consts)

lemma leave_segment_empty:
  "stack_pos t < 0 \<Longrightarrow> leave_segment t = Inr (0, t\<lparr>cur_segment_id := -1\<rparr>)"
  by (simp add: leave_segment_def is_stack_empty_def)

lemma segment_start_ok:
  assumes "tls_ok t" and "0 \<le> segment_id" "segment_id < MAX_SEGMENT"
    and "stack_pos t < MAX_DEPTH - 1"
  shows "segment_start segment_id now t =
    Inr (0, t\<lparr>stack_pos := stack_pos t + 1,
              segment_stack := (segment_stack t)[nat (stack_pos t + 1) := cur_segment_id t],
              cur_segment_id := segment_id,
              segment := (segment t)[nat segment_id :=
                 (segment t ! nat segment_id)\<lparr>start_ts := now\<rparr>]\<rparr>)"
  using assms push_segment_ok [OF assms(1,4)]
  by (auto simp: segment_start_def tls_ok_def seg_consts Let_def)

lemma tls_ok_started:
  assumes "tls_ok t" and "0 \<le> segment_id" "segment_id < MAX_SEGMENT"
    and "stack_pos t < MAX_DEPTH - 1"
  shows "tls_ok (t\<lparr>stack_pos := stack_pos t + 1,
              segment_stack := (segment_stack t)[nat (stack_pos t + 1) := cur_segment_id t],
              cur_segment_id := segment_id, segment := (segment t)[i := sg]\<rparr>)"
proof -
  have "nat (stack_pos t + 2) = Suc (nat (stack_pos t + 1))"
    using assms(1) by (auto simp: tls_ok_def)
  moreover have "nat (stack_pos t + 1) < length (segment_stack t)"
    using assms by (auto simp: tls_ok_def seg_consts)
  ultimately show ?thesis
    using assms by (auto simp: tls_ok_def take_Suc_update add.assoc)
qed

lemma tls_ok_left:
  assumes "tls_ok t" and "0 \<le> stack_pos t"
  shows "tls_ok (t\<lparr>stack_pos := stack_pos t - 1,
                    cur_segment_id := segment_stack t ! nat (stack_pos t)\<rparr>)"
proof -
  have "nat (stack_pos t + 1) = Suc (nat (stack_pos t))" using assms(2) by simp
  moreover have "nat (stack_pos t) < length (segment_stack t)"
    using assms by (auto simp: tls_ok_def)
  ultimately have "set (take (nat (stack_pos t + 1)) (segment_stack t)) =
      insert (segment_stack t ! nat (stack_pos t)) (set (take (nat (stack_pos t)) (segment_stack t)))"
    by (simp add: take_Suc_conv_app_nth)
  with assms show ?thesis by (simp add: tls_ok_def)
qed

lemma tls_ok_segment_update: "tls_ok t \<Longrightarrow> tls_ok (t\<lparr>segment := (segment t)[i := sg]\<rparr>)"
  by (simp add: tls_ok_def)

lemma window_ok_update:
  "window_ok t \<Longrightarrow> seg_window_ok sg \<Longrightarrow> window_ok (t\<lparr>segment := (segment t)[i := sg]\<rparr>)"
  by (auto simp: window_ok_def list_all_iff dest!: set_update_subset_insert [THEN subsetD])

lemma mark_waiter_in:
  assumes "tls_ok t" and "cur_segment_id t \<noteq> -1"
  shows "mark_waiter t = Inr (t\<lparr>segment := (segment t)[nat (cur_segment_id t) :=
           (segment t ! nat (cur_segment_id t))\<lparr>has_waiter := 1\<rparr>]\<rparr>)"
  using assms by (auto simp: mark_waiter_def tls_ok_def seg_consts)

lemma mark_waiter_out:
  "cur_segment_id t = -1 \<Longrightarrow> mark_waiter t = Inl (Segment_out_of_bounds (-1))"
  by (simp add: mark_waiter_def)

lemma leave_segment_cases:
  assumes "tls_ok t"
  obtains t' where "leave_segment t = Inr (0, t')" "tls_ok t'" "segment t' = segment t"
    "0 \<le> stack_pos t \<Longrightarrow> stack_pos t' = stack_pos t - 1 \<and>
       cur_segment_id t' = segment_stack t ! nat (stack_pos t) \<and> segment_stack t' = segment_stack t"
proof (cases "0 \<le> stack_pos t")
  case True
  show ?thesis
    using leave_segment_ok [OF assms True] tls_ok_left [OF assms True] by (rule that) simp_all
next
  case False
  then have "leave_segment t = Inr (0, t\<lparr>cur_segment_id := -1\<rparr>)"
    by (simp add: leave_segment_empty)
  moreover have "tls_ok (t\<lparr>cur_segment_id := -1\<rparr>)"
    using assms by (simp add: tls_ok_def seg_consts)
  ultimately show ?thesis by (rule that) (use False in simp_all)
qed

section \<open>The adaptation of the reorder window\<close>

text \<open>The clamps, as the two \<open>if\<close>s of the code.\<close>

lemma adjust_window_clamped:
  "MIN_REORDER \<le> fst (adjust_window d l wt un)"
  "MIN_ADJUST_UNIT \<le> un \<Longrightarrow> MIN_ADJUST_UNIT \<le> snd (adjust_window d l wt un)"
  by (auto simp: adjust_window_def Let_def not_less)

lemma seg_window_ok_adjust:
  "seg_window_ok sg \<Longrightarrow> adjust_window d l (wait_time sg) (unit sg) = (wt, un) \<Longrightarrow>
   seg_window_ok (sg\<lparr>wait_time := wt, has_waiter := h, unit := un\<rparr>)"
  using adjust_window_clamped(1) [of d l "wait_time sg" "unit sg"]
    adjust_window_clamped(2) [of "unit sg" d l "wait_time sg"]
  by (simp add: seg_window_ok_def)

lemma segment_end_cases [consumes 2, case_names left refused]:
  assumes "tls_ok t" and "cur_segment_id t \<noteq> -1"
  obtains (left) sg t' where
      "segment_end segment_id lat now t = leave_segment t'"
      "t' = t\<lparr>segment := (segment t)[nat (cur_segment_id t) := sg]\<rparr>"
      "window_ok t \<Longrightarrow> seg_window_ok sg"
      "has_waiter (segment t ! nat (cur_segment_id t)) = 0 \<or> lat < SEGMENT_REQ_THRESHOLD
         \<or> segment_id = cur_segment_id t"
  | (refused) "segment_end segment_id lat now t = Inr (- EINVAL, t)"
      "has_waiter (segment t ! nat (cur_segment_id t)) \<noteq> 0" "\<not> lat < SEGMENT_REQ_THRESHOLD"
      "segment_id \<noteq> cur_segment_id t"
proof -
  define sg where "sg = segment t ! nat (cur_segment_id t)"
  have idx: "0 \<le> cur_segment_id t" "cur_segment_id t < int (length (segment t))"
    using assms by (auto simp: tls_ok_def seg_consts)
  have sgok: "seg_window_ok sg" if "window_ok t"
    using that idx by (auto simp: window_ok_def list_all_iff sg_def)
  obtain wt un where adj:
    "adjust_window (now - start_ts sg) lat (wait_time sg) (unit sg) = (wt, un)" by fastforce
  show ?thesis
  proof (cases "has_waiter sg = 0")
    case True
    show ?thesis
      by (rule left [where sg = "sg\<lparr>has_waiter := 0, unit := unit sg\<rparr>"])
        (use True idx sgok in \<open>simp_all add: segment_end_def sg_def Let_def seg_window_ok_def\<close>)
  next
    case False
    consider "lat < SEGMENT_REQ_THRESHOLD" |
      "\<not> lat < SEGMENT_REQ_THRESHOLD" "segment_id = cur_segment_id t" |
      "\<not> lat < SEGMENT_REQ_THRESHOLD" "segment_id \<noteq> cur_segment_id t" by blast
    then show ?thesis
    proof cases
      case 1
      show ?thesis
        by (rule left [where sg = "sg\<lparr>wait_time := MIN_REORDER\<rparr>"])
          (use 1 False idx sgok in \<open>simp_all add: segment_end_def sg_def Let_def seg_window_ok_def\<close>)
    next
      case 2
      have "seg_window_ok (sg\<lparr>wait_time := wt, has_waiter := 0, unit := un\<rparr>)" if "window_ok t"
        using that sgok adj by (blast intro: seg_window_ok_adjust)
      moreover have "segment_id \<le> MAX_SEGMENT"
        using 2 assms by (simp add: tls_ok_def)
      ultimately show ?thesis
        by (intro left [where sg = "sg\<lparr>wait_time := wt, has_waiter := 0, unit := un\<rparr>"])
          (use 2 False idx adj in \<open>simp_all add: segment_end_def sg_def Let_def\<close>)
    next
      case 3
      then show ?thesis
        by (intro refused) (use False idx in \<open>simp_all add: segment_end_def sg_def Let_def\<close>)
    qed
  qed
qed

end
