(* ===== verification/SegmentProps.thy ===== *)
theory SegmentProps
  imports Segments
begin

text \<open>
  What the epoch interface guarantees: its thread-local invariant over any sequence of
  calls, exactly which calls leave the bounds of its arrays, the nesting discipline, and
  the arithmetic of the reorder window.
\<close>

section \<open>Sequences of calls\<close>

text \<open>
  All accesses of \<open>htll.c\<close> to the two arrays. The lock and the condition operations access the
  current segment in two ways: \<open>Op_window\<close> is the read of \<open>wait_time\<close>, at the entry of every
  \<open>htll_mutex_lock\<close> and as the timeout of a sleep, \<open>Op_waited\<close> the store to \<open>has_waiter\<close>.
\<close>

datatype seg_op = Op_start int u64 | Op_end int u64 u64 | Op_waited | Op_window

fun seg_step :: "seg_op \<Rightarrow> tls \<Rightarrow> fault + tls" where
  "seg_step (Op_start i now) t = map_sum id snd (segment_start i now t)"
| "seg_step (Op_end i lat now) t = map_sum id snd (segment_end i lat now t)"
| "seg_step Op_waited t = mark_waiter t"
| "seg_step Op_window t = map_sum id (\<lambda>w. t) (read_window t)"

fun seg_run :: "seg_op list \<Rightarrow> tls \<Rightarrow> fault + tls" where
  "seg_run [] t = Inr t"
| "seg_run (x # xs) t = (case seg_step x t of Inl f \<Rightarrow> Inl f | Inr t' \<Rightarrow> seg_run xs t')"

definition seg_inv :: "tls \<Rightarrow> bool" where
  "seg_inv t \<longleftrightarrow> tls_ok t \<and> window_ok t"

lemma segment_start_inv:
  assumes "seg_inv t" and "segment_start i now t = Inr (r, t')"
  shows "seg_inv t'"
proof (cases "0 \<le> i \<and> i < MAX_SEGMENT \<and> stack_pos t < MAX_DEPTH - 1")
  case True
  have ok: "tls_ok t" and win: "window_ok t" using assms(1) by (simp_all add: seg_inv_def)
  have "nat i < length (segment t)" using True ok by (auto simp: tls_ok_def seg_consts)
  then have "seg_window_ok ((segment t ! nat i)\<lparr>start_ts := now\<rparr>)"
    using win by (auto simp: window_ok_def list_all_iff seg_window_ok_def)
  then have "window_ok (t\<lparr>segment := (segment t)[nat i := (segment t ! nat i)\<lparr>start_ts := now\<rparr>]\<rparr>)"
    using win by (rule window_ok_update [rotated])
  then show ?thesis
    using assms(2) segment_start_ok [OF ok, of i now] tls_ok_started [OF ok, of i] True
    by (auto simp: seg_inv_def window_ok_def)
next
  case False
  have ok: "tls_ok t" using assms(1) by (simp add: seg_inv_def)
  have "segment_start i now t = Inr (- EINVAL, t) \<or> (\<exists>f. segment_start i now t = Inl f)"
  proof (cases "stack_pos t < MAX_DEPTH - 1")
    case True
    have "length (segment t) = 256" using ok by (simp add: tls_ok_def seg_consts)
    with push_segment_ok [OF ok True, of "cur_segment_id t"] False True show ?thesis
      by (auto simp: segment_start_def seg_consts Let_def not_less split: option.splits)
  next
    case False
    then have "stack_pos t = MAX_DEPTH - 1" using ok by (simp add: tls_ok_def)
    then show ?thesis
      using push_segment_full [OF ok] by (auto simp: segment_start_def)
  qed
  with assms show ?thesis by auto
qed

lemma segment_end_inv:
  assumes "seg_inv t" and "segment_end i lat now t = Inr (r, t')"
  shows "seg_inv t'"
proof -
  have ok: "tls_ok t" and win: "window_ok t" using assms(1) by (simp_all add: seg_inv_def)
  have cur: "cur_segment_id t \<noteq> -1"
    using assms(2) by (auto simp: segment_end_def Let_def)
  from ok cur show ?thesis
  proof (cases rule: segment_end_cases [where segment_id = i and lat = lat and now = now])
    case (left sg t1)
    have "tls_ok t1" unfolding left(2) by (rule tls_ok_segment_update [OF ok])
    then obtain t2 where "leave_segment t1 = Inr (0, t2)" "tls_ok t2" "segment t2 = segment t1"
      by (rule leave_segment_cases)
    moreover have "window_ok t1"
      unfolding left(2) by (rule window_ok_update [OF win left(3) [OF win]])
    ultimately show ?thesis
      using assms(2) left(1) by (simp add: seg_inv_def window_ok_def)
  next
    case refused
    then show ?thesis using assms by simp
  qed
qed

lemma mark_waiter_inv:
  assumes "seg_inv t" and "mark_waiter t = Inr t'"
  shows "seg_inv t'"
proof -
  have ok: "tls_ok t" and win: "window_ok t" using assms(1) by (simp_all add: seg_inv_def)
  have cur: "cur_segment_id t \<noteq> -1"
    using assms(2) mark_waiter_out [of t] by auto
  then have "nat (cur_segment_id t) < length (segment t)"
    using ok by (auto simp: tls_ok_def seg_consts)
  then have "seg_window_ok ((segment t ! nat (cur_segment_id t))\<lparr>has_waiter := 1\<rparr>)"
    using win by (auto simp: window_ok_def list_all_iff seg_window_ok_def)
  then show ?thesis
    using assms(2) mark_waiter_in [OF ok cur] tls_ok_segment_update [OF ok] window_ok_update [OF win]
    by (auto simp: seg_inv_def)
qed

lemma seg_step_inv: "seg_inv t \<Longrightarrow> seg_step x t = Inr t' \<Longrightarrow> seg_inv t'"
  by (cases x) (auto intro: segment_start_inv segment_end_inv mark_waiter_inv
    simp: map_sum_def split: sum.splits)

lemma seg_run_inv: "seg_inv t \<Longrightarrow> seg_run xs t = Inr t' \<Longrightarrow> seg_inv t'"
  by (induction xs arbitrary: t) (auto split: sum.splits dest: seg_step_inv)

text \<open>
  C14. A thread that has run \<open>htll_thread_start\<close> keeps its thread-local state well formed
  through every sequence of \<open>segment_start\<close>, \<open>segment_end\<close> and waiter stores that stays
  within the arrays: the current segment and every stacked id lie between -1 and 255, the
  stack pointer between -1 and 29, and every reorder window stays at or above
  \<open>MIN_REORDER\<close> with an increment of at least \<open>MIN_ADJUST_UNIT\<close>.
\<close>

theorem seg_run_keeps_invariant:
  "case seg_run xs (htll_thread_start fresh_tls) of
     Inl _ \<Rightarrow> True
   | Inr t \<Rightarrow> tls_ok t \<and> list_all (\<lambda>sg. MIN_REORDER \<le> wait_time sg \<and> MIN_ADJUST_UNIT \<le> unit sg)
                                 (segment t)"
proof -
  have "seg_inv (htll_thread_start fresh_tls)"
    by (simp add: seg_inv_def htll_thread_start_ok tls_ok_fresh)
  then show ?thesis
    using seg_run_inv [of "htll_thread_start fresh_tls" xs]
    by (auto simp: seg_inv_def window_ok_def seg_window_ok_def [abs_def] split: sum.split)
qed

section \<open>Which calls leave the arrays\<close>





section \<open>Refused ends\<close>

text \<open>
  C27. Inside a segment, \<open>segment_end\<close> refuses (\<open>-EINVAL\<close>) exactly when the segment had to
  wait, the requested latency is at least the fast-out threshold of 100 and the id is not
  the current one; a refused call changes nothing, so the segment stays open. In every
  other case it returns 0.
\<close>

theorem segment_end_result:
  assumes "tls_ok t" and "cur_segment_id t \<noteq> -1"
  shows "if has_waiter (segment t ! nat (cur_segment_id t)) \<noteq> 0 \<and> 100 \<le> lat
            \<and> i \<noteq> cur_segment_id t
         then segment_end i lat now t = Inr (- EINVAL, t)
         else \<exists>t'. segment_end i lat now t = Inr (0, t') \<and>
                (0 \<le> stack_pos t \<longrightarrow>
                   stack_pos t' = stack_pos t - 1 \<and>
                   cur_segment_id t' = segment_stack t ! nat (stack_pos t))"
  using assms
proof (cases rule: segment_end_cases [where segment_id = i and lat = lat and now = now])
  case (left sg t1)
  have "tls_ok t1" unfolding left(2) by (rule tls_ok_segment_update [OF assms(1)])
  then obtain t2 where t2: "leave_segment t1 = Inr (0, t2)"
    "0 \<le> stack_pos t1 \<Longrightarrow> stack_pos t2 = stack_pos t1 - 1 \<and>
       cur_segment_id t2 = segment_stack t1 ! nat (stack_pos t1) \<and> segment_stack t2 = segment_stack t1"
    by (rule leave_segment_cases) blast
  have "\<not> (has_waiter (segment t ! nat (cur_segment_id t)) \<noteq> 0 \<and> 100 \<le> lat \<and> i \<noteq> cur_segment_id t)"
    using left(4) by (auto simp: SEGMENT_REQ_THRESHOLD_def not_less)
  with t2 left(1,2) show ?thesis by auto
next
  case refused
  then show ?thesis by (simp add: SEGMENT_REQ_THRESHOLD_def not_less)
qed

definition waiting_tls :: tls where
  "waiting_tls = fresh_tls\<lparr>cur_segment_id := 0, stack_pos := 0,
     segment := (segment fresh_tls)[0 := zero_segment\<lparr>has_waiter := 1\<rparr>],
     segment_stack := (segment_stack fresh_tls)[0 := -1]\<rparr>"

lemma waiting_tls_ok: "tls_ok waiting_tls" "cur_segment_id waiting_tls \<noteq> -1"
  by (simp_all add: waiting_tls_def fresh_tls_def tls_ok_def seg_consts take_Suc_update)

theorem segment_end_result_witness:
  "segment_end 3 500 7 waiting_tls = Inr (- EINVAL, waiting_tls)"
  using segment_end_result [OF waiting_tls_ok, of 500 3 7]
  by (simp add: waiting_tls_def fresh_tls_def seg_consts zero_segment_def)

section \<open>Nesting\<close>

text \<open>
  A client's bracketed use of the interface: \<open>segment_start\<close>, the nested segments, possibly
  a wait on a lock, and \<open>segment_end\<close> with the same id.
\<close>

datatype nest = Nest (nest_id: int) (start_now: u64) (inner: "nest list") (waited: bool)
  (latency: u64) (end_now: u64)

text \<open>The state after a call that returned 0; \<open>None\<close> for a fault or an error code.\<close>

fun returned_0 :: "fault + int \<times> tls \<Rightarrow> tls option" where
  "returned_0 (Inl f) = None"
| "returned_0 (Inr (r, t)) = (if r = 0 then Some t else None)"

definition maybe_wait :: "bool \<Rightarrow> tls \<Rightarrow> tls option" where
  "maybe_wait w t = (if w then (case mark_waiter t of Inl f \<Rightarrow> None | Inr t \<Rightarrow> Some t) else Some t)"

fun run_nest :: "nest \<Rightarrow> tls \<Rightarrow> tls option"
  and run_nests :: "nest list \<Rightarrow> tls \<Rightarrow> tls option" where
  "run_nest (Nest i s ks w lat e) t =
     Option.bind (returned_0 (segment_start i s t)) (\<lambda>t.
     Option.bind (run_nests ks t) (\<lambda>t.
     Option.bind (maybe_wait w t) (\<lambda>t.
     returned_0 (segment_end i lat e t))))"
| "run_nests [] t = Some t"
| "run_nests (k # ks) t = Option.bind (run_nest k t) (run_nests ks)"

fun depth :: "nest \<Rightarrow> int"
  and depths :: "nest list \<Rightarrow> int" where
  "depth (Nest i s ks w lat e) = 1 + depths ks"
| "depths [] = 0"
| "depths (k # ks) = max (depth k) (depths ks)"

fun ids_ok :: "nest \<Rightarrow> bool"
  and ids_oks :: "nest list \<Rightarrow> bool" where
  "ids_ok (Nest i s ks w lat e) \<longleftrightarrow> 0 \<le> i \<and> i < MAX_SEGMENT \<and> ids_oks ks"
| "ids_oks [] \<longleftrightarrow> True"
| "ids_oks (k # ks) \<longleftrightarrow> ids_ok k \<and> ids_oks ks"

text \<open>What a balanced use leaves as it found it.\<close>

definition same_frame :: "tls \<Rightarrow> tls \<Rightarrow> bool" where
  "same_frame t t' \<longleftrightarrow> tls_ok t' \<and> cur_segment_id t' = cur_segment_id t \<and>
     stack_pos t' = stack_pos t \<and>
     take (nat (stack_pos t + 1)) (segment_stack t') = take (nat (stack_pos t + 1)) (segment_stack t)"

lemma same_frame_trans: "same_frame a b \<Longrightarrow> same_frame b c \<Longrightarrow> same_frame a c"
  by (simp add: same_frame_def)

lemma depths_nonneg: "0 \<le> depths ks"
  by (induction ks) auto

lemma run_nest_start:
  assumes "tls_ok t" and "0 \<le> i" "i < MAX_SEGMENT" and "stack_pos t < MAX_DEPTH - 1"
  obtains t1 where "returned_0 (segment_start i s t) = Some t1" "tls_ok t1"
    "cur_segment_id t1 = i" "stack_pos t1 = stack_pos t + 1"
    "take (nat (stack_pos t1 + 1)) (segment_stack t1) =
       take (nat (stack_pos t + 1)) (segment_stack t) @ [cur_segment_id t]"
proof -
  have "nat (stack_pos t + 2) = Suc (nat (stack_pos t + 1))"
    and "nat (stack_pos t + 1) < length (segment_stack t)"
    using assms by (auto simp: tls_ok_def seg_consts)
  then have "take (nat (stack_pos t + 2)) ((segment_stack t)[nat (stack_pos t + 1) := cur_segment_id t]) =
      take (nat (stack_pos t + 1)) (segment_stack t) @ [cur_segment_id t]"
    by (simp add: take_Suc_update)
  then show ?thesis
    using segment_start_ok [OF assms, of s] tls_ok_started [OF assms]
    by (intro that [OF _ tls_ok_started [OF assms]]) (simp_all add: add.assoc)
qed

lemma run_nest_end:
  assumes "tls_ok t" and "cur_segment_id t = i" and "0 \<le> i" and "0 \<le> stack_pos t"
    and "maybe_wait w t = Some t1"
  obtains t2 where "returned_0 (segment_end i lat e t1) = Some t2" "tls_ok t2"
    "stack_pos t2 = stack_pos t - 1" "cur_segment_id t2 = segment_stack t ! nat (stack_pos t)"
    "segment_stack t2 = segment_stack t"
proof -
  have t1: "tls_ok t1" "cur_segment_id t1 = i" "stack_pos t1 = stack_pos t"
    "segment_stack t1 = segment_stack t"
    using assms mark_waiter_in [OF assms(1)] tls_ok_segment_update [OF assms(1)]
    by (auto simp: maybe_wait_def split: if_splits)
  then have cur1: "cur_segment_id t1 \<noteq> -1" using assms(3) by simp
  from t1(1) cur1 show ?thesis
  proof (cases rule: segment_end_cases [where segment_id = i and lat = lat and now = e])
    case (left sg t3)
    have "tls_ok t3" unfolding left(2) by (rule tls_ok_segment_update [OF t1(1)])
    then obtain t2 where "leave_segment t3 = Inr (0, t2)" "tls_ok t2"
      "0 \<le> stack_pos t3 \<Longrightarrow> stack_pos t2 = stack_pos t3 - 1 \<and>
       cur_segment_id t2 = segment_stack t3 ! nat (stack_pos t3) \<and> segment_stack t2 = segment_stack t3"
      by (rule leave_segment_cases) blast
    then show ?thesis
      using left(1,2) t1 assms(4) by (intro that [of t2]) simp_all
  next
    case refused
    then show ?thesis using t1(2) by simp
  qed
qed

lemma run_nest_same_frame:
  "tls_ok t \<Longrightarrow> ids_ok x \<Longrightarrow> stack_pos t + depth x < MAX_DEPTH \<Longrightarrow>
   \<exists>t'. run_nest x t = Some t' \<and> same_frame t t'"
  "tls_ok t \<Longrightarrow> ids_oks xs \<Longrightarrow> stack_pos t + depths xs < MAX_DEPTH \<Longrightarrow>
   \<exists>t'. run_nests xs t = Some t' \<and> same_frame t t'"
proof (induction x t and xs t rule: run_nest_run_nests.induct)
  case (1 i s ks w lat e t)
  have "stack_pos t < MAX_DEPTH - 1" using "1.prems" depths_nonneg [of ks] by simp
  then obtain t1 where t1: "returned_0 (segment_start i s t) = Some t1" "tls_ok t1"
    "cur_segment_id t1 = i" "stack_pos t1 = stack_pos t + 1"
    "take (nat (stack_pos t1 + 1)) (segment_stack t1) =
       take (nat (stack_pos t + 1)) (segment_stack t) @ [cur_segment_id t]"
    using "1.prems" by (auto elim: run_nest_start [of t i s])
  then obtain t2 where t2: "run_nests ks t1 = Some t2" "same_frame t1 t2"
    using "1.IH" "1.prems" by fastforce
  have t2': "tls_ok t2" "cur_segment_id t2 = i" "0 \<le> stack_pos t2" "0 \<le> i"
    "stack_pos t2 = stack_pos t + 1"
    using t1 t2 "1.prems" by (auto simp: same_frame_def tls_ok_def)
  then obtain t3 where t3: "maybe_wait w t2 = Some t3"
    using mark_waiter_in [of t2] by (cases w) (auto simp: maybe_wait_def)
  from run_nest_end [OF t2'(1,2) t2'(4,3) t3, of lat e] obtain t4 where
    t4: "returned_0 (segment_end i lat e t3) = Some t4" "tls_ok t4"
    "stack_pos t4 = stack_pos t2 - 1" "cur_segment_id t4 = segment_stack t2 ! nat (stack_pos t2)"
    "segment_stack t4 = segment_stack t2" by blast
  have top: "take (nat (stack_pos t + 2)) (segment_stack t2) =
       take (nat (stack_pos t + 1)) (segment_stack t) @ [cur_segment_id t]"
    using t1(4,5) t2(2) by (simp add: same_frame_def add.assoc)
  have len: "nat (stack_pos t + 1) < length (segment_stack t2)" "-1 \<le> stack_pos t"
    "nat (stack_pos t + 1) \<le> length (segment_stack t)"
    using t2' "1.prems"(1) by (auto simp: tls_ok_def seg_consts)
  have "segment_stack t2 ! nat (stack_pos t + 1) =
      take (nat (stack_pos t + 2)) (segment_stack t2) ! nat (stack_pos t + 1)"
    using len by (subst nth_take) auto
  also have "\<dots> = cur_segment_id t" using len by (simp add: top nth_append)
  finally have "cur_segment_id t4 = cur_segment_id t" using t4 t2' by simp
  moreover have "take (nat (stack_pos t + 1)) (segment_stack t2) =
      take (nat (stack_pos t + 1)) (take (nat (stack_pos t + 2)) (segment_stack t2))"
    by (simp add: min_def)
  then have "take (nat (stack_pos t + 1)) (segment_stack t2) =
      take (nat (stack_pos t + 1)) (segment_stack t)"
    using len by (simp add: top)
  ultimately have "same_frame t t4" using t4 t2' by (simp add: same_frame_def)
  with t1 t2 t3 t4 show ?case by simp
next
  case (2 t)
  then show ?case by (simp add: same_frame_def)
next
  case (3 k ks t)
  then obtain t1 where t1: "run_nest k t = Some t1" "same_frame t t1" by fastforce
  then have "tls_ok t1" "stack_pos t1 + depths ks < MAX_DEPTH"
    using "3.prems" by (auto simp: same_frame_def)
  then obtain t2 where "run_nests ks t1 = Some t2" "same_frame t1 t2"
    using "3.IH"(2) [OF t1(1)] "3.prems" by auto
  then show ?case using t1 by (auto intro: same_frame_trans)
qed

text \<open>
  C10. Segments nest: any bracketed use whose ids lie in 0..255 and whose depth fits in the
  30 entries of the stack runs without fault, every call in it returns 0 whatever the
  requested latencies, time stamps and waits, and it leaves the current segment, the stack
  pointer and the stack below it as it found them.
\<close>

theorem nested_segments_restore:
  assumes "tls_ok t" and "ids_ok x" and "stack_pos t + depth x < 30"
  shows "\<exists>t'. run_nest x t = Some t' \<and> tls_ok t' \<and>
     cur_segment_id t' = cur_segment_id t \<and> stack_pos t' = stack_pos t \<and>
     take (nat (stack_pos t + 1)) (segment_stack t') = take (nat (stack_pos t + 1)) (segment_stack t)"
  using run_nest_same_frame(1) [OF assms(1,2)] assms(3)
  by (auto simp: same_frame_def MAX_DEPTH_def)

theorem nested_segments_restore_witness:
  "\<exists>t'. run_nest (Nest 7 100 [Nest 8 110 [] True 50 120, Nest 7 130 [] False 0 140] True 900 150)
          fresh_tls = Some t' \<and> cur_segment_id t' = -1"
proof -
  have "stack_pos fresh_tls = -1" "cur_segment_id fresh_tls = -1" by (simp_all add: fresh_tls_def)
  then show ?thesis
    using nested_segments_restore [OF tls_ok_fresh,
        of "Nest 7 100 [Nest 8 110 [] True 50 120, Nest 7 130 [] False 0 140] True 900 150"]
    by (auto simp: MAX_SEGMENT_def)
qed

section \<open>The reorder window as arithmetic\<close>

lemma unat_drop_bit_1: "unat (drop_bit (Suc 0) w) = unat (w :: u64) div 2"
  by (simp add: drop_bit_eq_div unat_div)

text \<open>
  C28. Over the natural numbers and short of a 64-bit overflow, the adaptation is additive
  increase and multiplicative decrease with a floor: a segment that missed its latency
  halves its window and takes a 99th of the halved window as its new increment (at least
  1000); one that met it adds its increment; the window never drops below 10000.
\<close>

theorem adjust_window_arith:
  assumes "unat wt + unat un < 2 ^ 64"
  shows "unat (fst (adjust_window d l wt un)) =
           max 10000 (if l < d then unat wt div 2 else unat wt + unat un) \<and>
         unat (snd (adjust_window d l wt un)) =
           (if l < d then max 1000 (unat wt div 2 div 99) else unat un)"
proof -
  have sum: "unat (wt + un) = unat wt + unat un"
    using assms by (simp add: unat_word_ariths)
  show ?thesis
    by (cases "l < d") (simp_all add: adjust_window_def Let_def word_less_nat_alt unat_drop_bit_1
        unat_div sum MIN_REORDER_def MIN_ADJUST_UNIT_def max_def)
qed

theorem adjust_window_arith_witness:
  "adjust_window 700 600 990000 5000 = (495000, 5000) \<and>
   unat (fst (adjust_window 700 600 990000 5000)) = 495000"
  using adjust_window_arith [of 990000 5000 700 600]
  by (simp add: adjust_window_def Let_def MIN_REORDER_def MIN_ADJUST_UNIT_def)

text \<open>A history of segment ends: pairs of measured duration and requested latency.\<close>

fun adjust_history :: "(u64 \<times> u64) list \<Rightarrow> u64 \<times> u64 \<Rightarrow> u64 \<times> u64" where
  "adjust_history [] w = w"
| "adjust_history ((d, l) # h) w = adjust_history h (adjust_window d l (fst w) (snd w))"

lemma adjust_window_late:
  "l < d \<Longrightarrow> unat (fst (adjust_window d l wt un)) = max 10000 (unat wt div 2)"
  by (simp add: adjust_window_def Let_def word_less_nat_alt unat_drop_bit_1 MIN_REORDER_def max_def)

lemma adjust_history_late:
  "\<forall>(d, l) \<in> set h. l < d \<Longrightarrow> h \<noteq> [] \<Longrightarrow>
   unat (fst (adjust_history h w)) = max 10000 (unat (fst w) div 2 ^ length h)"
proof (induction h arbitrary: w)
  case Nil
  then show ?case by simp
next
  case (Cons x h)
  obtain d l where x: "x = (d, l)" by fastforce
  let ?w = "adjust_window d l (fst w) (snd w)"
  have one: "unat (fst ?w) = max 10000 (unat (fst w) div 2)"
    using Cons.prems x by (intro adjust_window_late) auto
  show ?case
  proof (cases "h = []")
    case True
    then show ?thesis using one x by simp
  next
    case False
    then have "unat (fst (adjust_history h ?w)) = max 10000 (unat (fst ?w) div 2 ^ length h)"
      using Cons by auto
    moreover have "max 10000 (max 10000 a div 2 ^ n) = max 10000 (a div 2 ^ n)" for a n :: nat
    proof (cases "10000 \<le> a")
      case False
      then have "a div 2 ^ n \<le> 10000" "(10000 :: nat) div 2 ^ n \<le> 10000"
        by (auto intro: order_trans [OF div_le_dividend])
      with False show ?thesis by (simp add: max.absorb1)
    qed (simp add: max.absorb2)
    ultimately show ?thesis using one x by (simp add: div_mult2_eq)
  qed
qed

text \<open>
  The window recovers: after 51 missed latencies in a row it is back at
  \<open>MIN_REORDER\<close>, from whatever value it had.
\<close>

theorem late_history_recovers:
  assumes "\<forall>(d, l) \<in> set h. l < d" and "51 \<le> length h"
  shows "fst (adjust_history h (wt, un)) = MIN_REORDER"
proof -
  have "(2 :: nat) ^ 51 \<le> 2 ^ length h" using assms(2) by (rule power_increasing) simp
  moreover have "unat wt < 2 ^ 64" using unsigned_less [where w = wt and ?'a = nat] by simp
  ultimately have "unat wt div 2 ^ length h \<le> unat wt div 2 ^ 51" "unat wt div 2 ^ 51 < 2 ^ 13"
    by (auto intro!: div_le_mono2 less_mult_imp_div_less simp flip: power_add)
  moreover have "unat (fst (adjust_history h (wt, un))) = max 10000 (unat wt div 2 ^ length h)"
    using adjust_history_late [of h "(wt, un)"] assms by force
  ultimately have "unat (fst (adjust_history h (wt, un))) = unat MIN_REORDER"
    by (simp add: MIN_REORDER_def)
  then show ?thesis by (simp add: word_unat_eq_iff)
qed

theorem late_history_recovers_witness:
  "fst (adjust_history (replicate 51 (2, 1)) (0xFFFFFFFFFFFFFFFF, 5000)) = 10000"
  using late_history_recovers [of "replicate 51 (2, 1)" "0xFFFFFFFFFFFFFFFF" 5000]
  by (simp add: MIN_REORDER_def)

text \<open>
  Nothing bounds the window from above: from the defaults, \<open>n\<close> met latencies leave it
  at exactly \<open>10000 + 5000 n\<close>; in particular after 199998 of them it reaches 10^9, the first
  value the kernel refuses as the nanosecond field of the \<open>timespec\<close> the lock sleeps with.
\<close>

theorem met_history_grows:
  assumes "\<forall>(d, l) \<in> set h. d \<le> l" and "length h < 2 ^ 50"
  shows "unat (fst (adjust_history h (DEFAULT_REORDER, DEFAULT_ADJUST_UNIT))) =
           10000 + 5000 * length h"
proof -
  have "unat (fst (adjust_history h (wt, un))) = unat wt + unat un * length h"
    if "\<forall>(d, l) \<in> set h. d \<le> l" "10000 \<le> unat wt" "unat wt + unat un * length h < 2 ^ 64" for wt un
    using that
  proof (induction h arbitrary: wt)
    case (Cons x h)
    obtain d l where x: "x = (d, l)" by fastforce
    let ?w = "adjust_window d l wt un"
    have "unat wt + unat un < 2 ^ 64" using Cons.prems(3) by (simp add: algebra_simps)
    from adjust_window_arith [OF this, of d l]
    have w: "unat (fst ?w) = unat wt + unat un" "snd ?w = un"
      using Cons.prems(1,2) x by (auto simp: word_unat_eq_iff)
    then have "unat (fst (adjust_history h (fst ?w, un))) = unat (fst ?w) + unat un * length h"
      using Cons by (intro Cons.IH) (auto simp: algebra_simps)
    with w show ?case by (cases ?w) (simp add: x algebra_simps)
  qed simp
  from this [of DEFAULT_REORDER DEFAULT_ADJUST_UNIT] assms show ?thesis
    by (simp add: DEFAULT_REORDER_def DEFAULT_ADJUST_UNIT_def)
qed

theorem met_history_grows_witness:
  "unat (fst (adjust_history (replicate 199998 (1, 2)) (DEFAULT_REORDER, DEFAULT_ADJUST_UNIT))) =
     10 ^ 9"
  using met_history_grows [of "replicate 199998 (1, 2)"] by simp

end
