(* ===== verification/HtllMutex.thy ===== *)
theory HtllMutex
  imports LockWord
begin

text \<open>
  The mutex of \<open>src/htll.c\<close> as data: \<open>htll_mutex_t\<close> without its padding, its creation
  and destruction, and the self-tuning of the spin budget that the slow path of the unlock
  performs. The steps of lock and unlock themselves are in \<open>Machine\<close>.
\<close>

section \<open>The mutex\<close>

record htll_mutex =
  l_u :: u32
  ticks_spin :: u32
  cnt_unlock :: u32
  cnt_wake :: u32
  flag :: u32

definition ADJUST_THRESHOLD :: u32 where "ADJUST_THRESHOLD = 2047"
definition WAKE_MAX_THRESHOLD :: u32 where "WAKE_MAX_THRESHOLD = 32"
definition WAKE_MIN_THRESHOLD :: u32 where "WAKE_MIN_THRESHOLD = 16"
definition INCREASE_UNIT :: u32 where "INCREASE_UNIT = 512"
definition DECREASE_UNIT :: u32 where "DECREASE_UNIT = 256"

lemmas tune_consts = ADJUST_THRESHOLD_def WAKE_MAX_THRESHOLD_def WAKE_MIN_THRESHOLD_def
  INCREASE_UNIT_def DECREASE_UNIT_def HTLL_SPIN_TRIES_LOCK_def

definition htll_mutex_create :: htll_mutex where
  "htll_mutex_create =
     \<lparr>l_u = 0, ticks_spin = HTLL_SPIN_TRIES_LOCK, cnt_unlock = 0, cnt_wake = 0, flag = 0\<rparr>"

text \<open>Destruction does nothing and returns 0.\<close>

definition htll_mutex_destroy :: "htll_mutex \<Rightarrow> int \<times> htll_mutex" where
  "htll_mutex_destroy m = (0, m)"

text \<open>The file-local stub: it prints a warning, does not touch the mutex and reports success.\<close>

definition htll_mutex_timedlock :: "htll_mutex \<Rightarrow> int \<times> htll_mutex" where
  "htll_mutex_timedlock m = (0, m)"

section \<open>Tuning the spin budget\<close>

definition adjust_spin_ticks :: "htll_mutex \<Rightarrow> htll_mutex" where
  "adjust_spin_ticks m =
     (let m = (if cnt_wake m > WAKE_MAX_THRESHOLD
               then m\<lparr>ticks_spin := ticks_spin m + INCREASE_UNIT\<rparr>
               else if cnt_wake m < WAKE_MIN_THRESHOLD
               then m\<lparr>ticks_spin := ticks_spin m - DECREASE_UNIT\<rparr>
               else m)
      in m\<lparr>cnt_wake := 0\<rparr>)"

text \<open>The counter of the slow path and its test; the boolean asks for an adjustment.\<close>

definition count_unlock :: "htll_mutex \<Rightarrow> htll_mutex \<times> bool" where
  "count_unlock m =
     (let m = m\<lparr>cnt_unlock := cnt_unlock m + 1\<rparr>
      in (m, cnt_unlock m AND ADJUST_THRESHOLD = 0))"

lemma l_u_adjust_spin_ticks [simp]: "l_u (adjust_spin_ticks m) = l_u m"
  by (simp add: adjust_spin_ticks_def Let_def)

lemma l_u_count_unlock [simp]: "l_u (fst (count_unlock m)) = l_u m"
  by (simp add: count_unlock_def Let_def)

lemma cnt_wake_adjust [simp]: "cnt_wake (adjust_spin_ticks m) = 0"
  by (simp add: adjust_spin_ticks_def Let_def)

lemma and_2047: "(w :: u32) AND 2047 = 0 \<longleftrightarrow> 2048 dvd unat w"
proof -
  have "w AND 2047 = take_bit 11 w"
    by (simp add: take_bit_eq_mask mask_eq_exp_minus_1)
  moreover have "unat (take_bit 11 w) = unat w mod 2048"
    by (simp add: take_bit_eq_mod unat_mod)
  ultimately show ?thesis
    by (metis dvd_eq_mod_eq_0 unat_eq_zero)
qed

text \<open>
  The slow unlocks tune the spin budget every 2048th time: the counter asks for an
  adjustment exactly when its new value is a multiple of 2048; an adjustment adds 512
  cycles after more than 32 wake-ups, takes 256 away after fewer than 16, leaves the budget
  alone in between, and resets the wake counter without touching the lock word.
\<close>

theorem spin_tuning:
  "(snd (count_unlock m) \<longleftrightarrow> 2048 dvd unat (cnt_unlock m + 1)) \<and>
   cnt_unlock (fst (count_unlock m)) = cnt_unlock m + 1 \<and>
   ticks_spin (adjust_spin_ticks m) =
     ticks_spin m + (if 32 < unat (cnt_wake m) then 512
                     else if unat (cnt_wake m) < 16 then - 256 else 0) \<and>
   cnt_wake (adjust_spin_ticks m) = 0 \<and>
   l_u (adjust_spin_ticks m) = l_u m \<and> l_u (fst (count_unlock m)) = l_u m"
  by (simp add: count_unlock_def adjust_spin_ticks_def Let_def tune_consts and_2047
      word_less_nat_alt)

lemma adjust_quiet:
  "cnt_wake m = 0 \<Longrightarrow> adjust_spin_ticks m = m\<lparr>ticks_spin := ticks_spin m - 256, cnt_wake := 0\<rparr>"
  by (simp add: adjust_spin_ticks_def Let_def tune_consts)

lemma quiet_adjustments:
  "ticks_spin ((adjust_spin_ticks ^^ n) htll_mutex_create) = 8192 - 256 * of_nat n \<and>
   cnt_wake ((adjust_spin_ticks ^^ n) htll_mutex_create) = 0"
proof (induction n)
  case 0
  show ?case by (simp add: htll_mutex_create_def tune_consts)
next
  case (Suc n)
  then show ?case by (simp add: adjust_quiet)
qed

text \<open>
  The budget has no lower bound. Every adjustment without wake-ups takes 256 cycles
  from it; after 32 of them it is 0, and the 33rd wraps it around. Read as \<open>int\<close> by the
  lock and converted to \<open>uint64_t\<close> by the cycle loop, the wrapped budget is exceeded only
  by an elapsed time above \<open>2^64 - 256\<close> cycles: a thread spins for ever and never sleeps.
\<close>

theorem spin_budget_wraps:
  "ticks_spin ((adjust_spin_ticks ^^ n) htll_mutex_create) = 8192 - 256 * of_nat n \<and>
   ticks_spin ((adjust_spin_ticks ^^ 32) htll_mutex_create) = 0 \<and>
   unat (ticks_spin ((adjust_spin_ticks ^^ 33) htll_mutex_create)) = 2 ^ 32 - 256 \<and>
   (cycles_exceeded (ticks_spin ((adjust_spin_ticks ^^ 33) htll_mutex_create)) s e
      \<longleftrightarrow> 2 ^ 64 - 256 < unat (e - s))"
proof -
  have 33: "ticks_spin ((adjust_spin_ticks ^^ 33) htll_mutex_create) = 0xFFFFFF00"
    by (simp only: quiet_adjustments) simp
  have 32: "ticks_spin ((adjust_spin_ticks ^^ 32) htll_mutex_create) = 0"
    by (simp only: quiet_adjustments) simp
  have "scast (0xFFFFFF00 :: u32) = (0xFFFFFFFFFFFFFF00 :: u64)"
    by simp
  then show ?thesis
    by (simp only: 32 33 quiet_adjustments cycles_exceeded_def word_less_nat_alt) simp
qed

end
