(* ===== verification/Machine.thy ===== *)
theory Machine
  imports HtllMutex Segments
begin

text \<open>
  The concurrent part of \<open>src/htll.c\<close> as a machine of interleaved steps. Any number of
  threads call the operations on any number of mutexes and condition variables; a step is
  one access to shared memory (or one read of the clock, or one system call) of one
  thread, in the order of the C statements, with sequentially consistent accesses. The
  position of a thread inside the C function it executes is its \<open>pc\<close>.

  The kernel is only assumed to behave as futex(2) documents: \<open>FUTEX_WAIT\<close> blocks only if
  the word still has the expected value, and a blocked call may return at any time
  (wake-up, timeout, signal); \<open>FUTEX_WAKE\<close> of one thread wakes one blocked thread if
  there is any, the kernel chooses which. The choice, the clock readings and the time
  stamps are the argument \<open>ext\<close> of a step.
\<close>

section \<open>State\<close>

type_synonym tid = nat
type_synonym maddr = nat
type_synonym caddr = nat

text \<open>\<open>timespec\<close>: seconds and nanoseconds; a \<open>deadline\<close> is \<open>None\<close> for an untimed wait.\<close>

type_synonym timespec = "int \<times> int"
type_synonym deadline = "timespec option"

record upmutex_cond1_t =
  c_m :: "maddr option"
  c_seq :: u32

definition upmutex_cond1_init :: "upmutex_cond1_t \<Rightarrow> int \<times> upmutex_cond1_t" where
  "upmutex_cond1_init c = (0, c\<lparr>c_m := None, c_seq := 0\<rparr>)"

definition upmutex_cond1_destroy :: "upmutex_cond1_t \<Rightarrow> int \<times> upmutex_cond1_t" where
  "upmutex_cond1_destroy c = (0, c)"

text \<open>Positions in \<open>htll_mutex_lock\<close>.\<close>

datatype lock_pc = L_try | L_stamp | L_spin | L_check | L_swap
  | L_twait | L_tsleep | L_woken | L_loop | L_wait | L_sleep

text \<open>
  Positions in \<open>htll_mutex_unlock\<close>, and who called it. \<open>U_adjust\<close> to \<open>U_reset\<close> are inside
  \<open>adjust_spin_ticks\<close>; \<open>U_tload d\<close> is before the load of the budget that changes by \<open>d\<close>,
  \<open>U_tstore v\<close> before the store of \<open>v\<close>.
\<close>

datatype unlock_pc = U_load | U_cas | U_count
  | U_adjust | U_adjust2 | U_tload u32 | U_tstore u32 | U_reset
  | U_store | U_check1 | U_delay nat | U_check2 | U_clear | U_wload | U_wstore | U_wake

datatype caller = From_api | From_wait caddr deadline

text \<open>Positions in \<open>upmutex_cond1_wait\<close> and \<open>htll_cond_timedwait\<close>.\<close>

datatype wait_pc = W_seq | W_test | W_test2 | W_cas | W_test3
  | W_clock1 | W_futex | W_sleep | W_requeued maddr | W_clock2
  | W_relock | W_mwait | W_msleep | W_mwoken

datatype pc = Idle | Faulted fault
  | In_lock lock_pc maddr
  | In_trylock maddr
  | In_unlock unlock_pc maddr caller
  | In_wait wait_pc caddr maddr deadline
  | In_signal bool caddr
  | In_bcast "maddr option" bool caddr

text \<open>
  \<open>In_signal b c\<close>: \<open>b\<close> says that the sequence number has been incremented.
  \<open>In_bcast None _ c\<close>: before the read of \<open>c->m\<close>; \<open>In_bcast (Some m) b c\<close>: after it.

  \<open>held\<close> is the only field that is not in the code: the mutexes whose lock word the thread
  has taken and not given back.
\<close>

record thread =
  pc :: pc
  ret :: int
  spin_ticks :: u32
  sleep_time :: "u32 option"
  lflag :: int
  stamp :: u64
  seqv :: u32
  relt :: timespec
  wret :: int
  cw_reg :: u32
  local :: tls
  held :: "maddr set"

record sys =
  nthreads :: nat
  mtx :: "maddr \<Rightarrow> htll_mutex"
  cnd :: "caddr \<Rightarrow> upmutex_cond1_t"
  thr :: "tid \<Rightarrow> thread"

text \<open>What the environment of a step contributes: \<open>rdtsc\<close>, \<open>gettimeofday\<close>, the thread woken.\<close>

record ext =
  ticks :: u64
  clock :: "int \<times> int"
  wake :: "tid option"

section \<open>Updates\<close>

definition upd_thr :: "tid \<Rightarrow> (thread \<Rightarrow> thread) \<Rightarrow> sys \<Rightarrow> sys" where
  "upd_thr i f s = s\<lparr>thr := (thr s)(i := f (thr s i))\<rparr>"

definition go :: "tid \<Rightarrow> pc \<Rightarrow> sys \<Rightarrow> sys" where
  "go i p = upd_thr i (\<lambda>t. t\<lparr>pc := p\<rparr>)"

definition return :: "tid \<Rightarrow> int \<Rightarrow> sys \<Rightarrow> sys" where
  "return i r = upd_thr i (\<lambda>t. t\<lparr>pc := Idle, ret := r\<rparr>)"

definition upd_mtx :: "maddr \<Rightarrow> (htll_mutex \<Rightarrow> htll_mutex) \<Rightarrow> sys \<Rightarrow> sys" where
  "upd_mtx m f s = s\<lparr>mtx := (mtx s)(m := f (mtx s m))\<rparr>"

definition upd_cnd :: "caddr \<Rightarrow> (upmutex_cond1_t \<Rightarrow> upmutex_cond1_t) \<Rightarrow> sys \<Rightarrow> sys" where
  "upd_cnd c f s = s\<lparr>cnd := (cnd s)(c := f (cnd s c))\<rparr>"

definition lock_word :: "maddr \<Rightarrow> sys \<Rightarrow> u32" where
  "lock_word m s = l_u (mtx s m)"

definition put_word :: "maddr \<Rightarrow> u32 \<Rightarrow> sys \<Rightarrow> sys" where
  "put_word m u = upd_mtx m (\<lambda>x. x\<lparr>l_u := u\<rparr>)"

definition take_lock :: "tid \<Rightarrow> maddr \<Rightarrow> sys \<Rightarrow> sys" where
  "take_lock i m = upd_thr i (\<lambda>t. t\<lparr>held := insert m (held t)\<rparr>)"

definition drop_lock :: "tid \<Rightarrow> maddr \<Rightarrow> sys \<Rightarrow> sys" where
  "drop_lock i m = upd_thr i (\<lambda>t. t\<lparr>held := held t - {m}\<rparr>)"

lemmas upd_defs = upd_thr_def go_def return_def upd_mtx_def upd_cnd_def lock_word_def put_word_def
  take_lock_def drop_lock_def

section \<open>The kernel's side of a futex call\<close>

datatype faddr = Mutex_word maddr | Cond_seq caddr

fun sleeping_on :: "pc \<Rightarrow> faddr option" where
  "sleeping_on (In_lock L_tsleep m) = Some (Mutex_word m)"
| "sleeping_on (In_lock L_sleep m) = Some (Mutex_word m)"
| "sleeping_on (In_wait W_sleep c m d) = Some (Cond_seq c)"
| "sleeping_on (In_wait (W_requeued q) c m d) = Some (Mutex_word q)"
| "sleeping_on (In_wait W_msleep c m d) = Some (Mutex_word m)"
| "sleeping_on _ = None"

text \<open>Where the thread goes on when the blocked call returns.\<close>

definition after_cond_futex :: "caddr \<Rightarrow> maddr \<Rightarrow> deadline \<Rightarrow> pc" where
  "after_cond_futex c m d = In_wait (case d of None \<Rightarrow> W_relock | Some ts \<Rightarrow> W_clock2) c m d"

fun awake :: "pc \<Rightarrow> pc" where
  "awake (In_lock L_tsleep m) = In_lock L_woken m"
| "awake (In_lock L_sleep m) = In_lock L_loop m"
| "awake (In_wait W_sleep c m d) = after_cond_futex c m d"
| "awake (In_wait (W_requeued q) c m d) = after_cond_futex c m d"
| "awake (In_wait W_msleep c m d) = In_wait W_mwoken c m d"
| "awake p = p"

definition awaken :: "tid \<Rightarrow> sys \<Rightarrow> sys" where
  "awaken i = upd_thr i (\<lambda>t. t\<lparr>pc := awake (pc t)\<rparr>)"

definition sleepers :: "faddr \<Rightarrow> sys \<Rightarrow> tid list" where
  "sleepers a s = filter (\<lambda>i. sleeping_on (pc (thr s i)) = Some a) [0..<nthreads s]"

text \<open>\<open>FUTEX_WAKE\<close> of one thread: nobody only if nobody sleeps there.\<close>

definition futex_wake1 :: "faddr \<Rightarrow> tid option \<Rightarrow> sys \<Rightarrow> sys option" where
  "futex_wake1 a w s =
     (case w of
        None \<Rightarrow> if sleepers a s = [] then Some s else None
      | Some j \<Rightarrow> if j \<in> set (sleepers a s) then Some (awaken j s) else None)"

text \<open>\<open>FUTEX_REQUEUE\<close>: wake one sleeper of the condition, move the others to the mutex.\<close>

fun requeue_pc :: "caddr \<Rightarrow> maddr \<Rightarrow> pc \<Rightarrow> pc" where
  "requeue_pc c q (In_wait W_sleep c' m d) =
     (if c' = c then In_wait (W_requeued q) c' m d else In_wait W_sleep c' m d)"
| "requeue_pc c q p = p"

definition futex_requeue :: "caddr \<Rightarrow> maddr \<Rightarrow> tid option \<Rightarrow> sys \<Rightarrow> sys option" where
  "futex_requeue c q w s =
     map_option (\<lambda>s. s\<lparr>thr := (\<lambda>j. if j < nthreads s
                                   then thr s j\<lparr>pc := requeue_pc c q (pc (thr s j))\<rparr>
                                   else thr s j)\<rparr>)
       (futex_wake1 (Cond_seq c) w s)"

text \<open>The kernel refuses a relative timeout whose nanoseconds are not in \<open>[0, 10^9)\<close>.\<close>

definition timespec_valid :: "timespec \<Rightarrow> bool" where
  "timespec_valid ts \<longleftrightarrow> 0 \<le> fst ts \<and> 0 \<le> snd ts \<and> snd ts < 1000000000"

text \<open>The timeout of a sleep in a segment: \<open>{0, segment[cur_segment_id].wait_time}\<close>.\<close>

definition segment_timeout :: "tls \<Rightarrow> timespec option" where
  "segment_timeout t = (case read_window t of Inl f \<Rightarrow> None | Inr w \<Rightarrow> Some (0, sint w))"

lemma segment_timeout_alt:
  "segment_timeout t =
     map_option (\<lambda>sg. (0, sint (wait_time sg))) (arr_read (segment t) (cur_segment_id t))"
  by (simp add: segment_timeout_def read_window_def split: option.split)

section \<open>htll\_mutex\_lock\<close>

text \<open>
  The entry of the call: the local variables. \<open>segment[cur_segment_id].wait_time\<close> is read
  into \<open>sleep_time\<close>. Outside a segment the index is -1, and this access is one outside the
  array, undefined in C, in every lock (\<open>seg_step_fault_iff\<close> counts it). Nothing uses the value, so the
  code goes on with an indeterminate one (\<open>None\<close>), and so does the machine; where a value read
  outside the array is used, as the timeout of a sleep, the machine faults.
\<close>

definition lock_enter :: "tid \<Rightarrow> maddr \<Rightarrow> sys \<Rightarrow> sys" where
  "lock_enter i m s =
     upd_thr i (\<lambda>t. t\<lparr>spin_ticks := ticks_spin (mtx s m),
       sleep_time := (case read_window (local t) of Inl f \<Rightarrow> None | Inr w \<Rightarrow> Some (ucast w)),
       lflag := (if cur_segment_id (local t) = -1 then 1 else 0),
       pc := In_lock L_try m\<rparr>) s"

text \<open>An acquisition: the thread owns the mutex and the call returns.\<close>

definition acquired :: "tid \<Rightarrow> maddr \<Rightarrow> int \<Rightarrow> sys \<Rightarrow> sys" where
  "acquired i m r s = return i r (take_lock i m s)"

text \<open>The byte exchange, with the two ways to go on.\<close>

definition swap8_or :: "tid \<Rightarrow> maddr \<Rightarrow> (sys \<Rightarrow> sys) \<Rightarrow> sys \<Rightarrow> sys" where
  "swap8_or i m fail s =
     (let (u, old) = htll_swap_uint8 (lock_word m s) LOCKED; s = put_word m u s
      in if old = UNLOCKED then acquired i m 0 s else fail s)"

text \<open>The 32-bit exchange with \<open>LOCKED_AND_CONTENDED\<close>.\<close>

definition swap32_or :: "tid \<Rightarrow> maddr \<Rightarrow> int \<Rightarrow> (sys \<Rightarrow> sys) \<Rightarrow> sys \<Rightarrow> sys" where
  "swap32_or i m r fail s =
     (let (u, old) = htll_swap_uint32 (lock_word m s) LOCKED_AND_CONTENDED; s = put_word m u s
      in if old AND ucast LOCKED = ucast UNLOCKED then acquired i m r s else fail s)"

fun lock_step :: "ext \<Rightarrow> tid \<Rightarrow> maddr \<Rightarrow> lock_pc \<Rightarrow> sys \<Rightarrow> sys option" where
  "lock_step e i m L_try s = Some (swap8_or i m (go i (In_lock L_stamp m)) s)"
| "lock_step e i m L_stamp s =
     Some (upd_thr i (\<lambda>t. t\<lparr>stamp := ticks e, pc := In_lock L_spin m\<rparr>) s)"
| "lock_step e i m L_spin s = Some (swap8_or i m (go i (In_lock L_check m)) s)"
| "lock_step e i m L_check s =
     Some (if cycles_exceeded (spin_ticks (thr s i)) (stamp (thr s i)) (ticks e)
           then go i (In_lock L_swap m) s else go i (In_lock L_spin m) s)"
| "lock_step e i m L_swap s =
     Some (swap32_or i m 0
       (\<lambda>s. go i (In_lock (if lflag (thr s i) = 0 then L_twait else L_loop) m) s) s)"
| "lock_step e i m L_twait s =
     (case segment_timeout (local (thr s i)) of
        None \<Rightarrow> Some (go i (Faulted (Segment_out_of_bounds (cur_segment_id (local (thr s i))))) s)
      | Some ts \<Rightarrow>
          Some (if timespec_valid ts \<and> lock_word m s = 257
                then go i (In_lock L_tsleep m) s else go i (In_lock L_woken m) s))"
| "lock_step e i m L_tsleep s = None"
| "lock_step e i m L_woken s =
     (case mark_waiter (local (thr s i)) of
        Inl f \<Rightarrow> Some (go i (Faulted f) s)
      | Inr l \<Rightarrow> Some (upd_thr i (\<lambda>t. t\<lparr>local := l, spin_ticks := spin_ticks t * 2,
                                        pc := In_lock L_try m\<rparr>) s))"
| "lock_step e i m L_loop s = Some (swap32_or i m 0 (go i (In_lock L_wait m)) s)"
| "lock_step e i m L_wait s =
     Some (if lock_word m s = 257 then go i (In_lock L_sleep m) s else go i (In_lock L_loop m) s)"
| "lock_step e i m L_sleep s = None"

section \<open>htll\_mutex\_trylock\<close>

definition trylock_step :: "tid \<Rightarrow> maddr \<Rightarrow> sys \<Rightarrow> sys option" where
  "trylock_step i m s = Some (swap8_or i m (return i EBUSY) s)"

section \<open>htll\_mutex\_unlock\<close>

text \<open>The return of the unlock, to the caller of the API or into a condition wait.\<close>

definition unlocked :: "tid \<Rightarrow> maddr \<Rightarrow> caller \<Rightarrow> sys \<Rightarrow> sys" where
  "unlocked i m k =
     (case k of
        From_api \<Rightarrow> return i 0
      | From_wait c d \<Rightarrow>
          go i (In_wait (case d of None \<Rightarrow> W_futex | Some ts \<Rightarrow> W_clock1) c m d))"

fun unlock_step :: "ext \<Rightarrow> tid \<Rightarrow> maddr \<Rightarrow> caller \<Rightarrow> unlock_pc \<Rightarrow> sys \<Rightarrow> sys option" where
  "unlock_step e i m k U_load s =
     Some (go i (In_unlock (if lock_word m s = 1 then U_cas else U_count) m k) s)"
| "unlock_step e i m k U_cas s =
     Some (let (u, old) = sync_cas32 (lock_word m s) 1 0; s = put_word m u s
           in if old = 1 then unlocked i m k (drop_lock i m s) else go i (In_unlock U_count m k) s)"
| "unlock_step e i m k U_count s =
     Some (let (x, adjust) = count_unlock (mtx s m)
           in go i (In_unlock (if adjust then U_adjust else U_store) m k) (upd_mtx m (\<lambda>_. x) s))"
| "unlock_step e i m k U_adjust s =
     Some (go i (In_unlock (if cnt_wake (mtx s m) > WAKE_MAX_THRESHOLD then U_tload INCREASE_UNIT
                            else U_adjust2) m k) s)"
| "unlock_step e i m k U_adjust2 s =
     Some (go i (In_unlock (if cnt_wake (mtx s m) < WAKE_MIN_THRESHOLD then U_tload (- DECREASE_UNIT)
                            else U_reset) m k) s)"
| "unlock_step e i m k (U_tload d) s =
     Some (go i (In_unlock (U_tstore (ticks_spin (mtx s m) + d)) m k) s)"
| "unlock_step e i m k (U_tstore v) s =
     Some (go i (In_unlock U_reset m k) (upd_mtx m (\<lambda>x. x\<lparr>ticks_spin := v\<rparr>) s))"
| "unlock_step e i m k U_reset s =
     Some (go i (In_unlock U_store m k) (upd_mtx m (\<lambda>x. x\<lparr>cnt_wake := 0\<rparr>) s))"
| "unlock_step e i m k U_store s =
     Some (go i (In_unlock U_check1 m k)
            (drop_lock i m (put_word m (set_locked UNLOCKED (lock_word m s)) s)))"
| "unlock_step e i m k U_check1 s =
     Some (if locked (lock_word m s) \<noteq> 0 then unlocked i m k s
           else go i (In_unlock (U_delay HTLL_SPIN_TRIES_UNLOCK) m k) s)"
| "unlock_step e i m k (U_delay n) s =
     Some (case delay_ticks_step n of
             None \<Rightarrow> go i (In_unlock U_check2 m k) s
           | Some n' \<Rightarrow> go i (In_unlock (U_delay n') m k) s)"
| "unlock_step e i m k U_check2 s =
     Some (if locked (lock_word m s) = LOCKED then unlocked i m k s
           else go i (In_unlock U_clear m k) s)"
| "unlock_step e i m k U_clear s =
     Some (go i (In_unlock U_wload m k)
            (put_word m (set_contended UNCONTENDED (lock_word m s)) s))"
| "unlock_step e i m k U_wload s =
     Some (upd_thr i (\<lambda>t. t\<lparr>cw_reg := cnt_wake (mtx s m), pc := In_unlock U_wstore m k\<rparr>) s)"
| "unlock_step e i m k U_wstore s =
     Some (go i (In_unlock U_wake m k)
            (upd_mtx m (\<lambda>x. x\<lparr>cnt_wake := cw_reg (thr s i) + 1\<rparr>) s))"
| "unlock_step e i m k U_wake s =
     map_option (unlocked i m k) (futex_wake1 (Mutex_word m) (wake e) s)"

section \<open>Condition variables\<close>

text \<open>
  The conversion of an absolute deadline; the clock is \<open>gettimeofday\<close>: seconds, microseconds. All
  values are \<open>long\<close>s: \<open>long\<close> takes the exact result of an operation to the 64-bit value the
  machine computes. (C leaves an overflow undefined; when there is none is
  \<open>relative_timeout_exact\<close>.)
\<close>

definition long :: "int \<Rightarrow> int" where
  "long x = (x + 2 ^ 63) mod 2 ^ 64 - 2 ^ 63"

definition relative_timeout :: "timespec \<Rightarrow> int \<times> int \<Rightarrow> timespec" where
  "relative_timeout ts tv =
     (let sec = long (fst ts - fst tv); nsec = long (snd ts - long (snd tv * 1000))
      in if nsec < 0 then (long (sec - 1), long (nsec + 1000000000)) else (sec, nsec))"

fun wait_step :: "ext \<Rightarrow> tid \<Rightarrow> caddr \<Rightarrow> maddr \<Rightarrow> deadline \<Rightarrow> wait_pc \<Rightarrow> sys \<Rightarrow> sys option" where
  "wait_step e i c m d W_seq s =
     Some (upd_thr i (\<lambda>t. t\<lparr>seqv := c_seq (cnd s c), wret := 0, pc := In_wait W_test c m d\<rparr>) s)"
| "wait_step e i c m d W_test s =
     Some (if c_m (cnd s c) \<noteq> Some m then go i (In_wait W_test2 c m d) s
           else go i (In_unlock U_load m (From_wait c d)) s)"
| "wait_step e i c m d W_test2 s =
     Some (if c_m (cnd s c) \<noteq> None then return i EINVAL s else go i (In_wait W_cas c m d) s)"
| "wait_step e i c m d W_cas s =
     Some (go i (In_wait W_test3 c m d)
            (if c_m (cnd s c) = None then upd_cnd c (\<lambda>x. x\<lparr>c_m := Some m\<rparr>) s else s))"
| "wait_step e i c m d W_test3 s =
     Some (if c_m (cnd s c) \<noteq> Some m then return i EINVAL s
           else go i (In_unlock U_load m (From_wait c d)) s)"
| "wait_step e i c m d W_clock1 s =
     (case d of
        None \<Rightarrow> None
      | Some ts \<Rightarrow>
          let rt = relative_timeout ts (clock e)
          in Some (if fst rt < 0
                   then upd_thr i (\<lambda>t. t\<lparr>wret := ETIMEDOUT, pc := In_wait W_relock c m d\<rparr>) s
                   else upd_thr i (\<lambda>t. t\<lparr>relt := rt, pc := In_wait W_futex c m d\<rparr>) s))"
| "wait_step e i c m d W_futex s =
     Some (if c_seq (cnd s c) = seqv (thr s i) \<and> (d = None \<or> timespec_valid (relt (thr s i)))
           then go i (In_wait W_sleep c m d) s else go i (after_cond_futex c m d) s)"
| "wait_step e i c m d W_sleep s = None"
| "wait_step e i c m d (W_requeued q) s = None"
| "wait_step e i c m d W_clock2 s =
     (case d of
        None \<Rightarrow> None
      | Some ts \<Rightarrow>
          let rt = relative_timeout ts (clock e)
          in Some (if fst rt < 0
                   then upd_thr i (\<lambda>t. t\<lparr>wret := ETIMEDOUT, pc := In_wait W_relock c m d\<rparr>) s
                   else go i (In_wait W_relock c m d) s))"
| "wait_step e i c m d W_relock s =
     Some (swap32_or i m (wret (thr s i)) (go i (In_wait W_mwait c m d)) s)"
| "wait_step e i c m d W_mwait s =
     (case segment_timeout (local (thr s i)) of
        None \<Rightarrow> Some (go i (Faulted (Segment_out_of_bounds (cur_segment_id (local (thr s i))))) s)
      | Some ts \<Rightarrow>
          Some (if timespec_valid ts \<and> lock_word m s = 257
                then go i (In_wait W_msleep c m d) s else go i (In_wait W_mwoken c m d) s))"
| "wait_step e i c m d W_msleep s = None"
| "wait_step e i c m d W_mwoken s =
     (case mark_waiter (local (thr s i)) of
        Inl f \<Rightarrow> Some (go i (Faulted f) s)
      | Inr l \<Rightarrow> Some (upd_thr i (\<lambda>t. t\<lparr>local := l, pc := In_wait W_relock c m d\<rparr>) s))"

fun signal_step :: "ext \<Rightarrow> tid \<Rightarrow> bool \<Rightarrow> caddr \<Rightarrow> sys \<Rightarrow> sys option" where
  "signal_step e i False c s =
     Some (go i (In_signal True c) (upd_cnd c (\<lambda>x. x\<lparr>c_seq := c_seq x + 1\<rparr>) s))"
| "signal_step e i True c s = map_option (return i 0) (futex_wake1 (Cond_seq c) (wake e) s)"

fun broadcast_step :: "ext \<Rightarrow> tid \<Rightarrow> maddr option \<Rightarrow> bool \<Rightarrow> caddr \<Rightarrow> sys \<Rightarrow> sys option" where
  "broadcast_step e i None b c s =
     Some (case c_m (cnd s c) of
             None \<Rightarrow> return i 0 s
           | Some m \<Rightarrow> go i (In_bcast (Some m) False c) s)"
| "broadcast_step e i (Some m) False c s =
     Some (go i (In_bcast (Some m) True c) (upd_cnd c (\<lambda>x. x\<lparr>c_seq := c_seq x + 1\<rparr>) s))"
| "broadcast_step e i (Some m) True c s =
     map_option (return i 0) (futex_requeue c m (wake e) s)"

section \<open>The machine\<close>

definition thread_step :: "ext \<Rightarrow> tid \<Rightarrow> sys \<Rightarrow> sys option" where
  "thread_step e i s =
     (case pc (thr s i) of
        Idle \<Rightarrow> None
      | Faulted f \<Rightarrow> None
      | In_lock p m \<Rightarrow> lock_step e i m p s
      | In_trylock m \<Rightarrow> trylock_step i m s
      | In_unlock p m k \<Rightarrow> unlock_step e i m k p s
      | In_wait p c m d \<Rightarrow> wait_step e i c m d p s
      | In_signal b c \<Rightarrow> signal_step e i b c s
      | In_bcast q b c \<Rightarrow> broadcast_step e i q b c s)"

text \<open>The calls a thread can make; the segment calls touch only its own thread-local state.\<close>

datatype op = Lock maddr | Trylock maddr | Unlock maddr
  | Cond_wait caddr maddr | Cond_timedwait caddr maddr timespec
  | Cond_signal caddr | Cond_broadcast caddr
  | Seg_start int u64 | Seg_end int u64 u64

definition seg_call :: "tid \<Rightarrow> (tls \<Rightarrow> fault + int \<times> tls) \<Rightarrow> sys \<Rightarrow> sys" where
  "seg_call i f s =
     (case f (local (thr s i)) of
        Inl x \<Rightarrow> go i (Faulted x) s
      | Inr (r, l) \<Rightarrow> return i r (upd_thr i (\<lambda>t. t\<lparr>local := l\<rparr>) s))"

fun call :: "tid \<Rightarrow> op \<Rightarrow> sys \<Rightarrow> sys" where
  "call i (Lock m) s = lock_enter i m s"
| "call i (Trylock m) s = go i (In_trylock m) s"
| "call i (Unlock m) s = go i (In_unlock U_load m From_api) s"
| "call i (Cond_wait c m) s = go i (In_wait W_seq c m None) s"
| "call i (Cond_timedwait c m ts) s = go i (In_wait W_seq c m (Some ts)) s"
| "call i (Cond_signal c) s = go i (In_signal False c) s"
| "call i (Cond_broadcast c) s = go i (In_bcast None False c) s"
| "call i (Seg_start n now) s = seg_call i (segment_start n now) s"
| "call i (Seg_end n lat now) s = seg_call i (segment_end n lat now) s"

text \<open>
  The contract of the callers: only the thread that holds a mutex unlocks it or waits with
  it. (POSIX leaves anything else undefined, and so does the code.)
\<close>

fun disciplined :: "tid \<Rightarrow> op \<Rightarrow> sys \<Rightarrow> bool" where
  "disciplined i (Unlock m) s \<longleftrightarrow> m \<in> held (thr s i)"
| "disciplined i (Cond_wait c m) s \<longleftrightarrow> m \<in> held (thr s i)"
| "disciplined i (Cond_timedwait c m ts) s \<longleftrightarrow> m \<in> held (thr s i)"
| "disciplined i _ s \<longleftrightarrow> True"

inductive sys_step :: "(tid \<Rightarrow> op \<Rightarrow> sys \<Rightarrow> bool) \<Rightarrow> sys \<Rightarrow> sys \<Rightarrow> bool" for ok where
  calls: "i < nthreads s \<Longrightarrow> pc (thr s i) = Idle \<Longrightarrow> disciplined i x s \<Longrightarrow> ok i x s \<Longrightarrow>
     sys_step ok s (call i x s)"
| runs: "i < nthreads s \<Longrightarrow> thread_step e i s = Some s' \<Longrightarrow> sys_step ok s s'"
| unblocks: "i < nthreads s \<Longrightarrow> sleeping_on (pc (thr s i)) \<noteq> None \<Longrightarrow> sys_step ok s (awaken i s)"

text \<open>
  An initial state: all mutexes created, all condition variables initialised, \<open>n\<close> threads
  outside any call with a well-formed thread-local block. \<open>init_sys n\<close> is the one in which
  every thread has run \<open>htll_thread_start\<close> (the main thread of the library has not).
\<close>

definition initial :: "nat \<Rightarrow> sys \<Rightarrow> bool" where
  "initial n s \<longleftrightarrow> nthreads s = n \<and> mtx s = (\<lambda>_. htll_mutex_create) \<and>
     cnd s = (\<lambda>_. snd (upmutex_cond1_init \<lparr>c_m = None, c_seq = 0\<rparr>)) \<and>
     (\<forall>i<n. pc (thr s i) = Idle \<and> held (thr s i) = {} \<and> tls_ok (local (thr s i)))"

definition init_thread :: thread where
  "init_thread = \<lparr>pc = Idle, ret = 0, spin_ticks = 0, sleep_time = None, lflag = 0, stamp = 0,
     seqv = 0, relt = (0, 0), wret = 0, cw_reg = 0, local = htll_thread_start fresh_tls, held = {}\<rparr>"

definition init_sys :: "nat \<Rightarrow> sys" where
  "init_sys n = \<lparr>nthreads = n, mtx = (\<lambda>_. htll_mutex_create),
     cnd = (\<lambda>_. snd (upmutex_cond1_init \<lparr>c_m = None, c_seq = 0\<rparr>)), thr = (\<lambda>_. init_thread)\<rparr>"

lemma initial_init_sys: "initial n (init_sys n)"
  by (simp add: initial_def init_sys_def init_thread_def htll_thread_start_ok tls_ok_fresh)

definition reachable :: "nat \<Rightarrow> sys \<Rightarrow> bool" where
  "reachable n = reach (initial n) (sys_step (\<lambda>_ _ _. True))"

section \<open>Executable runs\<close>

text \<open>A schedule is a list of events; running it computes the state it leads to.\<close>

datatype event = Calls tid op | Runs tid ext | Unblocks tid

definition run_event :: "(tid \<Rightarrow> op \<Rightarrow> sys \<Rightarrow> bool) \<Rightarrow> event \<Rightarrow> sys \<Rightarrow> sys option" where
  "run_event ok ev s =
     (case ev of
        Calls i x \<Rightarrow>
          if i < nthreads s \<and> pc (thr s i) = Idle \<and> disciplined i x s \<and> ok i x s
          then Some (call i x s) else None
      | Runs i e \<Rightarrow> if i < nthreads s then thread_step e i s else None
      | Unblocks i \<Rightarrow>
          if i < nthreads s \<and> sleeping_on (pc (thr s i)) \<noteq> None then Some (awaken i s) else None)"

abbreviation run_events :: "(tid \<Rightarrow> op \<Rightarrow> sys \<Rightarrow> bool) \<Rightarrow> event list \<Rightarrow> sys \<Rightarrow> sys option" where
  "run_events ok \<equiv> exec_all (run_event ok)"

lemma run_event_exI:
  "i < nthreads s \<Longrightarrow> pc (thr s i) = Idle \<Longrightarrow> disciplined i x s \<Longrightarrow> ok i x s \<Longrightarrow>
   \<exists>ev. run_event ok ev s = Some (call i x s)"
  "i < nthreads s \<Longrightarrow> thread_step e i s = Some s' \<Longrightarrow> \<exists>ev. run_event ok ev s = Some s'"
  "i < nthreads s \<Longrightarrow> sleeping_on (pc (thr s i)) \<noteq> None \<Longrightarrow>
   \<exists>ev. run_event ok ev s = Some (awaken i s)"
  by (rule exI [of _ "Calls i x"], simp add: run_event_def)
    (rule exI [of _ "Runs i e"], simp add: run_event_def,
     rule exI [of _ "Unblocks i"], simp add: run_event_def)

lemma run_event_step: "run_event ok ev s = Some s' \<Longrightarrow> sys_step ok s s'"
  by (auto simp: run_event_def split: event.splits if_splits intro: sys_step.intros)

lemma run_event_iff: "sys_step ok s s' \<longleftrightarrow> (\<exists>ev. run_event ok ev s = Some s')"
proof
  show "\<exists>ev. run_event ok ev s = Some s'" if "sys_step ok s s'"
    using that by cases (simp_all only:, (rule run_event_exI; assumption)+)
qed (blast intro: run_event_step)

interpretation machine: event_system "run_event ok" "sys_step ok" for ok
  by unfold_locales (rule run_event_iff)

lemmas run_events_reach = machine.run_reach

lemma run_events_reachable:
  "run_events (\<lambda>_ _ _. True) evs (init_sys n) = Some s' \<Longrightarrow> reachable n s'"
  unfolding reachable_def by (erule run_events_reach) (rule reach_init, rule initial_init_sys)

lemmas run_events_append = exec_all_append [where exec = "run_event ok" for ok]

text \<open>The environment of a step in which nothing depends on it.\<close>

definition quiet :: ext where
  "quiet = \<lparr>ticks = 0, clock = (0, 0), wake = None\<rparr>"

text \<open>The facts that evaluate a schedule.\<close>

lemmas run_defs = run_event_def thread_step_def lock_enter_def swap8_or_def swap32_or_def
  acquired_def trylock_step_def unlocked_def seg_call_def upd_defs init_sys_def init_thread_def
  htll_swap_uint8_def htll_swap_uint32_def sync_cas32_def awaken_def quiet_def

end
