(* ===== verification/MutexSafety.thy ===== *)
theory MutexSafety
  imports Machine
begin

text \<open>
  Mutual exclusion of the HTLL mutex. The argument about one lock word and its set of
  owners is made once, in a locale over the laws of the word's operations, and interpreted
  on the exchange operations of \<open>LockWord\<close>; the machine's invariant is that argument for
  every mutex plus what the positions of the threads say they own.
\<close>

section \<open>One lock word and its owners\<close>

definition owned :: "('w \<Rightarrow> bool) \<Rightarrow> ('w \<Rightarrow> bool) \<Rightarrow> 'w \<Rightarrow> 'i set \<Rightarrow> bool" where
  "owned well is_locked w H \<longleftrightarrow>
     well w \<and> (is_locked w \<longleftrightarrow> H \<noteq> {}) \<and> (\<forall>i \<in> H. \<forall>j \<in> H. i = j)"

locale atomic_lock =
  fixes well :: "'w \<Rightarrow> bool"
    and is_locked :: "'w \<Rightarrow> bool"
    and try_take :: "'w \<Rightarrow> 'w \<times> bool"
    and release :: "'w \<Rightarrow> 'w"
    and clear :: "'w \<Rightarrow> 'w"
  assumes well_take: "well w \<Longrightarrow> well (fst (try_take w))"
    and take_locks: "well w \<Longrightarrow> is_locked (fst (try_take w))"
    and take_result: "well w \<Longrightarrow> snd (try_take w) \<longleftrightarrow> \<not> is_locked w"
    and well_release: "well w \<Longrightarrow> well (release w)"
    and release_unlocks: "well w \<Longrightarrow> \<not> is_locked (release w)"
    and well_clear: "well w \<Longrightarrow> well (clear w)"
    and clear_locked: "well w \<Longrightarrow> is_locked (clear w) = is_locked w"
begin

lemma owned_take:
  "owned well is_locked w H \<Longrightarrow> snd (try_take w) \<Longrightarrow>
   owned well is_locked (fst (try_take w)) (insert i H)"
  by (auto simp: owned_def well_take take_locks take_result)

lemma owned_busy:
  "owned well is_locked w H \<Longrightarrow> \<not> snd (try_take w) \<Longrightarrow>
   owned well is_locked (fst (try_take w)) H"
  by (auto simp: owned_def well_take take_locks take_result)

lemma owned_release:
  "owned well is_locked w H \<Longrightarrow> i \<in> H \<Longrightarrow> owned well is_locked (release w) (H - {i})"
  by (auto simp: owned_def well_release release_unlocks)

lemma owned_clear:
  "owned well is_locked w H \<Longrightarrow> owned well is_locked (clear w) H"
  by (auto simp: owned_def well_clear clear_locked)

end

abbreviation word_locked :: "u32 \<Rightarrow> bool" where
  "word_locked u \<equiv> locked u \<noteq> 0"

text \<open>The byte exchange and the 32-bit exchange both take the lock.\<close>

definition take8 :: "u32 \<Rightarrow> u32 \<times> bool" where
  "take8 u = (let (u', old) = htll_swap_uint8 u LOCKED in (u', old = UNLOCKED))"

definition take32 :: "u32 \<Rightarrow> u32 \<times> bool" where
  "take32 u = (let (u', old) = htll_swap_uint32 u LOCKED_AND_CONTENDED
               in (u', old AND ucast LOCKED = ucast UNLOCKED))"

interpretation byte_lock: atomic_lock lw_ok word_locked take8 "set_locked UNLOCKED"
  "set_contended UNCONTENDED"
  by unfold_locales
    (simp_all add: take8_def htll_swap_uint8_def lw_ok_swap8 lw_ok_release lw_ok_clear lock_consts)

interpretation word_lock: atomic_lock lw_ok word_locked take32 "set_locked UNLOCKED"
  "set_contended UNCONTENDED"
  by unfold_locales
    (simp_all add: take32_def htll_swap_uint32_def lw_ok_release lw_ok_clear locked_bit0
      LOCKED_AND_CONTENDED_def,
     simp_all add: lock_consts lw_ok_release lw_ok_clear)

text \<open>The successful compare-and-swap of the fast unlock is a release.\<close>

lemma cas_release: "set_locked UNLOCKED 1 = 0"
  by (simp add: set_locked_def lock_consts)

section \<open>The invariant of the machine\<close>

definition owners :: "maddr \<Rightarrow> sys \<Rightarrow> tid set" where
  "owners m s = {i. i < nthreads s \<and> m \<in> held (thr s i)}"

text \<open>The positions at which a thread owns the mutex it works on.\<close>

fun must_hold :: "pc \<Rightarrow> maddr option" where
  "must_hold (In_unlock p m k) =
     (case p of U_load \<Rightarrow> Some m | U_cas \<Rightarrow> Some m | U_count \<Rightarrow> Some m | U_adjust \<Rightarrow> Some m
      | U_adjust2 \<Rightarrow> Some m | U_tload d \<Rightarrow> Some m | U_tstore v \<Rightarrow> Some m | U_reset \<Rightarrow> Some m
      | U_store \<Rightarrow> Some m | _ \<Rightarrow> None)"
| "must_hold (In_wait p c m d) =
     (case p of W_seq \<Rightarrow> Some m | W_test \<Rightarrow> Some m | W_test2 \<Rightarrow> Some m | W_cas \<Rightarrow> Some m
      | W_test3 \<Rightarrow> Some m | _ \<Rightarrow> None)"
| "must_hold _ = None"

definition thread_inv :: "thread \<Rightarrow> bool" where
  "thread_inv t \<longleftrightarrow> (\<forall>m. must_hold (pc t) = Some m \<longrightarrow> m \<in> held t)"

definition word_inv :: "sys \<Rightarrow> bool" where
  "word_inv s \<longleftrightarrow> (\<forall>m. owned lw_ok word_locked (lock_word m s) (owners m s))"

definition mutex_inv :: "sys \<Rightarrow> bool" where
  "mutex_inv s \<longleftrightarrow> word_inv s \<and> (\<forall>i<nthreads s. thread_inv (thr s i))"

subsection \<open>What the updates leave alone\<close>

lemma upd_thr_simps [simp]:
  "nthreads (upd_thr i f s) = nthreads s" "mtx (upd_thr i f s) = mtx s"
  "cnd (upd_thr i f s) = cnd s" "lock_word m (upd_thr i f s) = lock_word m s"
  "thr (upd_thr i f s) j = (if j = i then f (thr s i) else thr s j)"
  by (simp_all add: upd_defs)

lemma go_simps [simp]:
  "nthreads (go i p s) = nthreads s" "mtx (go i p s) = mtx s" "cnd (go i p s) = cnd s"
  "lock_word m (go i p s) = lock_word m s"
  "thr (go i p s) j = (if j = i then (thr s i)\<lparr>pc := p\<rparr> else thr s j)"
  by (simp_all add: upd_defs)

lemma return_simps [simp]:
  "nthreads (return i r s) = nthreads s" "mtx (return i r s) = mtx s" "cnd (return i r s) = cnd s"
  "lock_word m (return i r s) = lock_word m s"
  "thr (return i r s) j = (if j = i then (thr s i)\<lparr>pc := Idle, ret := r\<rparr> else thr s j)"
  by (simp_all add: upd_defs)

lemma upd_mtx_simps [simp]:
  "nthreads (upd_mtx m f s) = nthreads s" "thr (upd_mtx m f s) = thr s" "cnd (upd_mtx m f s) = cnd s"
  "mtx (upd_mtx m f s) m' = (if m' = m then f (mtx s m) else mtx s m')"
  by (simp_all add: upd_defs)

lemma upd_cnd_simps [simp]:
  "nthreads (upd_cnd c f s) = nthreads s" "thr (upd_cnd c f s) = thr s" "mtx (upd_cnd c f s) = mtx s"
  "cnd (upd_cnd c f s) c' = (if c' = c then f (cnd s c) else cnd s c')"
  "lock_word m (upd_cnd c f s) = lock_word m s"
  by (simp_all add: upd_defs)

lemma put_word_simps [simp]:
  "nthreads (put_word m u s) = nthreads s" "thr (put_word m u s) = thr s"
  "cnd (put_word m u s) = cnd s"
  "lock_word m' (put_word m u s) = (if m' = m then u else lock_word m' s)"
  by (simp_all add: upd_defs)

lemma lock_word_upd_mtx [simp]:
  "lock_word m' (upd_mtx m f s) = (if m' = m then l_u (f (mtx s m)) else lock_word m' s)"
  by (simp add: upd_defs)

lemma take_lock_simps [simp]:
  "nthreads (take_lock i m s) = nthreads s" "mtx (take_lock i m s) = mtx s"
  "cnd (take_lock i m s) = cnd s" "lock_word m' (take_lock i m s) = lock_word m' s"
  "thr (take_lock i m s) j =
     (if j = i then (thr s i)\<lparr>held := insert m (held (thr s i))\<rparr> else thr s j)"
  by (simp_all add: upd_defs)

lemma drop_lock_simps [simp]:
  "nthreads (drop_lock i m s) = nthreads s" "mtx (drop_lock i m s) = mtx s"
  "cnd (drop_lock i m s) = cnd s" "lock_word m' (drop_lock i m s) = lock_word m' s"
  "thr (drop_lock i m s) j =
     (if j = i then (thr s i)\<lparr>held := held (thr s i) - {m}\<rparr> else thr s j)"
  by (simp_all add: upd_defs)

lemma awaken_simps [simp]:
  "nthreads (awaken i s) = nthreads s" "mtx (awaken i s) = mtx s" "cnd (awaken i s) = cnd s"
  "lock_word m (awaken i s) = lock_word m s"
  "thr (awaken i s) j = (if j = i then (thr s i)\<lparr>pc := awake (pc (thr s i))\<rparr> else thr s j)"
  by (simp_all add: awaken_def)

text \<open>The kernel calls move other threads only from one sleeping position to another or out of sleep.\<close>

lemma must_hold_awake: "sleeping_on p \<noteq> None \<Longrightarrow> must_hold (awake p) = None"
  by (cases p rule: awake.cases) (simp_all add: after_cond_futex_def split: option.splits)

lemma must_hold_requeue [simp]: "must_hold (requeue_pc c q p) = must_hold p"
  by (cases "(c, q, p)" rule: requeue_pc.cases) simp_all

text \<open>What a kernel call can do to a thread that did not make it.\<close>

definition woken :: "thread \<Rightarrow> thread \<Rightarrow> bool" where
  "woken t t' \<longleftrightarrow> t' = t \<or> sleeping_on (pc t) \<noteq> None \<and> t' = t\<lparr>pc := awake (pc t)\<rparr>"

definition moved :: "thread \<Rightarrow> thread \<Rightarrow> bool" where
  "moved t t' \<longleftrightarrow> woken t t' \<or> (\<exists>c q. t' = t\<lparr>pc := requeue_pc c q (pc t)\<rparr>)"

definition only_moves :: "sys \<Rightarrow> sys \<Rightarrow> bool" where
  "only_moves s s' \<longleftrightarrow> nthreads s' = nthreads s \<and> mtx s' = mtx s \<and> cnd s' = cnd s \<and>
     (\<forall>j. moved (thr s j) (thr s' j))"

lemma moved_refl [simp]: "moved t t"
  by (simp add: moved_def woken_def)

lemma moved_keeps:
  assumes "moved t t'"
  shows "held t' = held t" "local t' = local t" "must_hold (pc t') = must_hold (pc t)"
    "thread_inv t' = thread_inv t"
proof -
  have "must_hold p = None" if "sleeping_on p \<noteq> None" for p
    using that by (cases p rule: sleeping_on.cases) simp_all
  then show m: "must_hold (pc t') = must_hold (pc t)"
    using assms by (auto simp: moved_def woken_def must_hold_awake)
  show h: "held t' = held t" "local t' = local t" using assms by (auto simp: moved_def woken_def)
  show "thread_inv t' = thread_inv t" by (simp add: thread_inv_def m h)
qed

lemma moved_busy:
  assumes "moved t t'" and "sleeping_on (pc t) = None"
  shows "t' = t"
proof -
  have "requeue_pc c q p = p" if "sleeping_on p = None" for c q p
    using that by (cases "(c, q, p)" rule: requeue_pc.cases) auto
  with assms show ?thesis by (auto simp: moved_def woken_def)
qed

lemma only_moves_refl [simp]: "only_moves s s"
  by (simp add: only_moves_def)

lemma only_moves_awaken: "sleeping_on (pc (thr s j)) \<noteq> None \<Longrightarrow> only_moves s (awaken j s)"
  by (simp add: only_moves_def) (auto simp: moved_def woken_def)

lemma futex_wake1_cases:
  assumes "futex_wake1 a w s = Some s'"
  obtains "w = None" "sleepers a s = []" "s' = s"
  | j where "w = Some j" "j < nthreads s" "sleeping_on (pc (thr s j)) = Some a" "s' = awaken j s"
  using assms by (auto simp: futex_wake1_def sleepers_def split: option.splits if_splits)

lemma futex_wake1_moves: "futex_wake1 a w s = Some s' \<Longrightarrow> only_moves s s'"
  by (auto elim!: futex_wake1_cases intro: only_moves_awaken)

lemma requeue_awake:
  "sleeping_on p \<noteq> None \<Longrightarrow> requeue_pc c q (awake p) = awake p"
  by (cases p rule: awake.cases) (simp_all add: after_cond_futex_def split: option.splits)

lemma futex_wake1_woken: "futex_wake1 a w s = Some s' \<Longrightarrow> woken (thr s j) (thr s' j)"
  by (auto elim!: futex_wake1_cases simp: woken_def split: if_splits)

lemma futex_requeue_moved:
  assumes "futex_requeue c q w s = Some s'"
  shows "woken (thr s j) (thr s' j) \<or> thr s' j = (thr s j)\<lparr>pc := requeue_pc c q (pc (thr s j))\<rparr>"
proof -
  from assms obtain s1 where s1: "futex_wake1 (Cond_seq c) w s = Some s1"
    and s': "s' = s1\<lparr>thr := (\<lambda>j. if j < nthreads s1
                then thr s1 j\<lparr>pc := requeue_pc c q (pc (thr s1 j))\<rparr> else thr s1 j)\<rparr>"
    by (auto simp: futex_requeue_def)
  from futex_wake1_woken [OF s1, of j] show ?thesis
    by (auto simp: s' woken_def requeue_awake)
qed

lemma futex_requeue_moves:
  assumes "futex_requeue c q w s = Some s'"
  shows "only_moves s s'"
proof -
  from assms obtain s1 where s1: "futex_wake1 (Cond_seq c) w s = Some s1"
    and s': "s' = s1\<lparr>thr := (\<lambda>j. if j < nthreads s1
                then thr s1 j\<lparr>pc := requeue_pc c q (pc (thr s1 j))\<rparr> else thr s1 j)\<rparr>"
    by (auto simp: futex_requeue_def)
  from futex_wake1_moves [OF s1]
  have "nthreads s' = nthreads s" "mtx s' = mtx s" "cnd s' = cnd s"
    by (simp_all add: s' only_moves_def)
  moreover have "moved (thr s j) (thr s' j)" for j
    using futex_requeue_moved [OF assms, of j] by (auto simp: moved_def)
  ultimately show ?thesis by (simp add: only_moves_def)
qed

subsection \<open>Owners\<close>

lemma owners_simps [simp]:
  "owners m (go i p s) = owners m s" "owners m (return i r s) = owners m s"
  "owners m (upd_mtx m' f s) = owners m s" "owners m (upd_cnd c g s) = owners m s"
  "owners m (put_word m' u s) = owners m s"
  by (auto simp: owners_def)

lemma owners_upd_thr [simp]: "held (f (thr s i)) = held (thr s i) \<Longrightarrow> owners m (upd_thr i f s) = owners m s"
  by (auto simp: owners_def)

lemma owners_take_lock [simp]:
  "i < nthreads s \<Longrightarrow>
   owners m' (take_lock i m s) = (if m' = m then insert i (owners m s) else owners m' s)"
  by (auto simp: owners_def)

lemma owners_drop_lock [simp]:
  "owners m' (drop_lock i m s) = (if m' = m then owners m s - {i} else owners m' s)"
  by (auto simp: owners_def split: if_splits)

lemma owners_moves: "only_moves s s' \<Longrightarrow> owners m s' = owners m s"
proof -
  assume m: "only_moves s s'"
  then have "held (thr s' j) = held (thr s j)" for j
    by (intro moved_keeps(1)) (simp add: only_moves_def)
  with m show ?thesis by (simp add: owners_def only_moves_def)
qed

lemma lock_word_moves: "only_moves s s' \<Longrightarrow> lock_word m s' = lock_word m s"
  by (simp add: only_moves_def lock_word_def)

lemma word_inv_cong:
  "(\<And>m. lock_word m s' = lock_word m s) \<Longrightarrow> (\<And>m. owners m s' = owners m s) \<Longrightarrow>
   word_inv s' = word_inv s"
  by (simp add: word_inv_def)

lemma word_inv_moves: "only_moves s s' \<Longrightarrow> word_inv s' = word_inv s"
  by (intro word_inv_cong lock_word_moves owners_moves)

lemma word_inv_simps [simp]:
  "word_inv (go i p s) = word_inv s" "word_inv (return i r s) = word_inv s"
  "word_inv (upd_cnd c g s) = word_inv s"
  by (rule word_inv_cong; simp)+

lemma word_inv_upd_thr [simp]:
  "held (f (thr s i)) = held (thr s i) \<Longrightarrow> word_inv (upd_thr i f s) = word_inv s"
  by (rule word_inv_cong; simp)

lemma word_inv_upd_mtx [simp]:
  "l_u (f (mtx s m)) = l_u (mtx s m) \<Longrightarrow> word_inv (upd_mtx m f s) = word_inv s"
  by (rule word_inv_cong) (auto simp: lock_word_def)

lemma word_inv_unlocked [simp]: "word_inv (unlocked i m k s) = word_inv s"
  by (simp add: unlocked_def split: caller.split)

text \<open>A step that changes one word and its owners.\<close>

lemma word_inv_one:
  assumes "word_inv s" and "nthreads s' = nthreads s"
    and "\<And>m'. m' \<noteq> m \<Longrightarrow> lock_word m' s' = lock_word m' s \<and> owners m' s' = owners m' s"
    and "owned lw_ok word_locked (lock_word m s') (owners m s')"
  shows "word_inv s'"
  using assms by (metis word_inv_def)

lemma word_inv_at: "word_inv s \<Longrightarrow> owned lw_ok word_locked (lock_word m s) (owners m s)"
  by (simp add: word_inv_def)

lemma swap8_or_eq:
  "swap8_or i m fail s =
     (let u = take8 (lock_word m s); s' = put_word m (fst u) s
      in if snd u then acquired i m 0 s' else fail s')"
  by (simp add: swap8_or_def take8_def htll_swap_uint8_def)

lemma swap32_or_eq:
  "swap32_or i m r fail s =
     (let u = take32 (lock_word m s); s' = put_word m (fst u) s
      in if snd u then acquired i m r s' else fail s')"
  by (simp add: swap32_or_def take32_def htll_swap_uint32_def)

context atomic_lock
begin

lemma owned_try:
  assumes "owned well is_locked w H"
  shows "owned well is_locked (fst (try_take w)) (if snd (try_take w) then insert i H else H)"
  using owned_take [OF assms] owned_busy [OF assms] by simp

end

lemma word_inv_taken:
  assumes "word_inv s" and "i < nthreads s"
    and "owned lw_ok word_locked u (insert i (owners m s))"
  shows "word_inv (acquired i m r (put_word m u s))"
  by (rule word_inv_one [OF assms(1), of _ m]) (use assms in \<open>simp_all add: acquired_def\<close>)

lemma word_inv_busy:
  assumes "word_inv s" and "owned lw_ok word_locked u (owners m s)"
  shows "word_inv (put_word m u s)"
  by (rule word_inv_one [OF assms(1), of _ m]) (use assms in simp_all)

lemma word_inv_try:
  assumes "word_inv s" and "i < nthreads s"
    and "owned lw_ok word_locked (fst u) (if snd u then insert i (owners m s) else owners m s)"
    and "\<And>s. word_inv (fail s) = word_inv s"
  shows "word_inv (let s' = put_word m (fst u) s in if snd u then acquired i m r s' else fail s')"
proof (cases "snd u")
  case True
  with assms word_inv_taken [OF assms(1,2)] show ?thesis by (simp add: Let_def)
next
  case False
  with word_inv_busy [OF assms(1)] assms(3) show ?thesis by (simp add: Let_def assms(4))
qed

lemma word_inv_swap8:
  assumes "word_inv s" and "i < nthreads s" and "\<And>s. word_inv (fail s) = word_inv s"
  shows "word_inv (swap8_or i m fail s)"
  unfolding swap8_or_eq Let_def [of "take8 _"]
  by (rule word_inv_try [OF assms(1,2) byte_lock.owned_try [OF word_inv_at [OF assms(1)]] assms(3)])

lemma word_inv_swap32:
  assumes "word_inv s" and "i < nthreads s" and "\<And>s. word_inv (fail s) = word_inv s"
  shows "word_inv (swap32_or i m r fail s)"
  unfolding swap32_or_eq Let_def [of "take32 _"]
  by (rule word_inv_try [OF assms(1,2) word_lock.owned_try [OF word_inv_at [OF assms(1)]] assms(3)])

lemma word_inv_released:
  assumes "word_inv s" and "i < nthreads s" and "m \<in> held (thr s i)"
  shows "word_inv (drop_lock i m (put_word m (set_locked UNLOCKED (lock_word m s)) s))"
proof (rule word_inv_one [OF assms(1), of _ m])
  have "i \<in> owners m s" using assms by (simp add: owners_def)
  then show "owned lw_ok word_locked
     (lock_word m (drop_lock i m (put_word m (set_locked UNLOCKED (lock_word m s)) s)))
     (owners m (drop_lock i m (put_word m (set_locked UNLOCKED (lock_word m s)) s)))"
    using byte_lock.owned_release [OF word_inv_at [OF assms(1), of m]] by simp
qed simp_all

lemma word_inv_cleared:
  assumes "word_inv s"
  shows "word_inv (put_word m (set_contended UNCONTENDED (lock_word m s)) s)"
  using assms byte_lock.owned_clear [OF word_inv_at [OF assms, of m]] by (rule word_inv_busy)

section \<open>Every step keeps the invariant\<close>

lemma lock_step_words:
  assumes "word_inv s" and "i < nthreads s" and "lock_step e i m p s = Some s'"
  shows "word_inv s'"
  using assms
  by (cases p) (auto simp: word_inv_swap8 word_inv_swap32 split: option.splits sum.splits)

lemma unlock_step_words:
  assumes "word_inv s" and "i < nthreads s"
    and "must_hold (In_unlock p m k) = Some m \<longrightarrow> m \<in> held (thr s i)"
    and "unlock_step e i m k p s = Some s'"
  shows "word_inv s'"
proof (cases p)
  case U_cas
  show ?thesis
  proof (cases "lock_word m s = 1")
    case True
    then have "word_inv (drop_lock i m (put_word m 0 s))"
      using word_inv_released [OF assms(1,2), of m] assms(3) U_cas cas_release by simp
    then show ?thesis using assms(4) U_cas True by (auto simp: sync_cas32_def)
  next
    case False
    then have "word_inv (put_word m (lock_word m s) s)"
      using word_inv_at [OF assms(1)] by (intro word_inv_busy [OF assms(1)])
    then show ?thesis using assms(4) U_cas False by (auto simp: sync_cas32_def)
  qed
next
  case U_store
  then show ?thesis using assms word_inv_released [OF assms(1,2), of m] by auto
next
  case U_clear
  then show ?thesis using assms word_inv_cleared [OF assms(1), of m] by auto
next
  case U_count
  then show ?thesis
    using assms l_u_count_unlock [of "mtx s m"] by (auto simp: case_prod_beta)
next
  case U_wake
  then show ?thesis using assms by (auto simp: word_inv_moves [OF futex_wake1_moves])
qed (use assms in \<open>auto split: option.splits\<close>)

lemma wait_step_words:
  assumes "word_inv s" and "i < nthreads s" and "wait_step e i c m d p s = Some s'"
  shows "word_inv s'"
  using assms
  by (cases p) (auto simp: word_inv_swap32 Let_def split: option.splits sum.splits if_splits)

lemma signal_step_words:
  "word_inv s \<Longrightarrow> signal_step e i b c s = Some s' \<Longrightarrow> word_inv s'"
  by (cases b) (auto simp: word_inv_moves [OF futex_wake1_moves])

lemma broadcast_step_words:
  "word_inv s \<Longrightarrow> broadcast_step e i q b c s = Some s' \<Longrightarrow> word_inv s'"
  by (cases "(e, i, q, b, c, s)" rule: broadcast_step.cases)
    (auto simp: word_inv_moves [OF futex_requeue_moves] split: option.splits)

lemma thread_step_words:
  assumes "mutex_inv s" and "i < nthreads s" and "thread_step e i s = Some s'"
  shows "word_inv s'"
  using assms
  by (auto simp: thread_step_def mutex_inv_def thread_inv_def trylock_step_def word_inv_swap8
      split: pc.splits
      elim: lock_step_words wait_step_words signal_step_words broadcast_step_words
        unlock_step_words [rotated 3])

lemma call_words: "word_inv s \<Longrightarrow> word_inv (call i x s)"
  by (cases x) (auto simp: lock_enter_def seg_call_def split: sum.splits)

text \<open>A step changes the thread that makes it; of the others it only moves sleepers.\<close>

lemma swap_or_thr:
  assumes "\<And>s. thr (fail s) j = thr s j" and "j \<noteq> i"
  shows "thr (swap8_or i m fail s) j = thr s j" "thr (swap32_or i m r fail s) j = thr s j"
  using assms by (simp_all add: swap8_or_eq swap32_or_eq Let_def acquired_def)

lemma swap_or_nthreads:
  assumes "\<And>s. nthreads (fail s) = nthreads s"
  shows "nthreads (swap8_or i m fail s) = nthreads s" "nthreads (swap32_or i m r fail s) = nthreads s"
  using assms by (simp_all add: swap8_or_eq swap32_or_eq Let_def acquired_def)

lemma unlocked_simps [simp]:
  "nthreads (unlocked i m k s) = nthreads s" "mtx (unlocked i m k s) = mtx s"
  "cnd (unlocked i m k s) = cnd s" "lock_word m' (unlocked i m k s) = lock_word m' s"
  "j \<noteq> i \<Longrightarrow> thr (unlocked i m k s) j = thr s j"
  "held (thr (unlocked i m k s) i) = held (thr s i)"
  by (simp_all add: unlocked_def split: caller.split)

lemma moves_thr: "only_moves s s' \<Longrightarrow> moved (thr s j) (thr s' j)"
  and moves_nthreads: "only_moves s s' \<Longrightarrow> nthreads s' = nthreads s"
  by (simp_all add: only_moves_def)

lemma lock_step_frame:
  assumes "lock_step e i m p s = Some s'"
  shows "nthreads s' = nthreads s" "j \<noteq> i \<Longrightarrow> thr s' j = thr s j"
  using assms
  by (cases p; auto simp: swap_or_thr swap_or_nthreads split: option.splits sum.splits if_splits)+

lemma unlock_step_frame:
  assumes "unlock_step e i m k p s = Some s'"
  shows "nthreads s' = nthreads s" "j \<noteq> i \<Longrightarrow> moved (thr s j) (thr s' j)"
  using assms
  by (cases p; auto simp: Let_def sync_cas32_def case_prod_beta
      split: option.splits if_splits dest: futex_wake1_moves moves_thr moves_nthreads)+

lemma wait_step_frame:
  assumes "wait_step e i c m d p s = Some s'"
  shows "nthreads s' = nthreads s" "j \<noteq> i \<Longrightarrow> thr s' j = thr s j"
  using assms
  by (cases p; auto simp: swap_or_thr swap_or_nthreads Let_def
      split: option.splits sum.splits if_splits)+

lemma signal_step_frame:
  assumes "signal_step e i b c s = Some s'"
  shows "nthreads s' = nthreads s" "j \<noteq> i \<Longrightarrow> moved (thr s j) (thr s' j)"
  using assms by (cases b; auto dest: futex_wake1_moves moves_thr moves_nthreads)+

lemma broadcast_step_frame:
  assumes "broadcast_step e i q b c s = Some s'"
  shows "nthreads s' = nthreads s" "j \<noteq> i \<Longrightarrow> moved (thr s j) (thr s' j)"
  using assms
  by (cases "(e, i, q, b, c, s)" rule: broadcast_step.cases;
      auto split: option.splits dest: futex_requeue_moves moves_thr moves_nthreads)+

lemma thread_step_frame:
  assumes "thread_step e i s = Some s'"
  shows "nthreads s' = nthreads s" "j \<noteq> i \<Longrightarrow> moved (thr s j) (thr s' j)"
  using assms
  by (auto simp: thread_step_def trylock_step_def swap_or_thr swap_or_nthreads lock_step_frame
      wait_step_frame unlock_step_frame signal_step_frame broadcast_step_frame split: pc.splits)

text \<open>More precisely: only a broadcast moves a sleeper to another queue.\<close>

lemma woken_refl [simp]: "woken t t"
  by (simp add: woken_def)

lemma unlock_step_others:
  "unlock_step e i m k p s = Some s' \<Longrightarrow> j \<noteq> i \<Longrightarrow> woken (thr s j) (thr s' j)"
  by (cases p) (auto simp: Let_def sync_cas32_def case_prod_beta
      split: option.splits if_splits dest: futex_wake1_woken)

lemma signal_step_others:
  "signal_step e i b c s = Some s' \<Longrightarrow> j \<noteq> i \<Longrightarrow> woken (thr s j) (thr s' j)"
  by (cases b) (auto dest: futex_wake1_woken)

lemma broadcast_step_others:
  assumes "broadcast_step e i q b c s = Some s'" and "j \<noteq> i"
  shows "woken (thr s j) (thr s' j) \<or>
     (\<exists>m. q = Some m \<and> b \<and> thr s' j = (thr s j)\<lparr>pc := requeue_pc c m (pc (thr s j))\<rparr>)"
  using assms futex_requeue_moved [of c "the q" "wake e" s _ j]
  by (cases "(e, i, q, b, c, s)" rule: broadcast_step.cases) (auto split: option.splits)

lemma thread_step_others:
  assumes "thread_step e i s = Some s'" and "j \<noteq> i"
  shows "woken (thr s j) (thr s' j) \<or>
     (\<exists>c q. pc (thr s i) = In_bcast (Some q) True c \<and>
        thr s' j = (thr s j)\<lparr>pc := requeue_pc c q (pc (thr s j))\<rparr>)"
  using assms
  by (cases "pc (thr s i)")
    (auto simp: thread_step_def trylock_step_def swap_or_thr lock_step_frame wait_step_frame
      dest: unlock_step_others signal_step_others broadcast_step_others)

text \<open>The thread that steps keeps what its position says it owns.\<close>

lemma thread_inv_free [simp]: "must_hold (pc t) = None \<Longrightarrow> thread_inv t"
  by (simp add: thread_inv_def)

lemma swap_or_thread_inv:
  assumes "\<And>s. thread_inv (thr (fail s) i)"
  shows "thread_inv (thr (swap8_or i m fail s) i)" "thread_inv (thr (swap32_or i m r fail s) i)"
  using assms by (simp_all add: swap8_or_eq swap32_or_eq Let_def acquired_def)

lemma unlocked_thread_inv [simp]: "thread_inv (thr (unlocked i m k s) i)"
  by (simp add: unlocked_def split: caller.split option.split)

lemma lock_step_thread_inv: "lock_step e i m p s = Some s' \<Longrightarrow> thread_inv (thr s' i)"
  by (cases p) (auto simp: swap_or_thread_inv split: option.splits sum.splits if_splits)

lemma unlock_step_thread_inv:
  "unlock_step e i m k p s = Some s' \<Longrightarrow> thread_inv (thr s i) \<Longrightarrow> pc (thr s i) = In_unlock p m k \<Longrightarrow>
   thread_inv (thr s' i)"
  by (cases p) (auto simp: thread_inv_def Let_def sync_cas32_def case_prod_beta unlocked_def
      split: option.splits if_splits caller.splits)

lemma wait_step_thread_inv:
  "wait_step e i c m d p s = Some s' \<Longrightarrow> thread_inv (thr s i) \<Longrightarrow> pc (thr s i) = In_wait p c m d \<Longrightarrow>
   thread_inv (thr s' i)"
  by (cases p) (auto simp: swap_or_thread_inv Let_def after_cond_futex_def
      split: option.splits sum.splits if_splits, auto simp: thread_inv_def)

lemma signal_step_thread_inv: "signal_step e i b c s = Some s' \<Longrightarrow> thread_inv (thr s' i)"
  by (cases b) auto

lemma broadcast_step_thread_inv: "broadcast_step e i q b c s = Some s' \<Longrightarrow> thread_inv (thr s' i)"
  by (cases "(e, i, q, b, c, s)" rule: broadcast_step.cases) (auto split: option.splits)

lemma thread_step_thread_inv:
  assumes "thread_step e i s = Some s'" and "thread_inv (thr s i)"
  shows "thread_inv (thr s' i)"
  using assms
  by (auto simp: thread_step_def trylock_step_def swap_or_thread_inv split: pc.splits
      intro: lock_step_thread_inv unlock_step_thread_inv wait_step_thread_inv
        signal_step_thread_inv broadcast_step_thread_inv)

lemma call_frame:
  "nthreads (call i x s) = nthreads s" "j \<noteq> i \<Longrightarrow> thr (call i x s) j = thr s j"
  by (cases x; simp add: lock_enter_def seg_call_def split: sum.split)+

lemma call_thread_inv: "disciplined i x s \<Longrightarrow> thread_inv (thr (call i x s) i)"
  by (cases x) (simp_all add: thread_inv_def lock_enter_def seg_call_def split: sum.split)

lemma mutex_inv_step:
  assumes "sys_step ok s s'" and inv: "mutex_inv s"
  shows "mutex_inv s'"
  using assms(1)
proof cases
  case (calls i x)
  then show ?thesis
    using inv call_words [of s i x] call_thread_inv [of i x s]
    by (simp add: mutex_inv_def call_frame(1)) (metis call_frame(2))
next
  case (runs i e)
  have "thread_inv (thr s' j)" if "j < nthreads s" for j
  proof (cases "j = i")
    case True
    then show ?thesis
      using runs inv by (auto simp: mutex_inv_def intro: thread_step_thread_inv)
  next
    case False
    then show ?thesis
      using inv that moved_keeps(4) [OF thread_step_frame(2) [OF runs(2)]] by (simp add: mutex_inv_def)
  qed
  with thread_step_words [OF inv runs] thread_step_frame(1) [OF runs(2)]
  show ?thesis by (simp add: mutex_inv_def)
next
  case (unblocks i)
  from unblocks(3) have mv: "only_moves s s'" unfolding unblocks(1) by (rule only_moves_awaken)
  then show ?thesis
    using inv moved_keeps(4) [OF moves_thr [OF mv]]
    by (simp add: mutex_inv_def word_inv_moves moves_nthreads)
qed

lemma mutex_inv_initial: "initial n s \<Longrightarrow> mutex_inv s"
  by (auto simp: initial_def mutex_inv_def word_inv_def owned_def lock_word_def owners_def
      htll_mutex_create_def)

interpretation mutex: checked_system "run_event ok" "sys_step ok" "initial n" mutex_inv for ok n
  by unfold_locales (blast intro: mutex_inv_initial mutex_inv_step run_event_step)+

lemmas reach_mutex_inv = mutex.reachable_inv

lemma reachable_mutex_inv: "reachable n s \<Longrightarrow> mutex_inv s"
  unfolding reachable_def by (rule reach_mutex_inv)

lemma reachable_nthreads: "reach (initial n) (sys_step ok) s \<Longrightarrow> nthreads s = n"
  by (erule reach_invariant)
    (auto simp: initial_def call_frame(1) thread_step_frame(1) elim!: sys_step.cases)

section \<open>Mutual exclusion\<close>

lemma word_inv_unique: "word_inv s \<Longrightarrow> i \<in> owners m s \<Longrightarrow> j \<in> owners m s \<Longrightarrow> i = j"
  by (simp add: word_inv_def owned_def)

text \<open>
  C1. Mutual exclusion: in every reachable state, whatever the interleaving, the clock, the
  time stamps and the kernel's choices, at most one thread holds a mutex.
\<close>

theorem mutual_exclusion:
  assumes "reachable n s"
  shows "card {i. i < n \<and> m \<in> held (thr s i)} \<le> 1"
proof -
  have "nthreads s = n"
    using assms(1) unfolding reachable_def by (rule reachable_nthreads)
  moreover have "word_inv s" using reachable_mutex_inv [OF assms(1)] by (simp add: mutex_inv_def)
  ultimately have "\<forall>i j. i \<in> {i. i < n \<and> m \<in> held (thr s i)} \<longrightarrow>
      j \<in> {i. i < n \<and> m \<in> held (thr s i)} \<longrightarrow> i = j"
    by (auto intro: word_inv_unique [of s _ m] simp: owners_def)
  then show ?thesis by (simp add: card_le_Suc0_iff_eq)
qed

text \<open>A schedule with contention: thread 0 takes mutex 5, thread 1 finds it taken and spins.\<close>

definition contended_run :: "event list" where
  "contended_run = [Calls 0 (Lock 5), Runs 0 quiet, Calls 1 (Lock 5), Runs 1 quiet, Runs 1 quiet]"

lemma contended_run_result:
  "\<exists>s. reachable 2 s \<and> 5 \<in> held (thr s 0) \<and> pc (thr s 0) = Idle \<and> pc (thr s 1) = In_lock L_spin 5 \<and>
     lock_word 5 s = 1"
proof -
  have "\<exists>s. run_events (\<lambda>_ _ _. True) contended_run (init_sys 2) = Some s \<and> 5 \<in> held (thr s 0) \<and>
     pc (thr s 0) = Idle \<and> pc (thr s 1) = In_lock L_spin 5 \<and> lock_word 5 s = 1"
    by (simp add: contended_run_def run_defs htll_mutex_create_def lock_consts set_locked_def)
  then show ?thesis by (blast intro: run_events_reachable)
qed

theorem mutual_exclusion_witness:
  "\<exists>s. reachable 2 s \<and> 5 \<in> held (thr s 0) \<and> pc (thr s 1) = In_lock L_spin 5 \<and>
     card {i. i < 2 \<and> 5 \<in> held (thr s i)} \<le> 1"
  using contended_run_result mutual_exclusion [of 2 _ 5] by blast

text \<open>
  C21. The lock word never takes a value other than 0, 1, 256 and 257, and its low byte says
  whether somebody holds the mutex.
\<close>

theorem lock_word_values:
  assumes "reachable n s"
  shows "lock_word m s \<in> {0, 1, 256, 257} \<and>
    (locked (lock_word m s) = 1 \<longleftrightarrow> (\<exists>i<n. m \<in> held (thr s i)))"
proof -
  have n: "nthreads s = n"
    using assms unfolding reachable_def by (rule reachable_nthreads)
  have "owned lw_ok word_locked (lock_word m s) (owners m s)"
    using reachable_mutex_inv [OF assms] by (simp add: mutex_inv_def word_inv_at)
  then have "lw_ok (lock_word m s)" "word_locked (lock_word m s) \<longleftrightarrow> (\<exists>i<n. m \<in> held (thr s i))"
    by (auto simp: owned_def owners_def n)
  then show ?thesis
    using lw_ok_bytes [of "lock_word m s"] by (auto simp: lw_ok_def)
qed

theorem lock_word_values_witness:
  "\<exists>s. reachable 2 s \<and> lock_word 5 s = 1 \<and> (\<exists>i<2. 5 \<in> held (thr s i))"
  using contended_run_result lock_word_values [of 2 _ 5] by force

section \<open>Refinement of an abstract lock\<close>

text \<open>The specification: a free lock can be taken by anyone, a taken one given back.\<close>

type_synonym 'l abstract_locks = "'l \<Rightarrow> tid option"

inductive abs_step :: "'l abstract_locks \<Rightarrow> 'l abstract_locks \<Rightarrow> bool" where
  abs_acquire: "a m = None \<Longrightarrow> abs_step a (a(m := Some i))"
| abs_release: "a m = Some i \<Longrightarrow> abs_step a (a(m := None))"

text \<open>A change of at most one owner is invisible or an abstract step.\<close>

definition at_most_abs_step :: "'l abstract_locks \<Rightarrow> 'l abstract_locks \<Rightarrow> bool" where
  "at_most_abs_step a a' \<longleftrightarrow> a' = a \<or> abs_step a a'"

definition legal_change :: "tid \<Rightarrow> tid option \<Rightarrow> tid option \<Rightarrow> bool" where
  "legal_change i x y \<longleftrightarrow> y = x \<or> x = None \<and> y = Some i \<or> x = Some i \<and> y = None"

lemma legal_change_abs: "legal_change i (a m) x \<Longrightarrow> at_most_abs_step a (a(m := x))"
  by (auto simp: legal_change_def at_most_abs_step_def intro: abs_step.intros)

text \<open>Owners seen through a partial naming of the locks, by which no lock has two names.\<close>

definition through :: "('a \<Rightarrow> 'l option) \<Rightarrow> 'l abstract_locks \<Rightarrow> 'a abstract_locks" where
  "through name g a = (case name a of None \<Rightarrow> None | Some l \<Rightarrow> g l)"

lemma through_upd:
  assumes "\<And>a b. name a = Some l \<Longrightarrow> name b = Some l \<Longrightarrow> a = b"
  shows "through name (g(l := x)) = through name g \<or>
    (\<exists>a. through name g a = g l \<and> through name (g(l := x)) = (through name g)(a := x))"
proof (cases "\<exists>a. name a = Some l")
  case True
  then obtain a where a: "name a = Some l" by blast
  have "through name (g(l := x)) = (through name g)(a := x)"
  proof
    fix b
    show "through name (g(l := x)) b = ((through name g)(a := x)) b"
      using a assms [of a b] by (cases "b = a"; cases "name b") (auto simp: through_def)
  qed
  moreover have "through name g a = g l" by (simp add: through_def a)
  ultimately show ?thesis by blast
next
  case False
  then have "through name (g(l := x)) b = through name g b" for b
    by (cases "name b") (auto simp: through_def)
  then show ?thesis by blast
qed

lemma through_extend:
  assumes "\<And>a l. name a = Some l \<Longrightarrow> name' a = Some l"
    and "\<And>a l. name' a = Some l \<Longrightarrow> name a = None \<Longrightarrow> g l = None"
  shows "through name' g = through name g"
proof
  fix a show "through name' g a = through name g a"
    using assms by (cases "name a"; cases "name' a") (auto simp: through_def)
qed

text \<open>A step that changes at most one owner of a lock is legal through every such naming.\<close>

lemma through_legal:
  assumes "\<And>a b l. name a = Some l \<Longrightarrow> name b = Some l \<Longrightarrow> a = b" and "legal_change i (g l) x"
  shows "through name (g(l := x)) = through name g \<or>
    (\<exists>a. through name g a = None \<and> through name (g(l := x)) = (through name g)(a := Some i)) \<or>
    (\<exists>a. through name g a = Some i \<and> through name (g(l := x)) = (through name g)(a := None))"
proof -
  have "through name (g(l := x)) = through name g \<or>
      (\<exists>a. through name g a = g l \<and> through name (g(l := x)) = (through name g)(a := x))"
    by (rule through_upd) (rule assms(1))
  then consider "through name (g(l := x)) = through name g"
    | a where "through name g a = g l" "through name (g(l := x)) = (through name g)(a := x)"
    by blast
  then show ?thesis
    using assms(2) by cases (auto simp: legal_change_def fun_upd_idem)
qed

definition owner_of :: "sys \<Rightarrow> maddr abstract_locks" where
  "owner_of s m = List.find (\<lambda>i. m \<in> held (thr s i)) [0..<nthreads s]"

lemma owner_of_None: "owner_of s m = None \<longleftrightarrow> owners m s = {}"
  by (auto simp: owner_of_def owners_def find_None_iff)

lemma owner_of_Some: "word_inv s \<Longrightarrow> owner_of s m = Some i \<longleftrightarrow> owners m s = {i}"
proof -
  assume inv: "word_inv s"
  have "i \<in> owners m s" if "owner_of s m = Some i" for i
    using that by (auto simp: owner_of_def owners_def find_Some_iff)
  then show ?thesis
    using inv owner_of_None [of s m] by (cases "owner_of s m") (auto dest: word_inv_unique)
qed

lemma unlocked_owners [simp]: "owners m' (unlocked i m k s) = owners m' s"
  by (simp add: unlocked_def split: caller.split)

text \<open>One step changes at most one set of owners, by the thread that steps.\<close>

definition one_owner_change :: "tid \<Rightarrow> sys \<Rightarrow> sys \<Rightarrow> bool" where
  "one_owner_change i s s' \<longleftrightarrow>
     (\<exists>m. (\<forall>m'. m' \<noteq> m \<longrightarrow> owners m' s' = owners m' s) \<and>
          owners m s' \<in> {owners m s, insert i (owners m s), owners m s - {i}})"

lemma one_owner_same: "(\<And>m. owners m s' = owners m s) \<Longrightarrow> one_owner_change i s s'"
  by (simp add: one_owner_change_def)

lemma one_owner_swap:
  assumes "i < nthreads s" and "\<And>s m. owners m (fail s) = owners m s"
  shows "one_owner_change i s (swap8_or i k fail s)" "one_owner_change i s (swap32_or i k r fail s)"
  unfolding one_owner_change_def
  by (rule exI [of _ k], simp add: swap8_or_eq swap32_or_eq Let_def acquired_def assms)+

lemma one_owner_drop: "one_owner_change i s (drop_lock i m (put_word m u s))"
  by (auto simp: one_owner_change_def intro!: exI [of _ m])

lemma lock_step_owners:
  "lock_step e i m p s = Some s' \<Longrightarrow> i < nthreads s \<Longrightarrow> one_owner_change i s s'"
  by (cases p) (auto intro: one_owner_swap one_owner_same split: option.splits sum.splits if_splits)

lemma unlock_step_owners: "unlock_step e i m k p s = Some s' \<Longrightarrow> one_owner_change i s s'"
proof (cases p)
  case U_cas
  assume "unlock_step e i m k p s = Some s'"
  then show ?thesis
    using U_cas one_owner_drop [of i s m 0]
    by (auto simp: sync_cas32_def one_owner_change_def split: if_splits)
next
  case U_store
  assume "unlock_step e i m k p s = Some s'"
  then show ?thesis
    using U_store one_owner_drop [of i s m "set_locked UNLOCKED (lock_word m s)"]
    by (auto simp: one_owner_change_def)
qed (auto intro!: one_owner_same simp: case_prod_beta owners_moves [OF futex_wake1_moves]
    split: option.splits if_splits)

lemma wait_step_owners:
  "wait_step e i c m d p s = Some s' \<Longrightarrow> i < nthreads s \<Longrightarrow> one_owner_change i s s'"
  by (cases p) (auto intro: one_owner_swap one_owner_same simp: Let_def
      split: option.splits sum.splits if_splits)

lemma thread_step_owners:
  assumes "thread_step e i s = Some s'" and "i < nthreads s"
  shows "one_owner_change i s s'"
proof (cases "pc (thr s i)")
  case (In_signal b c)
  then show ?thesis
    using assms by (cases b) (auto simp: thread_step_def owners_moves [OF futex_wake1_moves]
        intro!: one_owner_same)
next
  case (In_bcast q b c)
  then show ?thesis
    using assms by (cases "(e, i, q, b, c, s)" rule: broadcast_step.cases)
      (auto simp: thread_step_def owners_moves [OF futex_requeue_moves]
        intro!: one_owner_same split: option.splits)
qed (use assms in \<open>auto simp: thread_step_def trylock_step_def
    intro: lock_step_owners unlock_step_owners wait_step_owners one_owner_swap\<close>)

lemma call_owners: "owners m (call i x s) = owners m s"
  by (cases x) (auto simp: lock_enter_def seg_call_def split: sum.splits)

lemma owner_of_cong:
  assumes "word_inv s" and "word_inv s'" and "owners m s' = owners m s"
  shows "owner_of s' m = owner_of s m"
  using assms owner_of_None [of s m] owner_of_None [of s' m]
    owner_of_Some [OF assms(1)] owner_of_Some [OF assms(2)] by (metis option.exhaust)

lemma owner_change:
  assumes inv: "word_inv s" "word_inv s'" and "one_owner_change i s s'"
  obtains m x where "owner_of s' = (owner_of s)(m := x)" "legal_change i (owner_of s m) x"
proof -
  from assms(3) obtain m where rest: "\<And>m'. m' \<noteq> m \<Longrightarrow> owners m' s' = owners m' s"
    and m: "owners m s' \<in> {owners m s, insert i (owners m s), owners m s - {i}}"
    unfolding one_owner_change_def by blast
  have upd: "owner_of s' = (owner_of s)(m := owner_of s' m)"
    using owner_of_cong [OF inv rest] by auto
  consider "owners m s' = owners m s"
    | "owners m s' = insert i (owners m s)" "i \<notin> owners m s"
    | "owners m s' = owners m s - {i}" "i \<in> owners m s"
    using m by (cases "i \<in> owners m s") (auto simp: insert_absorb)
  then have "legal_change i (owner_of s m) (owner_of s' m)"
  proof cases
    case 1
    then show ?thesis by (simp add: legal_change_def owner_of_cong [OF inv])
  next
    case 2
    then have "owners m s = {}" using word_inv_unique [OF inv(2), of i m] by fastforce
    then have "owner_of s m = None" "owner_of s' m = Some i"
      using 2 by (simp_all add: owner_of_None owner_of_Some [OF inv(2)])
    then show ?thesis by (simp add: legal_change_def)
  next
    case 3
    then have "owners m s = {i}" using word_inv_unique [OF inv(1) _ 3(2)] by blast
    then have "owner_of s m = Some i" "owner_of s' m = None"
      using 3 by (simp_all only: owner_of_None owner_of_Some [OF inv(1)]) simp
    then show ?thesis by (simp add: legal_change_def)
  qed
  with upd that show ?thesis by blast
qed

lemma sys_step_owners:
  assumes "sys_step ok s s'"
  obtains i where "one_owner_change i s s'"
  using assms
proof cases
  case (calls j x)
  then show ?thesis using one_owner_same [of s' s j] that by (simp add: call_owners)
next
  case (runs j e)
  then show ?thesis using thread_step_owners that by blast
next
  case (unblocks j)
  then show ?thesis
    using one_owner_same [of s' s j] owners_moves [OF only_moves_awaken] that by simp
qed

text \<open>
  C11. The machine refines the abstract lock: every step of every thread, in any reachable
  state, is either invisible in the map from mutexes to owners or exactly one abstract
  acquisition of a free mutex or one abstract release.
\<close>

theorem machine_refines_abstract_lock:
  assumes "reachable n s" and "sys_step ok s s'"
  shows "owner_of s' = owner_of s \<or> abs_step (owner_of s) (owner_of s')"
proof -
  have inv: "word_inv s" "word_inv s'"
    using reachable_mutex_inv [OF assms(1)] mutex_inv_step [OF assms(2)]
    by (simp_all add: mutex_inv_def)
  obtain i where "one_owner_change i s s'" using assms(2) by (rule sys_step_owners)
  from owner_change [OF inv this] obtain m x
    where "owner_of s' = (owner_of s)(m := x)" "legal_change i (owner_of s m) x" .
  with legal_change_abs [of i "owner_of s" m x] show ?thesis by (simp add: at_most_abs_step_def)
qed

theorem machine_refines_abstract_lock_witness:
  "\<exists>s s'. reachable 2 s \<and> sys_step (\<lambda>_ _ _. True) s s' \<and>
     (owner_of s' = owner_of s \<or> abs_step (owner_of s) (owner_of s')) \<and> owner_of s' \<noteq> owner_of s"
proof -
  obtain s where s: "reachable 2 s" "5 \<in> held (thr s 0)" "pc (thr s 0) = Idle" "lock_word 5 s = 1"
    using contended_run_result by blast
  have n: "nthreads s = 2" using s(1) unfolding reachable_def by (rule reachable_nthreads)
  let ?ok = "\<lambda>_ _ _. True"
  let ?s2 = "go 0 (In_unlock U_cas 5 From_api) (call 0 (Unlock 5) s)"
  have "sys_step ?ok s (call 0 (Unlock 5) s)"
    by (rule sys_step.calls) (use s n in simp_all)
  moreover have "sys_step ?ok (call 0 (Unlock 5) s) ?s2"
    by (rule sys_step.runs [of 0 _ quiet]) (use s n in \<open>simp_all add: thread_step_def\<close>)
  ultimately have r: "reachable 2 ?s2"
    using s(1) unfolding reachable_def by (blast intro: reach.intros(2))
  obtain s3 where st: "thread_step quiet 0 ?s2 = Some s3" and h: "5 \<notin> held (thr s3 0)"
    using s(4) by (auto simp: thread_step_def sync_cas32_def)
  have step: "sys_step ?ok ?s2 s3"
    by (rule sys_step.runs [OF _ st]) (simp add: n)
  have inv: "word_inv ?s2" "word_inv s3"
    using reachable_mutex_inv [OF r] mutex_inv_step [OF step reachable_mutex_inv [OF r]]
    by (simp_all add: mutex_inv_def)
  have o: "0 \<in> owners 5 ?s2" using s(2) n by (simp add: owners_def)
  then have "owners 5 ?s2 = {0}" using word_inv_unique [OF inv(1) _ o] by blast
  then have "owner_of ?s2 5 = Some 0" by (simp only: owner_of_Some [OF inv(1)])
  moreover have "owner_of s3 5 \<noteq> Some 0"
    using h by (auto simp: owner_of_Some [OF inv(2)] owners_def)
  ultimately have "owner_of s3 \<noteq> owner_of ?s2" by metis
  with r step machine_refines_abstract_lock [OF r step] show ?thesis by blast
qed

end
