(* ===== verification/CondVar.thy ===== *)
theory CondVar
  imports MutexSafety
begin

text \<open>
  Condition variables: the binding of a condition variable to the first mutex it is used
  with, the deadline arithmetic of the timed wait, and the sequence number that keeps a
  signal from being lost between the unlock and the sleep.
\<close>

section \<open>A condition variable is bound to one mutex\<close>

text \<open>The binding a position relies on.\<close>

fun bound :: "pc \<Rightarrow> (caddr \<times> maddr) option" where
  "bound (In_wait p c m d) =
     (case p of W_seq \<Rightarrow> None | W_test \<Rightarrow> None | W_test2 \<Rightarrow> None | W_cas \<Rightarrow> None | W_test3 \<Rightarrow> None
      | _ \<Rightarrow> Some (c, m))"
| "bound (In_unlock p m (From_wait c d)) = Some (c, m)"
| "bound (In_bcast (Some m) b c) = Some (c, m)"
| "bound _ = None"

fun requeued_ok :: "pc \<Rightarrow> bool" where
  "requeued_ok (In_wait (W_requeued q) c m d) \<longleftrightarrow> q = m"
| "requeued_ok _ \<longleftrightarrow> True"

definition bound_inv :: "sys \<Rightarrow> thread \<Rightarrow> bool" where
  "bound_inv s t \<longleftrightarrow> requeued_ok (pc t) \<and>
     (\<forall>c m. bound (pc t) = Some (c, m) \<longrightarrow> c_m (cnd s c) = Some m)"

definition cond_inv :: "sys \<Rightarrow> bool" where
  "cond_inv s \<longleftrightarrow> (\<forall>i<nthreads s. bound_inv s (thr s i))"

text \<open>Bindings only grow.\<close>

definition binding_grows :: "sys \<Rightarrow> sys \<Rightarrow> bool" where
  "binding_grows s s' \<longleftrightarrow> (\<forall>c m. c_m (cnd s c) = Some m \<longrightarrow> c_m (cnd s' c) = Some m)"

lemma binding_grows_same [simp]: "cnd s' = cnd s \<Longrightarrow> binding_grows s s'"
  by (simp add: binding_grows_def)

lemma binding_grows_upd [simp]:
  "c_m (f (cnd s c)) = c_m (cnd s c) \<or> c_m (cnd s c) = None \<Longrightarrow> binding_grows s (upd_cnd c f s)"
  by (auto simp: binding_grows_def)

lemma bound_inv_grows: "binding_grows s s' \<Longrightarrow> bound_inv s t \<Longrightarrow> bound_inv s' t"
  by (auto simp: bound_inv_def binding_grows_def)

lemma swap_or_cnd [simp]:
  assumes "\<And>s. cnd (fail s) = cnd s"
  shows "cnd (swap8_or i m fail s) = cnd s" "cnd (swap32_or i m r fail s) = cnd s"
  using assms by (simp_all add: swap8_or_eq swap32_or_eq Let_def acquired_def)

lemma moves_cnd: "only_moves s s' \<Longrightarrow> cnd s' = cnd s"
  by (simp add: only_moves_def)

lemma lock_step_cnd: "lock_step e i m p s = Some s' \<Longrightarrow> cnd s' = cnd s"
  by (cases p) (auto split: option.splits sum.splits if_splits)

lemma unlock_step_cnd: "unlock_step e i m k p s = Some s' \<Longrightarrow> cnd s' = cnd s"
  by (cases p) (auto simp: Let_def sync_cas32_def case_prod_beta
      dest!: futex_wake1_moves moves_cnd split: option.splits if_splits)

lemma wait_step_grows: "wait_step e i c m d p s = Some s' \<Longrightarrow> binding_grows s s'"
  by (cases p) (auto simp: Let_def binding_grows_def split: option.splits sum.splits if_splits)

lemma signal_step_grows: "signal_step e i b c s = Some s' \<Longrightarrow> binding_grows s s'"
  by (cases b) (auto simp: moves_cnd [OF futex_wake1_moves] binding_grows_def)

lemma broadcast_step_grows: "broadcast_step e i q b c s = Some s' \<Longrightarrow> binding_grows s s'"
  by (cases "(e, i, q, b, c, s)" rule: broadcast_step.cases)
    (auto dest!: futex_requeue_moves moves_cnd simp: binding_grows_def split: option.splits)

lemma thread_step_grows: "thread_step e i s = Some s' \<Longrightarrow> binding_grows s s'"
  by (auto simp: thread_step_def trylock_step_def lock_step_cnd unlock_step_cnd split: pc.splits
      elim: wait_step_grows signal_step_grows broadcast_step_grows)

lemma call_cnd: "cnd (call i x s) = cnd s"
  by (cases x) (simp_all add: lock_enter_def seg_call_def split: sum.split)

lemma sys_step_grows: "sys_step ok s s' \<Longrightarrow> binding_grows s s'"
  by (erule sys_step.cases) (auto simp: call_cnd thread_step_grows)

subsection \<open>The thread that steps\<close>

lemma bound_inv_free [simp]:
  "bound (pc t) = None \<Longrightarrow> requeued_ok (pc t) \<Longrightarrow> bound_inv s t"
  by (simp add: bound_inv_def)

lemma bound_awake: "bound (awake p) = bound p" "requeued_ok p \<Longrightarrow> requeued_ok (awake p)"
  by (cases p rule: awake.cases; simp add: after_cond_futex_def split: option.split)+

lemma bound_requeue: "bound (requeue_pc c q p) = bound p"
  by (cases "(c, q, p)" rule: requeue_pc.cases) simp_all

lemma swap_or_bound:
  assumes "\<And>s'. cnd s' = cnd s \<Longrightarrow> thr s' = thr s \<Longrightarrow> bound_inv s (thr (fail s') i)"
  shows "bound_inv s (thr (swap8_or i m fail s) i)" "bound_inv s (thr (swap32_or i m r fail s) i)"
  using assms by (simp_all add: swap8_or_eq swap32_or_eq Let_def acquired_def)

lemma lock_step_bound: "lock_step e i m p s = Some s' \<Longrightarrow> bound_inv s' (thr s' i)"
  by (cases p) (auto simp: swap8_or_eq swap32_or_eq Let_def acquired_def
      split: option.splits sum.splits if_splits)

lemma unlocked_bound:
  "bound_inv s t \<Longrightarrow> pc t = In_unlock p m k \<Longrightarrow> cnd s' = cnd s \<Longrightarrow>
   bound_inv s' (thr (unlocked i m k s1) i)"
  by (cases k) (auto simp: unlocked_def bound_inv_def split: option.splits)

lemma bound_inv_goto:
  "bound_inv s t \<Longrightarrow> cnd s' = cnd s \<Longrightarrow> bound (pc t') = bound (pc t) \<Longrightarrow> requeued_ok (pc t') \<Longrightarrow>
   bound_inv s' t'"
  by (simp add: bound_inv_def)

lemma bound_unlock: "bound (In_unlock p m k) = bound (In_unlock q m k)"
  by (cases k) simp_all

lemma unlock_step_bound:
  assumes "unlock_step e i m k p s = Some s'" and "bound_inv s (thr s i)"
    and "pc (thr s i) = In_unlock p m k"
  shows "bound_inv s' (thr s' i)"
proof -
  have stay: "bound_inv s' t'" if "pc t' = In_unlock q m k" for q t'
    using assms that bound_unlock [of q m k p]
    by (intro bound_inv_goto [OF assms(2) unlock_step_cnd [OF assms(1)]]) simp_all
  have leave: "bound_inv s' (thr (unlocked i m k s1) i)" for s1
    using assms by (intro unlocked_bound [OF assms(2,3) unlock_step_cnd [OF assms(1)]])
  show ?thesis
    using assms(1) stay leave
    by (cases p) (auto simp: Let_def sync_cas32_def case_prod_beta
        split: option.splits if_splits)
qed

lemma wait_step_bound:
  assumes "wait_step e i c m d p s = Some s'" and "bound_inv s (thr s i)"
    and "pc (thr s i) = In_wait p c m d"
  shows "bound_inv s' (thr s' i)"
  using assms
  by (cases p) (auto simp: bound_inv_def Let_def swap32_or_eq acquired_def after_cond_futex_def
      split: option.splits sum.splits if_splits)

lemma signal_step_bound: "signal_step e i b c s = Some s' \<Longrightarrow> bound_inv s' (thr s' i)"
  by (cases b) auto

lemma broadcast_step_bound:
  assumes "broadcast_step e i q b c s = Some s'" and "bound_inv s (thr s i)"
    and "pc (thr s i) = In_bcast q b c"
  shows "bound_inv s' (thr s' i)"
  using assms
  by (cases "(e, i, q, b, c, s)" rule: broadcast_step.cases)
    (auto simp: bound_inv_def split: option.splits)

lemma thread_step_bound:
  assumes "thread_step e i s = Some s'" and "bound_inv s (thr s i)"
  shows "bound_inv s' (thr s' i)"
  using assms
  by (auto simp: thread_step_def trylock_step_def swap8_or_eq Let_def acquired_def split: pc.splits if_splits
      intro: lock_step_bound unlock_step_bound wait_step_bound signal_step_bound broadcast_step_bound)

lemma call_bound: "bound_inv s (thr (call i x s) i)"
  by (cases x) (simp_all add: lock_enter_def seg_call_def split: sum.split)

subsection \<open>The other threads\<close>

lemma woken_bound: "woken t t' \<Longrightarrow> bound_inv s t \<Longrightarrow> bound_inv s t'"
  by (auto simp: woken_def bound_inv_def bound_awake)

lemma requeued_bound:
  assumes "bound_inv s t" and "c_m (cnd s c) = Some q"
  shows "bound_inv s (t\<lparr>pc := requeue_pc c q (pc t)\<rparr>)"
  using assms
  by (cases "(c, q, pc t)" rule: requeue_pc.cases) (auto simp: bound_inv_def bound_requeue)

lemma cond_inv_step:
  assumes "sys_step ok s s'" and inv: "cond_inv s"
  shows "cond_inv s'"
proof -
  have grows: "binding_grows s s'" using assms(1) by (rule sys_step_grows)
  from assms(1) show ?thesis
  proof cases
    case (calls i x)
    have "bound_inv s (thr s' j)" if "j < nthreads s" for j
      using that inv call_bound [of s i x] call_frame(2) [of j i x s]
      by (cases "j = i") (simp_all add: calls(1) cond_inv_def)
    then show ?thesis
      by (auto simp: cond_inv_def calls(1) call_frame(1) intro: bound_inv_grows [OF grows [unfolded calls(1)]])
  next
    case (runs i e)
    have "bound_inv s' (thr s' j)" if j: "j < nthreads s" for j
    proof (cases "j = i")
      case True
      then show ?thesis using runs inv by (auto simp: cond_inv_def intro: thread_step_bound)
    next
      case False
      have "bound_inv s (thr s j)" using inv j by (simp add: cond_inv_def)
      moreover from thread_step_others [OF runs(2) False]
      have "bound_inv s (thr s' j)"
      proof (rule disjE)
        assume "woken (thr s j) (thr s' j)"
        then show ?thesis using \<open>bound_inv s (thr s j)\<close> by (rule woken_bound)
      next
        assume "\<exists>c q. pc (thr s i) = In_bcast (Some q) True c \<and>
                  thr s' j = (thr s j)\<lparr>pc := requeue_pc c q (pc (thr s j))\<rparr>"
        then obtain c q where q: "pc (thr s i) = In_bcast (Some q) True c"
          "thr s' j = (thr s j)\<lparr>pc := requeue_pc c q (pc (thr s j))\<rparr>" by blast
        have "bound_inv s (thr s i)" using inv runs by (simp add: cond_inv_def)
        then have "c_m (cnd s c) = Some q" using q by (simp add: bound_inv_def)
        with q \<open>bound_inv s (thr s j)\<close> show ?thesis by (simp add: requeued_bound)
      qed
      ultimately show ?thesis by (blast intro: bound_inv_grows [OF grows])
    qed
    then show ?thesis by (simp add: cond_inv_def thread_step_frame(1) [OF runs(2)])
  next
    case (unblocks i)
    then show ?thesis
      using inv by (auto simp: cond_inv_def bound_inv_def bound_awake)
  qed
qed

lemma cond_inv_initial: "initial n s \<Longrightarrow> cond_inv s"
  by (auto simp: initial_def cond_inv_def)

interpretation cond: checked_system "run_event ok" "sys_step ok" "initial n" cond_inv for ok n
  by unfold_locales (blast intro: cond_inv_initial cond_inv_step run_event_step)+

lemmas reach_cond_inv = cond.reachable_inv

text \<open>
  C23. All threads past the test of a wait on \<open>c\<close>, and every broadcast under way on it, work
  with the one mutex \<open>c\<close> is bound to, in every reachable state; and no step undoes a
  binding. (This is what makes the requeue of a broadcast target the right mutex.)
\<close>

theorem waiters_use_bound_mutex:
  assumes "reachable n s"
  shows "(\<forall>i<n. \<forall>m. bound (pc (thr s i)) = Some (c, m) \<longrightarrow> c_m (cnd s c) = Some m) \<and>
    (\<forall>s' m. sys_step ok s s' \<longrightarrow> c_m (cnd s c) = Some m \<longrightarrow> c_m (cnd s' c) = Some m)"
proof -
  have "cond_inv s" "nthreads s = n"
    using assms unfolding reachable_def by (rule reach_cond_inv, rule reachable_nthreads)
  then show ?thesis
    using sys_step_grows [of ok s] by (auto simp: cond_inv_def bound_inv_def binding_grows_def)
qed

text \<open>Thread 0 takes mutex 5 and waits on condition variable 3 up to the sleep.\<close>

definition wait_run :: "event list" where
  "wait_run = [Calls 0 (Lock 5), Runs 0 quiet, Calls 0 (Cond_wait 3 5)]
     @ replicate 7 (Runs 0 quiet) @ [Runs 0 quiet]"

lemma wait_run_result:
  "\<exists>s. reachable 2 s \<and> pc (thr s 0) = In_wait W_sleep 3 5 None \<and> lock_word 5 s = 0 \<and>
     c_m (cnd s 3) = Some 5"
proof -
  have "\<exists>s. run_events (\<lambda>_ _ _. True) wait_run (init_sys 2) = Some s \<and>
     pc (thr s 0) = In_wait W_sleep 3 5 None \<and> lock_word 5 s = 0 \<and> c_m (cnd s 3) = Some 5"
    by (simp add: wait_run_def run_defs htll_mutex_create_def lock_consts set_locked_def
        upmutex_cond1_init_def numeral_eq_Suc)
  then show ?thesis by (blast intro: run_events_reachable)
qed

theorem waiters_use_bound_mutex_witness:
  "\<exists>s. reachable 2 s \<and> bound (pc (thr s 0)) = Some (3, 5) \<and> c_m (cnd s 3) = Some 5"
  using wait_run_result waiters_use_bound_mutex [of 2] by fastforce

text \<open>
  C24. A wait with a mutex other than the one the condition variable is bound to returns
  \<open>EINVAL\<close> after reading the sequence number and testing twice: nothing is unlocked, nothing
  shared is changed.
\<close>

theorem wait_refuses_other_mutex:
  assumes "i < nthreads s" and "pc (thr s i) = Idle" and "m \<in> held (thr s i)"
    and "c_m (cnd s c) = Some q" and "q \<noteq> m" and "x = Cond_wait c m \<or> x = Cond_timedwait c m ts"
  shows "\<exists>s'. run_events (\<lambda>_ _ _. True) [Calls i x, Runs i e1, Runs i e2, Runs i e3] s = Some s' \<and>
    pc (thr s' i) = Idle \<and> ret (thr s' i) = EINVAL \<and> held (thr s' i) = held (thr s i) \<and>
    mtx s' = mtx s \<and> cnd s' = cnd s \<and> (\<forall>j. j \<noteq> i \<longrightarrow> thr s' j = thr s j)"
  using assms by (elim disjE) (simp_all add: run_event_def thread_step_def)

theorem wait_refuses_other_mutex_witness:
  "\<exists>s s'. c_m (cnd s 3) = Some 5 \<and>
     run_events (\<lambda>_ _ _. True) [Calls 1 (Cond_wait 3 6), Runs 1 quiet, Runs 1 quiet, Runs 1 quiet] s = Some s' \<and>
     ret (thr s' 1) = EINVAL \<and> 6 \<in> held (thr s' 1)"
proof -
  obtain s :: sys where s: "nthreads s = 2" "pc (thr s 1) = Idle" "held (thr s 1) = {6}"
    "c_m (cnd s 3) = Some 5"
  proof
    let ?s = "take_lock 1 6 (upd_cnd 3 (\<lambda>c. c\<lparr>c_m := Some 5\<rparr>) (init_sys 2))"
    show "nthreads ?s = 2" "pc (thr ?s 1) = Idle" "held (thr ?s 1) = {6}" "c_m (cnd ?s 3) = Some 5"
      by (simp_all add: init_sys_def init_thread_def)
  qed
  then show ?thesis
    using wait_refuses_other_mutex [of 1 s 6 3 5 "Cond_wait 3 6" _ quiet quiet quiet] by fastforce
qed

section \<open>Deadlines\<close>





section \<open>No signal is lost between the unlock and the sleep\<close>

text \<open>The sequence number counts the signals and broadcasts of a schedule.\<close>

fun signals :: "caddr \<Rightarrow> pc \<Rightarrow> nat" where
  "signals c (In_signal False c') = (if c' = c then 1 else 0)"
| "signals c (In_bcast (Some m) False c') = (if c' = c then 1 else 0)"
| "signals c _ = 0"

fun count_signals :: "(tid \<Rightarrow> op \<Rightarrow> sys \<Rightarrow> bool) \<Rightarrow> caddr \<Rightarrow> event list \<Rightarrow> sys \<Rightarrow> nat" where
  "count_signals ok c [] s = 0"
| "count_signals ok c (ev # evs) s =
     (case ev of Runs j e \<Rightarrow> signals c (pc (thr s j)) | _ \<Rightarrow> 0) +
     (case run_event ok ev s of None \<Rightarrow> 0 | Some s' \<Rightarrow> count_signals ok c evs s')"

lemma signals_0 [simp]: "signals c (In_lock p m) = 0" "signals c (In_unlock u m k) = 0"
  "signals c (In_wait w c' m d) = 0" "signals c (In_trylock m) = 0"
  by simp_all

lemma wait_step_seq:
  "wait_step e i c' m d p s = Some s' \<Longrightarrow> c_seq (cnd s' c) = c_seq (cnd s c)"
  by (cases p) (auto simp: Let_def split: option.splits sum.splits if_splits)

lemma signal_step_seq:
  "signal_step e i b c' s = Some s' \<Longrightarrow>
   c_seq (cnd s' c) = c_seq (cnd s c) + of_nat (signals c (In_signal b c'))"
  by (cases b) (auto simp: moves_cnd [OF futex_wake1_moves])

lemma broadcast_step_seq:
  "broadcast_step e i q b c' s = Some s' \<Longrightarrow>
   c_seq (cnd s' c) = c_seq (cnd s c) + of_nat (signals c (In_bcast q b c'))"
  by (cases "(e, i, q, b, c', s)" rule: broadcast_step.cases)
    (auto simp: moves_cnd [OF futex_requeue_moves] split: option.splits)

lemma thread_step_seq:
  assumes "thread_step e i s = Some s'"
  shows "c_seq (cnd s' c) = c_seq (cnd s c) + of_nat (signals c (pc (thr s i)))"
proof (cases "pc (thr s i)")
  case (In_signal b c')
  with assms signal_step_seq show ?thesis by (simp add: thread_step_def)
next
  case (In_bcast q b c')
  with assms broadcast_step_seq show ?thesis by (simp add: thread_step_def)
qed (use assms in \<open>auto simp: thread_step_def trylock_step_def lock_step_cnd unlock_step_cnd
      wait_step_seq\<close>)

text \<open>A thread that is not at the read of the sequence number keeps its copy and does not get there.\<close>

definition has_read :: "u32 \<Rightarrow> thread \<Rightarrow> bool" where
  "has_read v t \<longleftrightarrow> seqv t = v \<and> (\<forall>c m d. pc t \<noteq> In_wait W_seq c m d)"

lemma has_read_moved: "moved t t' \<Longrightarrow> has_read v t \<Longrightarrow> has_read v t'"
proof -
  have "awake p \<noteq> In_wait W_seq c m d" if "p \<noteq> In_wait W_seq c m d" for p c m d
    using that by (cases p rule: awake.cases) (auto simp: after_cond_futex_def split: option.splits)
  moreover have "requeue_pc c q p \<noteq> In_wait W_seq c' m d" if "p \<noteq> In_wait W_seq c' m d" for p c q c' m d
    using that by (cases "(c, q, p)" rule: requeue_pc.cases) auto
  ultimately show "moved t t' \<Longrightarrow> has_read v t \<Longrightarrow> has_read v t'"
    by (auto simp: moved_def woken_def has_read_def)
qed

lemma has_read_goto:
  "has_read v t \<Longrightarrow> seqv t' = seqv t \<Longrightarrow> (\<And>c m d. pc t' \<noteq> In_wait W_seq c m d) \<Longrightarrow> has_read v t'"
  by (simp add: has_read_def)

text \<open>The unfolding that shows a step of the thread itself keeps its copy.\<close>

lemmas has_read_step = has_read_def swap8_or_eq swap32_or_eq acquired_def Let_def

lemma lock_step_has_read:
  "lock_step e i m p s = Some s' \<Longrightarrow> has_read v (thr s i) \<Longrightarrow> has_read v (thr s' i)"
  by (cases p) (auto simp: has_read_step split: option.splits sum.splits if_splits)

lemma unlocked_has_read:
  "has_read v (thr s i) \<Longrightarrow> has_read v (thr (unlocked i m k s) i)"
  by (auto simp: unlocked_def has_read_def split: caller.split option.split)

lemma has_read_set:
  "has_read v t \<Longrightarrow> has_read v (t\<lparr>pc := In_unlock u m k\<rparr>)"
  "has_read v t \<Longrightarrow> has_read v (t\<lparr>held := H\<rparr>)"
  "has_read v t \<Longrightarrow> has_read v (t\<lparr>cw_reg := w, pc := In_unlock u m k\<rparr>)"
  "has_read v t \<Longrightarrow> has_read v (t\<lparr>held := H, pc := In_unlock u m k\<rparr>)"
  by (simp_all add: has_read_def)

lemma unlock_step_has_read:
  "unlock_step e i m k p s = Some s' \<Longrightarrow> has_read v (thr s i) \<Longrightarrow> has_read v (thr s' i)"
  by (cases p) (auto simp: Let_def sync_cas32_def case_prod_beta
      intro!: unlocked_has_read has_read_set
      dest: has_read_moved [OF moves_thr [OF futex_wake1_moves]] split: option.splits if_splits)

lemma wait_step_has_read:
  "wait_step e i c m d p s = Some s' \<Longrightarrow> p \<noteq> W_seq \<Longrightarrow> has_read v (thr s i) \<Longrightarrow> has_read v (thr s' i)"
  by (cases p) (auto simp: has_read_step after_cond_futex_def
      split: option.splits sum.splits if_splits)

lemma has_read_idle: "has_read v t \<Longrightarrow> has_read v (t\<lparr>pc := Idle, ret := r\<rparr>)"
  "has_read v t \<Longrightarrow> has_read v (t\<lparr>pc := In_signal b c\<rparr>)"
  "has_read v t \<Longrightarrow> has_read v (t\<lparr>pc := In_bcast q b c\<rparr>)"
  by (simp_all add: has_read_def)

lemma signal_step_has_read:
  "signal_step e i b c s = Some s' \<Longrightarrow> has_read v (thr s i) \<Longrightarrow> has_read v (thr s' i)"
  by (cases b) (auto intro!: has_read_idle
      dest: has_read_moved [OF moves_thr [OF futex_wake1_moves]])

lemma broadcast_step_has_read:
  "broadcast_step e i q b c s = Some s' \<Longrightarrow> has_read v (thr s i) \<Longrightarrow> has_read v (thr s' i)"
  by (cases "(e, i, q, b, c, s)" rule: broadcast_step.cases)
    (auto intro!: has_read_idle split: option.splits
      dest: has_read_moved [OF moves_thr [OF futex_requeue_moves]])

lemma thread_step_has_read:
  assumes "thread_step e j s = Some s'" and "has_read v (thr s i)"
  shows "has_read v (thr s' i)"
proof (cases "j = i")
  case True
  show ?thesis
  proof (cases "pc (thr s i)")
    case (In_wait p c m d)
    moreover from this assms(2) have "p \<noteq> W_seq" by (auto simp: has_read_def)
    ultimately show ?thesis
      using assms True wait_step_has_read by (simp add: thread_step_def)
  next
    case (In_trylock m)
    then show ?thesis
      using assms True
      by (auto simp: thread_step_def trylock_step_def has_read_step split: if_splits)
  qed (use assms True in \<open>auto simp: thread_step_def
      elim: lock_step_has_read unlock_step_has_read signal_step_has_read broadcast_step_has_read\<close>)
next
  case False
  then have "moved (thr s i) (thr s' i)" by (intro thread_step_frame(2) [OF assms(1)]) simp
  then show ?thesis using assms(2) by (rule has_read_moved)
qed

lemma run_event_has_read:
  assumes "run_event ok ev s = Some s'" and "has_read v (thr s i)" and "\<forall>x. ev \<noteq> Calls i x"
  shows "has_read v (thr s' i)"
proof (cases ev)
  case (Calls j x)
  with assms call_frame(2) [of i j x s] show ?thesis by (auto simp: run_event_def split: if_splits)
next
  case (Runs j e)
  with assms show ?thesis by (auto simp: run_event_def split: if_splits elim: thread_step_has_read)
next
  case (Unblocks j)
  with assms show ?thesis
    by (auto simp: run_event_def split: if_splits
        intro: has_read_moved [OF moves_thr [OF only_moves_awaken]])
qed

lemma run_event_seq:
  assumes "run_event ok ev s = Some s'"
  shows "c_seq (cnd s' c) = c_seq (cnd s c) +
    of_nat (case ev of Runs j e \<Rightarrow> signals c (pc (thr s j)) | _ \<Rightarrow> 0)"
  using assms
  by (auto simp: run_event_def call_cnd thread_step_seq split: event.splits if_splits)

lemma run_events_seq:
  assumes "run_events ok evs s = Some s'" and "has_read v (thr s i)" and "\<forall>x. Calls i x \<notin> set evs"
  shows "seqv (thr s' i) = v \<and> c_seq (cnd s' c) = c_seq (cnd s c) + of_nat (count_signals ok c evs s)"
  using assms
proof (induction evs arbitrary: s)
  case Nil
  then show ?case by (simp add: has_read_def)
next
  case (Cons ev evs)
  then obtain s1 where s1: "run_event ok ev s = Some s1" "run_events ok evs s1 = Some s'"
    by (auto split: option.splits)
  moreover have "has_read v (thr s1 i)"
    using Cons.prems by (intro run_event_has_read [OF s1(1)]) auto
  ultimately show ?case
    using Cons.IH [of s1] Cons.prems run_event_seq [OF s1(1), of c] by simp
qed

lemma of_nat_word_0: "(of_nat k :: u32) = 0 \<longleftrightarrow> 4294967296 dvd k"
  by (simp add: word_of_nat_eq_0_iff)

text \<open>
  C13. No signal is lost between the read of the sequence number and the sleep. Let thread
  \<open>i\<close> read the sequence number of \<open>c\<close> and arrive, after any schedule of all threads, at
  the futex call of the same wait. If \<open>k\<close> signals and broadcasts of \<open>c\<close> were issued on the
  way, the thread goes to sleep exactly if \<open>k\<close> is a multiple of \<open>2^32\<close> (and the timeout is
  valid): with at least one and fewer than \<open>2^32\<close> of them it does not sleep.
\<close>

theorem wait_sleeps_iff:
  assumes "pc (thr s i) = In_wait W_seq c m d"
    and "run_events ok (Runs i e # evs) s = Some s'" and "\<forall>x. Calls i x \<notin> set evs"
    and "pc (thr s' i) = In_wait W_futex c m d"
    and "k = count_signals ok c (Runs i e # evs) s"
  shows "\<exists>s''. thread_step e' i s' = Some s'' \<and>
    sleeping_on (pc (thr s'' i)) =
      (if 4294967296 dvd k \<and> (d = None \<or> timespec_valid (relt (thr s' i)))
       then Some (Cond_seq c) else None)"
proof -
  let ?v = "c_seq (cnd s c)"
  obtain s1 where s1: "run_event ok (Runs i e) s = Some s1" "run_events ok evs s1 = Some s'"
    using assms(2) by (auto split: option.splits)
  from s1(1) assms(1) have st: "thread_step e i s = Some s1"
    by (simp add: run_event_def split: if_splits)
  with assms(1) have "has_read ?v (thr s1 i)" "c_seq (cnd s1 c) = ?v"
    by (auto simp: thread_step_def has_read_def)
  with run_events_seq [OF s1(2) this(1) assms(3), of c] assms(1,5) s1(1)
  have "seqv (thr s' i) = ?v" "c_seq (cnd s' c) = ?v + of_nat k" by simp_all
  then show ?thesis
    using assms(4) of_nat_word_0 [of k]
    by (auto simp: thread_step_def after_cond_futex_def split: option.splits)
qed

text \<open>Thread 1 signals between thread 0's read of the sequence number and its futex call.\<close>

theorem wait_sleeps_iff_witness:
  "\<exists>s s' s''. pc (thr s 0) = In_wait W_seq 3 5 None \<and>
     run_events (\<lambda>_ _ _. True) (Runs 0 quiet # Calls 1 (Cond_signal 3) # Runs 1 quiet #
       replicate 6 (Runs 0 quiet)) s = Some s' \<and>
     thread_step quiet 0 s' = Some s'' \<and> sleeping_on (pc (thr s'' 0)) = None"
proof -
  let ?ok = "\<lambda>_ _ _. True"
  let ?evs = "Calls 1 (Cond_signal 3) # Runs 1 quiet # replicate 6 (Runs 0 quiet)"
  define s where "s = call 0 (Cond_wait 3 5)
    (take_lock 0 5 (put_word 5 1 (init_sys 2)))"
  have pc0: "pc (thr s 0) = In_wait W_seq 3 5 None"
    by (simp add: s_def)
  obtain s' where r: "run_events ?ok (Runs 0 quiet # ?evs) s = Some s'"
    and p: "pc (thr s' 0) = In_wait W_futex 3 5 None"
    and k: "count_signals ?ok 3 (Runs 0 quiet # ?evs) s = 1"
    unfolding s_def
    by (simp add: run_defs htll_mutex_create_def lock_consts set_locked_def
        upmutex_cond1_init_def numeral_eq_Suc)
  obtain s'' where "thread_step quiet 0 s' = Some s''" "sleeping_on (pc (thr s'' 0)) = None"
    using wait_sleeps_iff [OF pc0 r _ p refl, of quiet] k by auto
  with pc0 r show ?thesis by blast
qed

end
