(* ===== verification/Wakeup.thy ===== *)
theory Wakeup
  imports CondVar
begin

text \<open>
  No lost wake-up: while a thread sleeps without a timeout in \<open>htll_mutex_lock\<close>, somebody is
  responsible for waking it. This holds when all lockers are outside segments (the
  untimed protocol, \<open>flag = 1\<close>); a schedule at the end of the theory shows that lockers
  inside segments, which retry with the byte exchange, can break it.
\<close>

section \<open>The discipline and what it gives a thread\<close>

definition untimed :: "tid \<Rightarrow> op \<Rightarrow> sys \<Rightarrow> bool" where
  "untimed i x s \<longleftrightarrow> (\<forall>m. x = Lock m \<longrightarrow> cur_segment_id (local (thr s i)) = -1)"

definition untimed_inv :: "thread \<Rightarrow> bool" where
  "untimed_inv t \<longleftrightarrow>
     (case pc t of
        In_lock p m \<Rightarrow> lflag t = 1 \<and> p \<noteq> L_twait \<and> p \<noteq> L_tsleep \<and> p \<noteq> L_woken
      | In_wait p c m d \<Rightarrow>
          p = W_msleep \<or> p = W_mwoken \<longrightarrow>
            0 \<le> cur_segment_id (local t) \<and>
            cur_segment_id (local t) < int (length (segment (local t)))
      | _ \<Rightarrow> True)"

lemma untimed_inv_free [simp]:
  "(\<And>p m. pc t \<noteq> In_lock p m) \<Longrightarrow> (\<And>p c m d. pc t \<noteq> In_wait p c m d) \<Longrightarrow> untimed_inv t"
  by (auto simp: untimed_inv_def split: pc.split)

lemma untimed_inv_awake:
  "untimed_inv t \<Longrightarrow> untimed_inv (t\<lparr>pc := awake (pc t)\<rparr>)"
  by (cases "pc t" rule: awake.cases)
    (auto simp: untimed_inv_def after_cond_futex_def split: option.splits)

lemma untimed_inv_requeue:
  "untimed_inv t \<Longrightarrow> untimed_inv (t\<lparr>pc := requeue_pc c q (pc t)\<rparr>)"
  by (cases "(c, q, pc t)" rule: requeue_pc.cases) (auto simp: untimed_inv_def)

lemma untimed_inv_moved: "moved t t' \<Longrightarrow> untimed_inv t \<Longrightarrow> untimed_inv t'"
  by (auto simp: moved_def woken_def untimed_inv_awake untimed_inv_requeue)

lemma segment_timeout_Some:
  "segment_timeout t = Some ts \<Longrightarrow>
   0 \<le> cur_segment_id t \<and> cur_segment_id t < int (length (segment t))"
  by (auto simp: segment_timeout_alt dest: arr_read_SomeD)

lemma lock_step_untimed:
  assumes "lock_step e i m p s = Some s'" and "pc (thr s i) = In_lock p m" and "untimed_inv (thr s i)"
  shows "untimed_inv (thr s' i)"
  using assms
  by (cases p) (auto simp: untimed_inv_def swap8_or_eq swap32_or_eq Let_def acquired_def)

lemma unlocked_untimed [simp]: "untimed_inv (thr (unlocked i m k s) i)"
  by (auto simp: unlocked_def untimed_inv_def split: caller.split option.split)

lemma unlock_step_untimed:
  assumes "unlock_step e i m k p s = Some s'"
  shows "untimed_inv (thr s' i)"
  using assms
  by (cases p) (auto simp: Let_def sync_cas32_def case_prod_beta split: option.splits if_splits)

lemma wait_step_untimed:
  assumes "wait_step e i c m d p s = Some s'" and "pc (thr s i) = In_wait p c m d"
    and "untimed_inv (thr s i)"
  shows "untimed_inv (thr s' i)"
  using assms
  by (cases p) (auto simp: untimed_inv_def swap32_or_eq Let_def acquired_def after_cond_futex_def
      dest: segment_timeout_Some split: option.splits sum.splits if_splits)

lemma signal_step_untimed: "signal_step e i b c s = Some s' \<Longrightarrow> untimed_inv (thr s' i)"
  by (cases b) auto

lemma broadcast_step_untimed: "broadcast_step e i q b c s = Some s' \<Longrightarrow> untimed_inv (thr s' i)"
  by (cases "(e, i, q, b, c, s)" rule: broadcast_step.cases) (auto split: option.splits)

lemma thread_step_untimed:
  assumes "thread_step e i s = Some s'" and "untimed_inv (thr s i)"
  shows "untimed_inv (thr s' i)"
  using assms
  by (cases "pc (thr s i)")
    (auto simp: thread_step_def trylock_step_def swap8_or_eq Let_def acquired_def
      elim: lock_step_untimed unlock_step_untimed wait_step_untimed signal_step_untimed
        broadcast_step_untimed)

lemma call_untimed: "untimed i x s \<Longrightarrow> untimed_inv (thr (call i x s) i)"
  by (cases x) (auto simp: untimed_def untimed_inv_def lock_enter_def seg_call_def split: sum.split)

definition all_untimed :: "sys \<Rightarrow> bool" where
  "all_untimed s \<longleftrightarrow> (\<forall>i<nthreads s. untimed_inv (thr s i))"

lemma all_untimed_step:
  assumes "sys_step untimed s s'" and inv: "all_untimed s"
  shows "all_untimed s'"
  using assms(1)
proof cases
  case (calls i x)
  then show ?thesis
    using inv call_untimed [of i x s] call_frame(1) [of i x s] call_frame(2) [of _ i x s]
    unfolding all_untimed_def by metis
next
  case (runs i e)
  have "untimed_inv (thr s' j)" if "j < nthreads s" for j
    using runs inv that thread_step_untimed [OF runs(2)]
      untimed_inv_moved [OF thread_step_frame(2) [OF runs(2)]]
    by (cases "j = i") (auto simp: all_untimed_def)
  then show ?thesis by (simp add: all_untimed_def thread_step_frame(1) [OF runs(2)])
next
  case (unblocks i)
  then show ?thesis using inv by (auto simp: all_untimed_def untimed_inv_awake)
qed

section \<open>Who is responsible for a sleeper\<close>

fun waker :: "maddr \<Rightarrow> pc \<Rightarrow> bool" where
  "waker m (In_unlock u m' k) \<longleftrightarrow> m' = m \<and> (u = U_wload \<or> u = U_wstore \<or> u = U_wake)"
| "waker m _ \<longleftrightarrow> False"

fun retrier :: "maddr \<Rightarrow> pc \<Rightarrow> bool" where
  "retrier m (In_lock p m') \<longleftrightarrow> m' = m \<and> p = L_loop"
| "retrier m (In_wait p c m' d) \<longleftrightarrow> m' = m \<and> (p = W_clock2 \<or> p = W_relock \<or> p = W_mwoken)"
| "retrier m _ \<longleftrightarrow> False"

fun releaser :: "maddr \<Rightarrow> pc \<Rightarrow> bool" where
  "releaser m (In_unlock u m' k) \<longleftrightarrow>
     m' = m \<and> (case u of U_check1 \<Rightarrow> True | U_delay n \<Rightarrow> True | U_check2 \<Rightarrow> True | U_clear \<Rightarrow> True
                 | _ \<Rightarrow> False)"
| "releaser m _ \<longleftrightarrow> False"

abbreviation responsible :: "maddr \<Rightarrow> pc \<Rightarrow> bool" where
  "responsible m p \<equiv> waker m p \<or> retrier m p"

abbreviation asleep :: "maddr \<Rightarrow> pc \<Rightarrow> bool" where
  "asleep m p \<equiv> sleeping_on p = Some (Mutex_word m)"

definition wake_inv :: "maddr \<Rightarrow> sys \<Rightarrow> bool" where
  "wake_inv m s \<longleftrightarrow>
     ((\<exists>i<nthreads s. asleep m (pc (thr s i))) \<longrightarrow>
        contended (lock_word m s) = 1 \<or> (\<exists>j<nthreads s. responsible m (pc (thr s j)))) \<and>
     (locked (lock_word m s) = 0 \<and> contended (lock_word m s) = 1 \<longrightarrow>
        (\<exists>j<nthreads s. releaser m (pc (thr s j))))"

text \<open>These positions do not sleep, so the kernel does not move a thread out of them.\<close>

lemma on_duty_awake:
  "responsible m p \<Longrightarrow> sleeping_on p = None" "releaser m p \<Longrightarrow> sleeping_on p = None"
  by (cases p rule: sleeping_on.cases; auto)+

lemma on_duty_moved:
  assumes "moved t t'"
  shows "responsible m (pc t) \<Longrightarrow> t' = t" "releaser m (pc t) \<Longrightarrow> t' = t"
  by (rule moved_busy [OF assms], rule on_duty_awake, assumption)+

text \<open>A sleeper of the mutex that is woken tries again with the 32-bit exchange.\<close>

lemma retrier_awake:
  assumes "asleep m p" and "requeued_ok p" and "\<And>q. p \<noteq> In_lock L_tsleep q"
  shows "retrier m (awake p)"
  using assms
  by (cases p rule: sleeping_on.cases) (auto simp: after_cond_futex_def split: option.split)

lemma untimed_not_tsleep: "untimed_inv t \<Longrightarrow> pc t \<noteq> In_lock L_tsleep q"
  by (auto simp: untimed_inv_def)

subsection \<open>What a step of one thread does to the word and its duty\<close>

text \<open>
  \<open>keeps_contended\<close>: the contended byte is cleared only by a thread that becomes a waker.
  \<open>keeps_releaser\<close>: a free contended word has a releaser.
\<close>

definition keeps_contended :: "maddr \<Rightarrow> tid \<Rightarrow> sys \<Rightarrow> sys \<Rightarrow> bool" where
  "keeps_contended m i s s' \<longleftrightarrow>
     (contended (lock_word m s) = 1 \<longrightarrow>
        contended (lock_word m s') = 1 \<or> waker m (pc (thr s' i)))"

definition free_contended :: "maddr \<Rightarrow> sys \<Rightarrow> bool" where
  "free_contended m s \<longleftrightarrow> locked (lock_word m s) = 0 \<and> contended (lock_word m s) = 1"

definition keeps_releaser :: "maddr \<Rightarrow> tid \<Rightarrow> sys \<Rightarrow> sys \<Rightarrow> bool" where
  "keeps_releaser m i s s' \<longleftrightarrow>
     (free_contended m s' \<longrightarrow>
        releaser m (pc (thr s' i)) \<or> free_contended m s \<and> \<not> releaser m (pc (thr s i)))"

definition keeps_duty :: "maddr \<Rightarrow> tid \<Rightarrow> sys \<Rightarrow> sys \<Rightarrow> bool" where
  "keeps_duty m i s s' \<longleftrightarrow>
     (responsible m (pc (thr s i)) \<longrightarrow>
        responsible m (pc (thr s' i)) \<or> contended (lock_word m s') = 1)"

definition duty_ok :: "maddr \<Rightarrow> tid \<Rightarrow> sys \<Rightarrow> sys \<Rightarrow> bool" where
  "duty_ok m i s s' \<longleftrightarrow> keeps_contended m i s s' \<and> keeps_releaser m i s s' \<and> keeps_duty m i s s'"

lemmas duty_defs = duty_ok_def keeps_contended_def keeps_releaser_def keeps_duty_def free_contended_def

lemma duty_same:
  assumes "lock_word m s' = lock_word m s" and "\<not> releaser m (pc (thr s i))"
    and "responsible m (pc (thr s i)) \<longrightarrow> responsible m (pc (thr s' i))"
  shows "duty_ok m i s s'"
  using assms(2,3) unfolding duty_defs assms(1) by blast

lemma duty_byte:
  assumes "lock_word m s' = (if m = k then set_locked 1 (lock_word m s) else lock_word m s)"
    and "\<not> releaser m (pc (thr s i))" and "\<not> responsible m (pc (thr s i))"
  shows "duty_ok m i s s'"
  using assms(2,3) unfolding duty_defs assms(1) by (cases "m = k") simp_all

lemma duty_word:
  assumes "lock_word m s' = (if m = k then 257 else lock_word m s)"
    and "\<not> releaser m (pc (thr s i))" and "responsible m (pc (thr s i)) \<longrightarrow> m = k"
  shows "duty_ok m i s s'"
proof (cases "m = k")
  case True
  with assms(1) have "lock_word m s' = 257" by simp
  then show ?thesis by (simp add: duty_defs)
next
  case False
  with assms show ?thesis by (intro duty_same) simp_all
qed

lemma lock_word_acquired [simp]: "lock_word m (acquired i k r s) = lock_word m s"
  by (simp add: acquired_def)

lemma lock_word_swap:
  assumes "\<And>m s. lock_word m (fail s) = lock_word m s"
  shows "lock_word m (swap8_or i k fail s) =
      (if m = k then set_locked 1 (lock_word m s) else lock_word m s)"
    "lock_word m (swap32_or i k r fail s) = (if m = k then 257 else lock_word m s)"
  using assms by (simp_all add: swap8_or_def swap32_or_def htll_swap_uint8_def
      htll_swap_uint32_def lock_consts Let_def)

lemma lock_step_duty:
  assumes "lock_step e i k p s = Some s'" and "pc (thr s i) = In_lock p k"
    and "untimed_inv (thr s i)"
  shows "duty_ok m i s s'"
proof (cases "p = L_try \<or> p = L_spin")
  case True
  then have "lock_word m s' = (if m = k then set_locked 1 (lock_word m s) else lock_word m s)"
    using assms(1) by (auto simp: lock_word_swap)
  then show ?thesis by (rule duty_byte) (use True assms(2) in auto)
next
  case False
  show ?thesis
  proof (cases "p = L_swap \<or> p = L_loop")
    case True
    then have "lock_word m s' = (if m = k then 257 else lock_word m s)"
      using assms(1) by (auto simp: lock_word_swap)
    then show ?thesis by (rule duty_word) (use True assms(2) in auto)
  next
    case F2: False
    then have "lock_word m s' = lock_word m s"
      using assms False by (cases p) (auto simp: untimed_inv_def)
    then show ?thesis by (rule duty_same) (use False F2 assms(2) in auto)
  qed
qed

lemma trylock_step_duty:
  assumes "trylock_step i k s = Some s'" and "pc (thr s i) = In_trylock k"
  shows "duty_ok m i s s'"
proof (rule duty_byte)
  show "lock_word m s' = (if m = k then set_locked 1 (lock_word m s) else lock_word m s)"
    using assms by (auto simp: trylock_step_def lock_word_swap)
qed (use assms in auto)

lemma wait_step_duty:
  assumes "wait_step e i c k d p s = Some s'" and "pc (thr s i) = In_wait p c k d"
    and "untimed_inv (thr s i)"
  shows "duty_ok m i s s'"
proof (cases "p = W_relock")
  case True
  have "lock_word m s' = (if m = k then 257 else lock_word m s)"
    using assms(1) True by (auto simp: lock_word_swap)
  then show ?thesis by (rule duty_word) (use True assms(2) in auto)
next
  case False
  have "lock_word m s' = lock_word m s"
    using assms False by (cases p) (auto simp: Let_def split: option.splits sum.splits if_splits)
  then show ?thesis
  proof (rule duty_same)
    show "responsible m (pc (thr s i)) \<longrightarrow> responsible m (pc (thr s' i))"
    proof
      assume r: "responsible m (pc (thr s i))"
      with assms(2) False have k: "k = m" "p = W_clock2 \<or> p = W_mwoken" by auto
      from k(2) show "responsible m (pc (thr s' i))"
      proof
        assume "p = W_clock2"
        with assms(1) k(1) show ?thesis by (auto simp: Let_def split: option.splits if_splits)
      next
        assume p: "p = W_mwoken"
        then have "mark_waiter (local (thr s i)) \<noteq> Inl f" for f
          using assms(2,3) by (auto simp: mark_waiter_def untimed_inv_def)
        with assms(1) k(1) p show ?thesis by (auto split: sum.splits)
      qed
    qed
  qed (use assms(2) in auto)
qed

lemma pc_unlocked_goes [simp]:
  "\<not> releaser m (pc (thr (unlocked i k c s) i))" "\<not> waker m (pc (thr (unlocked i k c s) i))"
  by (simp_all add: unlocked_def split: caller.split)

lemma unlock_step_duty:
  assumes "unlock_step e i k a p s = Some s'" and "pc (thr s i) = In_unlock p k a"
    and "p \<noteq> U_wake" and "lw_ok (lock_word k s)"
  shows "duty_ok m i s s'"
proof (cases "k = m")
  case False
  then have "lock_word m s' = lock_word m s"
    using assms(1,3) l_u_count_unlock
    by (cases p) (auto simp: Let_def sync_cas32_def case_prod_beta lock_word_def upd_defs unlocked_def
        split: option.splits if_splits caller.splits)
  then show ?thesis by (rule duty_same) (use False assms(2) in auto)
next
  case True
  show ?thesis
  proof (cases p)
    case U_count
    then have "lock_word m s' = lock_word m s"
      using assms(1) l_u_count_unlock True by (auto simp: case_prod_beta lock_word_def)
    then show ?thesis by (rule duty_same) (use True U_count assms(2) in auto)
  next
    case U_adjust
    then have "lock_word m s' = lock_word m s" using assms(1) by (auto simp: lock_word_def)
    then show ?thesis by (rule duty_same) (use True U_adjust assms(2) in auto)
  next
    case U_adjust2
    then have "lock_word m s' = lock_word m s" using assms(1) by (auto simp: lock_word_def)
    then show ?thesis by (rule duty_same) (use True U_adjust2 assms(2) in auto)
  next
    case (U_tload d)
    then have "lock_word m s' = lock_word m s" using assms(1) by (auto simp: lock_word_def)
    then show ?thesis by (rule duty_same) (use True U_tload assms(2) in auto)
  next
    case (U_tstore v)
    then have "lock_word m s' = lock_word m s" using assms(1) by (auto simp: lock_word_def)
    then show ?thesis by (rule duty_same) (use True U_tstore assms(2) in auto)
  next
    case U_reset
    then have "lock_word m s' = lock_word m s" using assms(1) by (auto simp: lock_word_def)
    then show ?thesis by (rule duty_same) (use True U_reset assms(2) in auto)
  next
    case U_check2
    then show ?thesis
      using assms True by (auto simp: duty_defs LOCKED_def split: if_splits)
  next
    case U_cas
    have "contended (lock_word m s) \<noteq> 1" if "lock_word m s = 1" using that by simp
    then show ?thesis
      using assms(1,2) True U_cas by (auto simp: duty_defs sync_cas32_def split: if_splits)
  next
    case U_wstore
    then have "lock_word m s' = lock_word m s" using assms(1) by (auto simp: lock_word_def)
    then show ?thesis by (rule duty_same) (use True U_wstore assms in auto)
  qed (use assms True in \<open>auto simp: duty_defs UNCONTENDED_def split: option.splits if_splits\<close>)
qed

lemma still_step_duty:
  assumes "\<And>m. lock_word m s' = lock_word m s" and "\<not> responsible m (pc (thr s i))"
    and "\<not> releaser m (pc (thr s i))"
  shows "duty_ok m i s s'"
  using assms by (intro duty_same) auto

lemma thread_step_duty:
  assumes "thread_step e i s = Some s'" and "\<And>k c. pc (thr s i) \<noteq> In_unlock U_wake k c"
    and "untimed_inv (thr s i)" and "\<And>m. lw_ok (lock_word m s)"
  shows "duty_ok m i s s'"
proof (cases "pc (thr s i)")
  case (In_signal b c)
  then have "lock_word m s' = lock_word m s" for m
    using assms(1) by (cases b) (auto simp: thread_step_def lock_word_moves [OF futex_wake1_moves])
  then show ?thesis by (rule still_step_duty) (use In_signal in auto)
next
  case (In_bcast q b c)
  then have "lock_word m s' = lock_word m s" for m
    using assms(1) by (cases "(e, i, q, b, c, s)" rule: broadcast_step.cases)
      (auto simp: thread_step_def lock_word_moves [OF futex_requeue_moves] split: option.splits)
  then show ?thesis by (rule still_step_duty) (use In_bcast in auto)
next
  case (In_unlock p k c)
  with assms show ?thesis by (intro unlock_step_duty) (auto simp: thread_step_def)
next
  case (In_lock p k)
  with assms show ?thesis by (intro lock_step_duty) (auto simp: thread_step_def)
next
  case (In_trylock k)
  with assms show ?thesis by (intro trylock_step_duty) (auto simp: thread_step_def)
next
  case (In_wait p c k d)
  with assms show ?thesis by (intro wait_step_duty) (auto simp: thread_step_def)
qed (use assms in \<open>auto simp: thread_step_def\<close>)

text \<open>A thread falls asleep on a mutex only after reading 257.\<close>

lemma pc_acquired [simp]: "pc (thr (acquired i k r s) i) = Idle"
  by (simp add: acquired_def)

lemma swap_or_asleep:
  assumes "\<And>s. \<not> asleep m (pc (thr (fail s) i))"
  shows "\<not> asleep m (pc (thr (swap8_or i k fail s) i))" "\<not> asleep m (pc (thr (swap32_or i k r fail s) i))"
  using assms by (simp_all add: swap8_or_eq swap32_or_eq Let_def)

lemma unlocked_asleep [simp]: "\<not> asleep m (pc (thr (unlocked i k c s) i))"
  by (simp add: unlocked_def split: caller.split option.split)

lemma lock_step_asleep:
  "lock_step e i k p s = Some s' \<Longrightarrow> asleep m (pc (thr s' i)) \<Longrightarrow> contended (lock_word m s') = 1"
  by (cases p) (auto simp: swap_or_asleep split: option.splits sum.splits if_splits)

lemma unlock_step_asleep: "unlock_step e i k c p s = Some s' \<Longrightarrow> \<not> asleep m (pc (thr s' i))"
  by (cases p) (auto simp: Let_def sync_cas32_def case_prod_beta split: option.splits if_splits)

lemma wait_step_asleep:
  "wait_step e i c k d p s = Some s' \<Longrightarrow> asleep m (pc (thr s' i)) \<Longrightarrow> contended (lock_word m s') = 1"
  by (cases p) (auto simp: swap_or_asleep Let_def after_cond_futex_def
      split: option.splits sum.splits if_splits)

lemma signal_step_asleep: "signal_step e i b c s = Some s' \<Longrightarrow> \<not> asleep m (pc (thr s' i))"
  by (cases b) auto

lemma broadcast_step_asleep: "broadcast_step e i q b c s = Some s' \<Longrightarrow> \<not> asleep m (pc (thr s' i))"
  by (cases "(e, i, q, b, c, s)" rule: broadcast_step.cases) (auto split: option.splits)

lemma falls_asleep:
  assumes "thread_step e i s = Some s'" and "asleep m (pc (thr s' i))"
  shows "contended (lock_word m s') = 1"
  using assms
  by (cases "pc (thr s i)")
    (auto simp: thread_step_def trylock_step_def swap_or_asleep unlock_step_asleep
      signal_step_asleep broadcast_step_asleep elim: lock_step_asleep wait_step_asleep)

text \<open>Another thread can come to sleep on the mutex only by a broadcast, which wakes one as well.\<close>

lemma awake_not_asleep: "sleeping_on p \<noteq> None \<Longrightarrow> sleeping_on (awake p) = None"
  by (cases p rule: awake.cases) (auto simp: after_cond_futex_def split: option.split)

lemma woken_asleep: "woken t t' \<Longrightarrow> asleep m (pc t') \<Longrightarrow> asleep m (pc t)"
  using awake_not_asleep [of "pc t"] by (auto simp: woken_def)

lemma requeue_asleep:
  "asleep m (requeue_pc c q p) \<Longrightarrow> \<not> asleep m p \<Longrightarrow> q = m \<and> sleeping_on p = Some (Cond_seq c)"
  by (cases "(c, q, p)" rule: requeue_pc.cases) (auto split: if_splits)

lemma cond_sleeper: "sleeping_on p = Some (Cond_seq c) \<Longrightarrow> \<exists>m d. p = In_wait W_sleep c m d"
  by (cases p rule: sleeping_on.cases) auto

lemma after_cond_retrier: "retrier m (after_cond_futex c m d)"
  by (simp add: after_cond_futex_def split: option.split)

lemma requeue_wakes:
  assumes "futex_requeue c q w s = Some s'" and "k < nthreads s"
    and "sleeping_on (pc (thr s k)) = Some (Cond_seq c)"
  shows "\<exists>j m d. j < nthreads s \<and> pc (thr s j) = In_wait W_sleep c m d \<and>
    pc (thr s' j) = after_cond_futex c m d"
proof -
  from assms(1) obtain s1 where s1: "futex_wake1 (Cond_seq c) w s = Some s1"
    and s': "s' = s1\<lparr>thr := (\<lambda>j. if j < nthreads s1
                then thr s1 j\<lparr>pc := requeue_pc c q (pc (thr s1 j))\<rparr> else thr s1 j)\<rparr>"
    by (auto simp: futex_requeue_def)
  from s1 show ?thesis
  proof (cases rule: futex_wake1_cases)
    case 1
    then show ?thesis using assms(2,3) by (auto simp: sleepers_def filter_empty_conv)
  next
    case (2 j)
    then obtain m d where p: "pc (thr s j) = In_wait W_sleep c m d" using cond_sleeper by blast
    have "requeue_pc c q (after_cond_futex c m d) = after_cond_futex c m d"
      by (simp add: after_cond_futex_def split: option.split)
    with 2 p show ?thesis by (intro exI [of _ j] exI [of _ m] exI [of _ d]) (simp add: s')
  qed
qed

lemma new_sleeper:
  assumes "thread_step e i s = Some s'" and "j \<noteq> i" and "j < nthreads s" and "cond_inv s"
    and "i < nthreads s" and "asleep m (pc (thr s' j))" and "\<not> asleep m (pc (thr s j))"
  shows "\<exists>k<nthreads s. retrier m (pc (thr s' k))"
proof -
  from thread_step_others [OF assms(1,2)] woken_asleep [OF _ assms(6)] assms(7)
  obtain c q where q: "pc (thr s i) = In_bcast (Some q) True c"
    and pj: "thr s' j = (thr s j)\<lparr>pc := requeue_pc c q (pc (thr s j))\<rparr>" by blast
  from requeue_asleep [where m = m and c = c and q = q and p = "pc (thr s j)"] pj assms(6,7)
  have m: "q = m" "sleeping_on (pc (thr s j)) = Some (Cond_seq c)" by auto
  from assms(1) q obtain s1 where r: "futex_requeue c m (wake e) s = Some s1"
    and s': "s' = return i 0 s1" by (auto simp: thread_step_def m)
  from requeue_wakes [OF r assms(3) m(2)] obtain k m' d where k: "k < nthreads s"
    "pc (thr s k) = In_wait W_sleep c m' d" "pc (thr s1 k) = after_cond_futex c m' d" by blast
  have bi: "bound_inv s (thr s i)" "bound_inv s (thr s k)"
    using assms(4,5) k(1) by (simp_all add: cond_inv_def)
  then have "c_m (cnd s c) = Some m" "c_m (cnd s c) = Some m'"
    using k(2) q m(1) by (simp_all add: bound_inv_def)
  moreover have "k \<noteq> i" using k(2) q by auto
  ultimately show ?thesis using k by (intro exI [of _ k]) (simp add: s' after_cond_retrier)
qed

text \<open>The wake-up call hands the duty over, or nobody sleeps any more.\<close>

lemma waker_hands_over:
  assumes "thread_step e i s = Some s'" and "pc (thr s i) = In_unlock U_wake m k"
    and "i < nthreads s" and "all_untimed s" and "cond_inv s"
  shows "(\<exists>j<nthreads s. retrier m (pc (thr s' j))) \<or> (\<forall>j<nthreads s. \<not> asleep m (pc (thr s' j)))"
proof -
  from assms(1,2) obtain s1 where w: "futex_wake1 (Mutex_word m) (wake e) s = Some s1"
    and s': "s' = unlocked i m k s1" by (auto simp: thread_step_def)
  from w show ?thesis
  proof (cases rule: futex_wake1_cases)
    case 1
    have "\<not> asleep m (pc (thr s' j))" if "j < nthreads s" for j
      using 1 that by (cases "j = i") (auto simp: s' sleepers_def filter_empty_conv)
    then show ?thesis by blast
  next
    case (2 j)
    then have "j \<noteq> i" using assms(2) by auto
    moreover have "retrier m (awake (pc (thr s j)))"
      using 2 assms(4,5) untimed_not_tsleep
      by (intro retrier_awake) (auto simp: all_untimed_def cond_inv_def bound_inv_def)
    ultimately have "retrier m (pc (thr s' j))" using 2 by (simp add: s')
    with 2 show ?thesis by blast
  qed
qed

section \<open>The invariant\<close>

lemma wake_inv_run:
  assumes st: "thread_step e i s = Some s'" and i: "i < nthreads s"
    and inv: "wake_inv m s" "all_untimed s" "cond_inv s" and lw: "\<And>m. lw_ok (lock_word m s)"
  shows "wake_inv m s'"
proof -
  have n: "nthreads s' = nthreads s" by (rule thread_step_frame(1) [OF st])
  have stay: "responsible m (pc (thr s' j))" if "responsible m (pc (thr s j))" "j \<noteq> i" for j
    using on_duty_moved(1) [OF thread_step_frame(2) [OF st that(2)] that(1)] that(1) by simp
  have stay2: "releaser m (pc (thr s' j))" if "releaser m (pc (thr s j))" "j \<noteq> i" for j
    using on_duty_moved(2) [OF thread_step_frame(2) [OF st that(2)] that(1)] that(1) by simp
  have ui: "untimed_inv (thr s i)" using inv(2) i by (simp add: all_untimed_def)
  have duty: "duty_ok m i s s'" if "\<And>k c. pc (thr s i) \<noteq> In_unlock U_wake k c"
    using thread_step_duty [OF st that ui lw] .
  have wake_word: "lock_word m s' = lock_word m s" if "pc (thr s i) = In_unlock U_wake k c" for k c
    using st that lock_word_moves [OF futex_wake1_moves] by (auto simp: thread_step_def)
  have kc: "keeps_contended m i s s'" and kr: "keeps_releaser m i s s'"
  proof -
    show "keeps_contended m i s s'"
      using duty wake_word by (cases "\<exists>k c. pc (thr s i) = In_unlock U_wake k c")
        (auto simp: duty_ok_def keeps_contended_def)
    show "keeps_releaser m i s s'"
      using duty wake_word by (cases "\<exists>k c. pc (thr s i) = In_unlock U_wake k c")
        (auto simp: duty_ok_def keeps_releaser_def free_contended_def)
  qed
  have "releaser m (pc (thr s' i)) \<or> (\<exists>j<nthreads s. j \<noteq> i \<and> releaser m (pc (thr s j)))"
    if "free_contended m s'"
    using kr that inv(1) by (auto simp: keeps_releaser_def free_contended_def wake_inv_def)
  then have two: "\<exists>j<nthreads s'. releaser m (pc (thr s' j))" if "free_contended m s'"
    using that stay2 i n by metis
  have one: "contended (lock_word m s') = 1 \<or> (\<exists>j<nthreads s'. responsible m (pc (thr s' j)))"
    if k: "k < nthreads s" "asleep m (pc (thr s' k))" for k
  proof (cases "k = i \<or> \<not> asleep m (pc (thr s k))")
    case True
    then show ?thesis
      using falls_asleep [OF st] new_sleeper [OF st _ k(1) inv(3) i k(2)] k n by metis
  next
    case False
    then consider "contended (lock_word m s) = 1" |
      j where "j < nthreads s" "j \<noteq> i" "responsible m (pc (thr s j))" |
      "responsible m (pc (thr s i))"
      using inv(1) k(1) unfolding wake_inv_def by metis
    then show ?thesis
    proof cases
      case 1
      then show ?thesis using kc i n by (auto simp: keeps_contended_def)
    next
      case (2 j)
      then show ?thesis using stay n by auto
    next
      case 3
      show ?thesis
      proof (cases "\<exists>c. pc (thr s i) = In_unlock U_wake m c")
        case True
        then show ?thesis using waker_hands_over [OF st _ i inv(2,3)] k n by metis
      next
        case False
        with 3 have "pc (thr s i) \<noteq> In_unlock U_wake l c" for l c by auto
        from duty [OF this] 3 i n show ?thesis by (auto simp: duty_ok_def keeps_duty_def)
      qed
    qed
  qed
  show ?thesis using one two n unfolding wake_inv_def free_contended_def by metis
qed

lemma call_wake:
  assumes "i < nthreads s" and "pc (thr s i) = Idle" and "wake_inv m s"
  shows "wake_inv m (call i x s)"
proof -
  have word: "lock_word m (call i x s) = lock_word m s"
    by (cases x) (auto simp: lock_enter_def seg_call_def split: sum.split)
  have new: "\<not> asleep m (pc (thr (call i x s) i))"
    by (cases x) (auto simp: lock_enter_def seg_call_def split: sum.split)
  have old: "\<not> responsible m (pc (thr s i))" "\<not> releaser m (pc (thr s i))"
    using assms(2) by simp_all
  have others: "thr (call i x s) j = thr s j" if "j \<noteq> i" for j using that by (rule call_frame(2))
  show ?thesis
    using assms(3) new old others unfolding wake_inv_def word call_frame(1) by metis
qed

lemma unblock_wake:
  assumes "i < nthreads s" and "sleeping_on (pc (thr s i)) \<noteq> None" and "wake_inv m s"
    and "all_untimed s" and "cond_inv s"
  shows "wake_inv m (awaken i s)"
proof -
  have word: "lock_word m (awaken i s) = lock_word m s" by simp
  have n: "nthreads (awaken i s) = nthreads s" by simp
  have gone: "\<not> asleep m (pc (thr (awaken i s) i))"
    using awake_not_asleep [OF assms(2)] by simp
  have mine: "retrier m (pc (thr (awaken i s) i))" if "asleep m (pc (thr s i))"
    using assms that untimed_not_tsleep
    by (auto simp: all_untimed_def cond_inv_def bound_inv_def intro!: retrier_awake)
  have old: "\<not> responsible m (pc (thr s i))" "\<not> releaser m (pc (thr s i))"
    using assms(2) on_duty_awake [of m "pc (thr s i)"] by auto
  have others: "thr (awaken i s) j = thr s j" if "j \<noteq> i" for j using that by simp
  show ?thesis
    using assms(3) gone old others unfolding wake_inv_def word n by metis
qed

definition system_inv :: "sys \<Rightarrow> bool" where
  "system_inv s \<longleftrightarrow> mutex_inv s \<and> cond_inv s \<and> all_untimed s \<and> (\<forall>m. wake_inv m s)"

lemma mutex_inv_lw: "mutex_inv s \<Longrightarrow> lw_ok (lock_word m s)"
  by (simp add: mutex_inv_def word_inv_def owned_def)

lemma system_inv_step:
  assumes "sys_step untimed s s'" and inv: "system_inv s"
  shows "system_inv s'"
proof -
  from inv have inv': "mutex_inv s" "cond_inv s" "all_untimed s" "\<And>m. wake_inv m s"
    by (simp_all add: system_inv_def)
  have "wake_inv m s'" for m
    using assms(1)
  proof cases
    case (calls i x)
    then show ?thesis using inv'(4) by (simp add: call_wake)
  next
    case (runs i e)
    show ?thesis
      using wake_inv_run [OF runs(2,1) inv'(4,3,2) mutex_inv_lw [OF inv'(1)]] .
  next
    case (unblocks i)
    then show ?thesis using inv' by (simp add: unblock_wake)
  qed
  then show ?thesis
    using mutex_inv_step [OF assms(1) inv'(1)] cond_inv_step [OF assms(1) inv'(2)]
      all_untimed_step [OF assms(1) inv'(3)] by (simp add: system_inv_def)
qed

lemma system_inv_initial: "initial n s \<Longrightarrow> system_inv s"
  using mutex_inv_initial [of n s] cond_inv_initial [of n s]
  by (auto simp: system_inv_def all_untimed_def wake_inv_def initial_def lock_word_def
      htll_mutex_create_def)

interpretation untimed: checked_system "run_event untimed" "sys_step untimed" "initial n" system_inv for n
  by unfold_locales (blast intro: system_inv_initial system_inv_step run_event_step)+

lemmas reach_system_inv = untimed.reachable_inv

text \<open>
  C5. No lost wake-up. If all lockers are outside segments, then in every reachable state in
  which a thread is blocked in the kernel on the word of a mutex, either some thread holds
  the mutex, or some thread that is not blocked is on its way to wake a sleeper, to take
  the mutex, or to check whether it has been taken since it was given back.
\<close>

theorem no_lost_wakeup:
  assumes "reach (initial n) (sys_step untimed) s" and "i < n" and "asleep m (pc (thr s i))"
  shows "(\<exists>j<n. m \<in> held (thr s j)) \<or>
    (\<exists>j<n. sleeping_on (pc (thr s j)) = None \<and>
       (waker m (pc (thr s j)) \<or> retrier m (pc (thr s j)) \<or> releaser m (pc (thr s j))))"
proof -
  have inv: "system_inv s" and n: "nthreads s = n"
    using assms(1) by (rule reach_system_inv, rule reachable_nthreads)
  then have w: "wake_inv m s" and word: "owned lw_ok word_locked (lock_word m s) (owners m s)"
    by (simp_all add: system_inv_def mutex_inv_def word_inv_def)
  show ?thesis
  proof (cases "word_locked (lock_word m s)")
    case True
    with word show ?thesis by (auto simp: owned_def owners_def n)
  next
    case False
    then obtain j where "j < n" "responsible m (pc (thr s j)) \<or> releaser m (pc (thr s j))"
      using w assms(2,3) n unfolding wake_inv_def by metis
    then show ?thesis using on_duty_awake by blast
  qed
qed

text \<open>
  Quiescence: with all lockers outside segments, a reachable state in which nobody holds
  the mutex and every thread is either outside the library or blocked in the kernel has no
  thread blocked on the mutex.
\<close>

theorem quiescent_no_sleeper:
  assumes "reach (initial n) (sys_step untimed) s"
    and "\<forall>j<n. pc (thr s j) = Idle \<or> sleeping_on (pc (thr s j)) \<noteq> None"
    and "\<forall>j<n. m \<notin> held (thr s j)"
  shows "\<forall>i<n. sleeping_on (pc (thr s i)) \<noteq> Some (Mutex_word m)"
proof (intro allI impI notI)
  fix i assume "i < n" "asleep m (pc (thr s i))"
  have inv: "system_inv s" and n: "nthreads s = n"
    using assms(1) by (rule reach_system_inv, rule reachable_nthreads)
  then have w: "wake_inv m s" and word: "owned lw_ok word_locked (lock_word m s) (owners m s)"
    by (simp_all add: system_inv_def mutex_inv_def word_inv_def)
  from word assms(3) have "\<not> word_locked (lock_word m s)" by (auto simp: owned_def owners_def n)
  then obtain j where j: "j < n" "responsible m (pc (thr s j)) \<or> releaser m (pc (thr s j))"
    using w \<open>i < n\<close> \<open>asleep m (pc (thr s i))\<close> n unfolding wake_inv_def by metis
  then have "sleeping_on (pc (thr s j)) = None" using on_duty_awake by blast
  with assms(2) j show False by auto
qed

section \<open>Mixing lockers inside and outside segments\<close>

text \<open>The delay of the slow unlock, as a block of events.\<close>

definition delay_events :: "tid \<Rightarrow> nat \<Rightarrow> event list" where
  "delay_events i k = replicate (Suc k) (Runs i quiet)"

lemma run_delay:
  "i < nthreads s \<Longrightarrow> pc (thr s i) = In_unlock (U_delay k) m c \<Longrightarrow>
   run_events ok (delay_events i k) s = Some (go i (In_unlock U_check2 m c) s)"
proof (induction k arbitrary: s)
  case 0
  then show ?case by (simp add: delay_events_def run_event_def thread_step_def delay_ticks_step_def)
next
  case (Suc k)
  let ?s = "go i (In_unlock (U_delay k) m c) s"
  have "run_events ok (delay_events i (Suc k)) s = run_events ok (delay_events i k) ?s"
    using Suc.prems
    by (simp add: delay_events_def run_event_def thread_step_def delay_ticks_step_def)
  also have "\<dots> = Some (go i (In_unlock U_check2 m c) ?s)" using Suc by simp
  also have "go i (In_unlock U_check2 m c) ?s = go i (In_unlock U_check2 m c) s"
    by (simp add: go_def upd_thr_def)
  finally show ?case .
qed

definition at_time :: "u64 \<Rightarrow> ext" where
  "at_time t = quiet\<lparr>ticks := t\<rparr>"

definition waking :: "tid \<Rightarrow> ext" where
  "waking j = quiet\<lparr>wake := Some j\<rparr>"

text \<open>
  Thread 1 is in a segment, thread 2 is not. Both go to sleep on mutex 5, which thread 0
  holds and releases; the kernel wakes thread 1.
\<close>

definition mixed_start :: "event list" where
  "mixed_start = [Calls 1 (Seg_start 0 0)]"

definition mixed_prefix :: "event list" where
  "mixed_prefix =
     [Calls 0 (Lock 5), Runs 0 quiet,
      Calls 1 (Lock 5), Runs 1 quiet, Runs 1 quiet, Runs 1 quiet, Runs 1 (at_time 10000),
      Runs 1 quiet, Runs 1 quiet,
      Calls 2 (Lock 5), Runs 2 quiet, Runs 2 quiet, Runs 2 quiet, Runs 2 (at_time 10000),
      Runs 2 quiet, Runs 2 quiet, Runs 2 quiet,
      Calls 0 (Unlock 5), Runs 0 quiet, Runs 0 quiet, Runs 0 quiet, Runs 0 quiet]"

definition mixed_suffix :: "event list" where
  "mixed_suffix =
     [Runs 0 quiet, Runs 0 quiet, Runs 0 quiet, Runs 0 quiet, Runs 0 (waking 1),
      Runs 1 quiet, Runs 1 quiet, Calls 1 (Unlock 5), Runs 1 quiet, Runs 1 quiet]"

text \<open>The state after the segment has been entered, with what matters of thread 1's segments.\<close>

definition in_segment :: "tls \<Rightarrow> bool" where
  "in_segment l \<longleftrightarrow> cur_segment_id l = 0 \<and> (\<exists>ts. segment_timeout l = Some ts \<and> timespec_valid ts) \<and>
     (\<exists>l'. mark_waiter l = Inr l')"

definition mixed_state :: "tls \<Rightarrow> sys" where
  "mixed_state l = upd_thr 1 (\<lambda>t. t\<lparr>pc := Idle, ret := 0, local := l\<rparr>) (init_sys 3)"

abbreviation any_op :: "tid \<Rightarrow> op \<Rightarrow> sys \<Rightarrow> bool" where
  "any_op \<equiv> \<lambda>_ _ _. True"

lemma mixed_start_result:
  "\<exists>l. run_events any_op mixed_start (init_sys 3) = Some (mixed_state l) \<and> in_segment l"
proof -
  let ?t = "htll_thread_start fresh_tls"
  have len: "length (segment fresh_tls) = nat MAX_SEGMENT" by (simp add: fresh_tls_def)
  have ok: "tls_ok ?t" by (rule htll_thread_start_ok [OF tls_ok_fresh])
  have sp: "stack_pos ?t = -1" "cur_segment_id ?t = -1" "segment ?t = map (\<lambda>sg. sg\<lparr>wait_time := DEFAULT_REORDER,
      unit := DEFAULT_ADJUST_UNIT\<rparr>) (segment fresh_tls)"
    by (simp_all add: htll_thread_start_map [OF len]) (simp_all add: fresh_tls_def)
  define l where "l = ?t\<lparr>stack_pos := stack_pos ?t + 1,
      segment_stack := (segment_stack ?t)[nat (stack_pos ?t + 1) := cur_segment_id ?t],
      cur_segment_id := 0,
      segment := (segment ?t)[nat 0 := (segment ?t ! nat 0)\<lparr>start_ts := 0\<rparr>]\<rparr>"
  have "segment_start 0 0 ?t = Inr (0, l)"
    unfolding l_def by (rule segment_start_ok [OF ok]) (simp_all add: sp seg_consts)
  then have "run_events any_op mixed_start (init_sys 3) = Some (mixed_state l)"
    by (simp add: mixed_start_def mixed_state_def run_event_def seg_call_def init_sys_def
        init_thread_def return_def upd_thr_def)
  moreover have "segment_timeout l = Some (0, sint DEFAULT_REORDER)" "cur_segment_id l = 0"
    by (simp_all add: l_def segment_timeout_alt sp len seg_consts)
  moreover have "tls_ok l"
    unfolding l_def by (rule tls_ok_started [OF ok]) (simp_all add: sp seg_consts)
  then have "\<exists>l'. mark_waiter l = Inr l'"
    using mark_waiter_in [of l] \<open>cur_segment_id l = 0\<close> by simp
  ultimately show ?thesis
    by (auto simp: in_segment_def timespec_valid_def seg_consts)
qed

definition stranded :: "sys \<Rightarrow> bool" where
  "stranded s \<longleftrightarrow> nthreads s = 3 \<and> lock_word 5 s = 0 \<and> pc (thr s 0) = Idle \<and> pc (thr s 1) = Idle \<and>
     held (thr s 0) = {} \<and> held (thr s 1) = {} \<and> pc (thr s 2) = In_lock L_sleep 5"

text \<open>What stage of the schedule the middle is: thread 0 in the delay of its unlock.\<close>

definition before_delay :: "sys \<Rightarrow> bool" where
  "before_delay s \<longleftrightarrow> nthreads s = 3 \<and> lock_word 5 s = 256 \<and>
     pc (thr s 0) = In_unlock (U_delay 128) 5 From_api \<and> held (thr s 0) = {} \<and>
     pc (thr s 1) = In_lock L_tsleep 5 \<and> held (thr s 1) = {} \<and> in_segment (local (thr s 1)) \<and>
     pc (thr s 2) = In_lock L_sleep 5"

lemma mixed_prefix_result:
  assumes "in_segment l"
  shows "\<exists>s. run_events any_op mixed_prefix (mixed_state l) = Some s \<and> before_delay s"
proof -
  obtain ts where "cur_segment_id l = 0" "segment_timeout l = Some ts" "timespec_valid ts"
    using assms by (auto simp: in_segment_def)
  moreover have "cur_segment_id (htll_thread_start fresh_tls) = -1"
    by (simp add: htll_thread_start_def)
  ultimately show ?thesis
    using assms
    by (simp add: mixed_prefix_def mixed_state_def before_delay_def run_defs at_time_def
        htll_mutex_create_def lock_consts set_locked_def cycles_exceeded_def count_unlock_def
        tune_consts HTLL_SPIN_TRIES_UNLOCK_def Let_def)
qed

lemma mixed_suffix_result:
  assumes "before_delay s"
  shows "\<exists>s'. run_events any_op mixed_suffix (go 0 (In_unlock U_check2 5 From_api) s) = Some s' \<and>
    stranded s'"
proof -
  from assms obtain l' where l': "mark_waiter (local (thr s (Suc 0))) = Inr l'"
    by (auto simp: before_delay_def in_segment_def)
  have "set_contended 0 256 = 0" "set_locked 1 0 = 1" by (simp_all add: set_contended_def set_locked_def)
  then show ?thesis
    using assms l'
    by (simp add: mixed_suffix_def before_delay_def stranded_def run_event_def thread_step_def
        swap8_or_def acquired_def unlocked_def htll_swap_uint8_def sync_cas32_def
        lock_consts waking_def quiet_def futex_wake1_def sleepers_def Let_def lock_word_def [symmetric])
qed

text \<open>Somebody else locks the mutex and unlocks it again, undisturbed.\<close>

definition lock_and_unlock :: "tid \<Rightarrow> event list" where
  "lock_and_unlock i =
     [Calls i (Lock 5), Runs i quiet, Calls i (Unlock 5), Runs i quiet, Runs i quiet]"

lemma stranded_round:
  assumes "stranded s" and "i = 0 \<or> i = 1"
  shows "\<exists>s'. run_events any_op (lock_and_unlock i) s = Some s' \<and> stranded s'"
proof -
  have "set_locked 1 0 = 1" by (simp add: set_locked_def)
  with assms show ?thesis
    by (elim disjE)
      (simp_all add: lock_and_unlock_def stranded_def run_event_def thread_step_def lock_enter_def
        swap8_or_def acquired_def unlocked_def htll_swap_uint8_def sync_cas32_def lock_consts
        lock_word_def [symmetric])
qed

lemma stranded_rounds:
  "stranded s \<Longrightarrow> set js \<subseteq> {0, 1} \<Longrightarrow>
   \<exists>s'. run_events any_op (concat (map lock_and_unlock js)) s = Some s' \<and> stranded s'"
proof (induction js arbitrary: s)
  case (Cons j js)
  from Cons.prems obtain s1 where s1: "run_events any_op (lock_and_unlock j) s = Some s1" "stranded s1"
    using stranded_round [of s j] by auto
  with Cons.IH [of s1] Cons.prems show ?case by (simp add: run_events_append)
qed simp

text \<open>Nobody has a step of his own in this state.\<close>

lemma stranded_events:
  assumes "stranded s" and "run_event any_op ev s = Some s'"
  shows "(\<exists>i x. ev = Calls i x) \<or> ev = Unblocks 2"
proof -
  have "i < 3 \<Longrightarrow> i = 0 \<or> i = 1 \<or> i = 2" for i :: nat by auto
  with assms show ?thesis
    by (cases ev) (fastforce simp: stranded_def run_event_def thread_step_def split: if_splits)+
qed

lemma stranded_reachable: "\<exists>s. reachable 3 s \<and> stranded s"
proof -
  obtain l where l: "run_events any_op mixed_start (init_sys 3) = Some (mixed_state l)" "in_segment l"
    using mixed_start_result by blast
  obtain s where s: "run_events any_op mixed_prefix (mixed_state l) = Some s" "before_delay s"
    using mixed_prefix_result [OF l(2)] by blast
  obtain s' where s': "run_events any_op mixed_suffix (go 0 (In_unlock U_check2 5 From_api) s) = Some s'"
    "stranded s'"
    using mixed_suffix_result [OF s(2)] by blast
  have "run_events any_op (mixed_start @ mixed_prefix @ delay_events 0 128 @ mixed_suffix) (init_sys 3)
      = Some s'"
    using l(1) s s' run_delay [of 0 s 128 5 From_api any_op]
    by (simp add: run_events_append before_delay_def)
  with s'(2) show ?thesis by (blast intro: run_events_reachable)
qed

text \<open>
  C37. Without the discipline a wake-up can be lost: with one locker inside a segment and one
  outside, a reachable state has the mutex free, nobody else in the library, and the thread
  outside the segment asleep on the mutex without a timeout. (The woken thread of the
  segment takes the lock with the byte exchange, after the contended byte was cleared, and
  its own unlock takes the fast path.) Nothing can happen in this state but a new call of another
  thread, or a return of the blocked futex call that nobody has caused; and the others may lock the mutex and
  unlock it again, one after the other, as often as they like: the thread is still asleep, and
  the mutex free, after any number of rounds.
\<close>

theorem mixed_lockers_strand_a_sleeper:
  "\<exists>s. reachable 3 s \<and> lock_word 5 s = 0 \<and>
     pc (thr s 0) = Idle \<and> held (thr s 0) = {} \<and> pc (thr s 1) = Idle \<and> held (thr s 1) = {} \<and>
     pc (thr s 2) = In_lock L_sleep 5 \<and>
     (\<forall>ev s'. run_event any_op ev s = Some s' \<longrightarrow> (\<exists>i x. ev = Calls i x) \<or> ev = Unblocks 2) \<and>
     (\<forall>js. set js \<subseteq> {0, 1} \<longrightarrow>
        (\<exists>s'. run_events any_op (concat (map lock_and_unlock js)) s = Some s' \<and> lock_word 5 s' = 0 \<and>
           pc (thr s' 2) = In_lock L_sleep 5))"
proof -
  obtain s where s: "reachable 3 s" "stranded s" using stranded_reachable by blast
  have "\<exists>s'. run_events any_op (concat (map lock_and_unlock js)) s = Some s' \<and> lock_word 5 s' = 0 \<and>
      pc (thr s' 2) = In_lock L_sleep 5" if "set js \<subseteq> {0, 1}" for js
    using stranded_rounds [OF s(2) that] by (auto simp: stranded_def)
  moreover have "lock_word 5 s = 0 \<and> pc (thr s 0) = Idle \<and> held (thr s 0) = {} \<and> pc (thr s 1) = Idle \<and>
      held (thr s 1) = {} \<and> pc (thr s 2) = In_lock L_sleep 5"
    using s(2) by (simp add: stranded_def)
  ultimately show ?thesis using s(1) stranded_events [OF s(2)] by (intro exI [of _ s]) blast
qed

theorem mixed_lockers_strand_a_sleeper_witness:
  "\<exists>s s'. reachable 3 s \<and> run_events any_op (lock_and_unlock 0 @ lock_and_unlock 1 @ lock_and_unlock 1) s = Some s' \<and>
     pc (thr s 2) = In_lock L_sleep 5 \<and> lock_word 5 s' = 0 \<and> pc (thr s' 2) = In_lock L_sleep 5"
proof -
  obtain s where "reachable 3 s" "pc (thr s 2) = In_lock L_sleep 5"
    "\<forall>js. set js \<subseteq> {0, 1} \<longrightarrow>
       (\<exists>s'. run_events any_op (concat (map lock_and_unlock js)) s = Some s' \<and> lock_word 5 s' = 0 \<and>
           pc (thr s' 2) = In_lock L_sleep 5)"
    using mixed_lockers_strand_a_sleeper by blast
  from this(1,2) this(3) [rule_format, of "[0, 1, 1]"] show ?thesis by auto
qed

text \<open>The untimed schedules in which a thread sleeps and the holder has not yet unlocked.\<close>

definition blocked_run :: "event list" where
  "blocked_run =
     [Calls 0 (Lock 5), Runs 0 quiet,
      Calls 1 (Lock 5), Runs 1 quiet, Runs 1 quiet, Runs 1 quiet, Runs 1 (at_time 10000),
      Runs 1 quiet, Runs 1 quiet, Runs 1 quiet]"

lemma blocked_run_result:
  "\<exists>s. reach (initial 2) (sys_step untimed) s \<and> pc (thr s 0) = Idle \<and>
     held (thr s 0) = {5} \<and> held (thr s 1) = {} \<and> asleep 5 (pc (thr s 1))"
proof -
  have "cur_segment_id (htll_thread_start fresh_tls) = -1"
    by (simp add: htll_thread_start_def)
  then have "\<exists>s. run_events untimed blocked_run (init_sys 2) = Some s \<and> pc (thr s 0) = Idle \<and>
      held (thr s 0) = {5} \<and> held (thr s 1) = {} \<and> asleep 5 (pc (thr s 1))"
    by (simp add: blocked_run_def run_defs at_time_def htll_mutex_create_def lock_consts
        set_locked_def cycles_exceeded_def tune_consts untimed_def)
  then show ?thesis
    by (blast intro: run_events_reach reach_init initial_init_sys)
qed

theorem no_lost_wakeup_witness:
  "\<exists>s. reach (initial 2) (sys_step untimed) s \<and> asleep 5 (pc (thr s 1)) \<and>
     ((\<exists>j<2. 5 \<in> held (thr s j)) \<or>
      (\<exists>j<2. sleeping_on (pc (thr s j)) = None \<and>
         (waker 5 (pc (thr s j)) \<or> retrier 5 (pc (thr s j)) \<or> releaser 5 (pc (thr s j)))))"
proof -
  obtain s where s: "reach (initial 2) (sys_step untimed) s" "asleep 5 (pc (thr s 1))"
    using blocked_run_result by blast
  with no_lost_wakeup [OF s(1) _ s(2)] show ?thesis by auto
qed

theorem quiescent_no_sleeper_witness:
  "\<exists>s. reach (initial 2) (sys_step untimed) s \<and> asleep 5 (pc (thr s 1)) \<and>
     (\<forall>i<2. sleeping_on (pc (thr s i)) \<noteq> Some (Mutex_word 6))"
proof -
  obtain s where s: "reach (initial 2) (sys_step untimed) s" "pc (thr s 0) = Idle"
    "held (thr s 0) = {5}" "held (thr s 1) = {}" "asleep 5 (pc (thr s 1))"
    using blocked_run_result by blast
  have "\<forall>j<2. pc (thr s j) = Idle \<or> sleeping_on (pc (thr s j)) \<noteq> None"
    "\<forall>j<2. 6 \<notin> held (thr s j)"
    using s(2-5) by (auto simp: numeral_2_eq_2 less_Suc_eq)
  with quiescent_no_sleeper [OF s(1)] s(1,5) show ?thesis by blast
qed

end
