(* ===== verification/Progress.thy ===== *)
theory Progress
  imports CondVar
begin

text \<open>
  Results and progress of the single operations: what a return of lock, trylock and the
  condition waits means, the bound on the steps of an unlock, the steps a lock needs once
  the mutex is free, and that no thread that is not blocked in the kernel gets stuck.
\<close>

section \<open>What a return means\<close>

lemma swap_or_returns:
  assumes "\<And>s. pc (thr (fail s) i) \<noteq> Idle" and "lw_ok (lock_word m s)"
  shows "pc (thr (swap8_or i m fail s) i) = Idle \<Longrightarrow>
      swap8_or i m fail s = acquired i m 0 (put_word m (fst (take8 (lock_word m s))) s) \<and>
      locked (lock_word m s) = 0"
    "pc (thr (swap32_or i m r fail s) i) = Idle \<Longrightarrow>
      swap32_or i m r fail s = acquired i m r (put_word m (fst (take32 (lock_word m s))) s) \<and>
      locked (lock_word m s) = 0"
  using assms(1) byte_lock.take_result [OF assms(2)] word_lock.take_result [OF assms(2)]
  by (auto simp: swap8_or_eq swap32_or_eq Let_def split: if_splits)

lemma took8: "lw_ok u \<Longrightarrow> locked (fst (take8 u)) = 1"
  by (simp add: take8_def htll_swap_uint8_def lock_consts)

lemma took32: "lw_ok u \<Longrightarrow> locked (fst (take32 u)) = 1"
  by (simp add: take32_def htll_swap_uint32_def lock_consts)

definition took :: "tid \<Rightarrow> maddr \<Rightarrow> int \<Rightarrow> sys \<Rightarrow> sys \<Rightarrow> bool" where
  "took i m r s s' \<longleftrightarrow> ret (thr s' i) = r \<and> held (thr s' i) = insert m (held (thr s i)) \<and>
     locked (lock_word m s) = 0 \<and> locked (lock_word m s') = 1"

lemma swap_or_took:
  assumes "\<And>s. pc (thr (fail s) i) \<noteq> Idle" and "lw_ok (lock_word m s)"
  shows "pc (thr (swap8_or i m fail s) i) = Idle \<Longrightarrow> took i m 0 s (swap8_or i m fail s)"
    "pc (thr (swap32_or i m r fail s) i) = Idle \<Longrightarrow> took i m r s (swap32_or i m r fail s)"
proof -
  assume "pc (thr (swap8_or i m fail s) i) = Idle"
  with swap_or_returns(1) [of fail i m s, OF assms] took8 [OF assms(2)]
  show "took i m 0 s (swap8_or i m fail s)" by (simp add: took_def acquired_def)
next
  assume "pc (thr (swap32_or i m r fail s) i) = Idle"
  with swap_or_returns(2) [of fail i m s r, OF assms] took32 [OF assms(2)]
  show "took i m r s (swap32_or i m r fail s)" by (simp add: took_def acquired_def)
qed

text \<open>
  C18. A call of lock returns only in the step that takes the mutex: the result is 0, the
  mutex was free before the step and is taken after it, and the caller holds it.
\<close>

theorem lock_returns_holding:
  assumes "reachable n s" and "pc (thr s i) = In_lock p m"
    and "thread_step e i s = Some s'" and "pc (thr s' i) = Idle"
  shows "took i m 0 s s'"
proof -
  have "lw_ok (lock_word m s)"
    using reachable_mutex_inv [OF assms(1)] by (simp add: mutex_inv_def word_inv_def owned_def)
  note sw = swap_or_took [where m = m and s = s and i = i, OF _ this]
  show ?thesis
    using assms(2-)
    by (cases p) (auto simp: thread_step_def intro!: sw split: option.splits sum.splits if_splits)
qed

text \<open>
  C19. The try-lock takes one step and never waits: 0 and the mutex if its word said free,
  \<open>EBUSY\<close> and no change of the word otherwise.
\<close>

theorem trylock_result:
  assumes "reachable n s" and "pc (thr s i) = In_trylock m"
  shows "\<exists>s'. thread_step e i s = Some s' \<and> pc (thr s' i) = Idle \<and>
    (if locked (lock_word m s) = 0 then took i m 0 s s'
     else ret (thr s' i) = EBUSY \<and> held (thr s' i) = held (thr s i) \<and>
       lock_word m s' = lock_word m s)"
proof -
  have lw: "lw_ok (lock_word m s)"
    using reachable_mutex_inv [OF assms(1)] by (simp add: mutex_inv_def word_inv_def owned_def)
  have same: "set_locked 1 (lock_word m s) = lock_word m s" if "locked (lock_word m s) \<noteq> 0"
    using lw that by (cases rule: lw_ok_cases) (simp_all add: set_locked_def)
  show ?thesis
    using assms(2) byte_lock.take_result [OF lw] took8 [OF lw] same
    by (auto simp: thread_step_def trylock_step_def swap8_or_eq Let_def took_def acquired_def
        take8_def htll_swap_uint8_def lock_consts)
qed

text \<open>
  C20. A condition wait returns either \<open>EINVAL\<close>, before it has unlocked anything and with
  the mutex still held, or in the step that takes the mutex again, with the result of the
  wait (0, or \<open>ETIMEDOUT\<close> when a clock reading showed the deadline passed).
\<close>

theorem wait_returns_holding:
  assumes "reachable n s" and "i < n" and "pc (thr s i) = In_wait p c m d"
    and "thread_step e i s = Some s'" and "pc (thr s' i) = Idle"
  shows "m \<in> held (thr s' i) \<and>
    (ret (thr s' i) = EINVAL \<and> held (thr s' i) = held (thr s i) \<and> mtx s' = mtx s \<and> cnd s' = cnd s \<or>
     took i m (wret (thr s i)) s s')"
proof -
  have inv: "mutex_inv s" "nthreads s = n"
    using assms(1) reachable_mutex_inv reachable_nthreads unfolding reachable_def by blast+
  then have lw: "lw_ok (lock_word m s)" by (simp add: mutex_inv_def word_inv_def owned_def)
  have held: "must_hold (pc (thr s i)) = Some m \<longrightarrow> m \<in> held (thr s i)"
    using inv assms(2) by (auto simp: mutex_inv_def thread_inv_def)
  show ?thesis
  proof (cases "p = W_relock")
    case True
    then have s': "s' = swap32_or i m (wret (thr s i)) (go i (In_wait W_mwait c m d)) s"
      using assms(3,4) by (simp add: thread_step_def)
    have "took i m (wret (thr s i)) s s'"
      unfolding s' using assms(5) s' lw by (intro swap_or_took) auto
    then show ?thesis by (simp add: took_def)
  next
    case False
    then show ?thesis
      using assms(3-) held
      by (cases p) (auto simp: thread_step_def Let_def unlocked_def after_cond_futex_def
          split: option.splits sum.splits if_splits)
  qed
qed

lemmas small_run = run_defs htll_mutex_create_def lock_consts set_locked_def upmutex_cond1_init_def

theorem lock_returns_holding_witness:
  "\<exists>s s'. reachable 2 s \<and> pc (thr s 0) = In_lock L_try 5 \<and> thread_step quiet 0 s = Some s' \<and>
     pc (thr s' 0) = Idle \<and> took 0 5 0 s s'"
proof -
  obtain s where s: "run_events (\<lambda>_ _ _. True) [Calls 0 (Lock 5)] (init_sys 2) = Some s"
    and p: "pc (thr s 0) = In_lock L_try 5" and w: "lock_word 5 s = 0"
    by (simp add: small_run)
  have r: "reachable 2 s" using s by (rule run_events_reachable)
  obtain s' where s': "thread_step quiet 0 s = Some s'" "pc (thr s' 0) = Idle"
    using p w by (simp add: thread_step_def swap8_or_def htll_swap_uint8_def lock_consts acquired_def)
  from r p s' lock_returns_holding [OF r p s'] show ?thesis by blast
qed

theorem trylock_result_witness:
  "\<exists>s s'. reachable 2 s \<and> locked (lock_word 5 s) \<noteq> 0 \<and> pc (thr s 1) = In_trylock 5 \<and>
     thread_step quiet 1 s = Some s' \<and> pc (thr s' 1) = Idle \<and> ret (thr s' 1) = EBUSY"
proof -
  obtain s where s: "run_events (\<lambda>_ _ _. True) [Calls 0 (Lock 5), Runs 0 quiet, Calls 1 (Trylock 5)]
      (init_sys 2) = Some s"
    and p: "pc (thr s 1) = In_trylock 5" and w: "lock_word 5 s = 1"
    by (simp add: small_run)
  have r: "reachable 2 s" using s by (rule run_events_reachable)
  with p w trylock_result [OF r p, of quiet] show ?thesis by auto
qed

theorem wait_returns_holding_witness:
  "\<exists>s s'. reachable 2 s \<and> pc (thr s 0) = In_wait W_relock 3 5 None \<and>
     thread_step quiet 0 s = Some s' \<and> pc (thr s' 0) = Idle \<and> 5 \<in> held (thr s' 0)"
proof -
  obtain s0 where s0: "reachable 2 s0" "pc (thr s0 0) = In_wait W_sleep 3 5 None" "lock_word 5 s0 = 0"
    using wait_run_result by blast
  let ?s = "awaken 0 s0"
  have "sys_step (\<lambda>_ _ _. True) s0 ?s"
    using s0 reachable_nthreads unfolding reachable_def by (intro sys_step.unblocks) auto
  with s0(1) have r: "reachable 2 ?s" unfolding reachable_def by (blast intro: reach.intros(2))
  have p: "pc (thr ?s 0) = In_wait W_relock 3 5 None" using s0(2) by (simp add: after_cond_futex_def)
  have lw: "lw_ok (lock_word 5 ?s)" using s0(3) by simp
  obtain s' where s': "thread_step quiet 0 ?s = Some s'" "pc (thr s' 0) = Idle"
    using p s0(3) by (simp add: thread_step_def swap32_or_def htll_swap_uint32_def lock_consts acquired_def)
  from r p s' wait_returns_holding [OF r _ p s'] show ?thesis by auto
qed

section \<open>The unlock is wait-free\<close>

fun unlock_rank :: "unlock_pc \<Rightarrow> nat" where
  "unlock_rank U_load = 144"
| "unlock_rank U_cas = 143"
| "unlock_rank U_count = 142"
| "unlock_rank U_adjust = 141"
| "unlock_rank U_adjust2 = 140"
| "unlock_rank (U_tload d) = 139"
| "unlock_rank (U_tstore v) = 138"
| "unlock_rank U_reset = 137"
| "unlock_rank U_store = 136"
| "unlock_rank U_check1 = 135"
| "unlock_rank (U_delay n) = 6 + n"
| "unlock_rank U_check2 = 5"
| "unlock_rank U_clear = 4"
| "unlock_rank U_wload = 3"
| "unlock_rank U_wstore = 2"
| "unlock_rank U_wake = 1"

lemma unlock_rank_pos: "0 < unlock_rank p"
  by (cases p) simp_all

text \<open>Every step of the unlock brings it nearer to its return.\<close>

definition unlock_near :: "tid \<Rightarrow> maddr \<Rightarrow> nat \<Rightarrow> sys \<Rightarrow> bool" where
  "unlock_near i m r s \<longleftrightarrow>
     pc (thr s i) = Idle \<and> ret (thr s i) = 0 \<or>
     (\<exists>p. pc (thr s i) = In_unlock p m From_api \<and> unlock_rank p \<le> r)"

lemma unlock_step_rank:
  assumes "unlock_step e i m From_api p s = Some s'" and "pc (thr s i) = In_unlock p m From_api"
  shows "unlock_near i m (unlock_rank p - 1) s'"
  using assms
  by (cases p) (auto simp: unlock_near_def unlocked_def sync_cas32_def case_prod_beta
      HTLL_SPIN_TRIES_UNLOCK_def delay_ticks_step_def split: option.splits if_splits)

text \<open>How often a thread runs in a schedule.\<close>

definition own_steps :: "tid \<Rightarrow> event list \<Rightarrow> nat" where
  "own_steps i evs = length (filter (\<lambda>ev. \<exists>e. ev = Runs i e) evs)"

lemma own_steps_simps [simp]:
  "own_steps i [] = 0"
  "own_steps i (ev # evs) = (case ev of Runs j e \<Rightarrow> if j = i then 1 else 0 | _ \<Rightarrow> 0) + own_steps i evs"
  by (auto simp: own_steps_def split: event.split)

lemma unlock_near_event:
  assumes "run_event ok ev s = Some s'" and "\<forall>x. ev \<noteq> Calls i x" and "unlock_near i m r s"
  shows "unlock_near i m (r - (case ev of Runs j e \<Rightarrow> if j = i then 1 else 0 | _ \<Rightarrow> 0)) s' \<and>
    (case ev of Runs j e \<Rightarrow> j = i \<longrightarrow> 0 < r | _ \<Rightarrow> True)"
proof (cases "\<exists>e. ev = Runs i e")
  case True
  then obtain e where e: "ev = Runs i e" ..
  with assms(1) have st: "thread_step e i s = Some s'" by (auto simp: run_event_def split: if_splits)
  with assms(3) obtain p where p: "pc (thr s i) = In_unlock p m From_api" "unlock_rank p \<le> r"
    by (auto simp: unlock_near_def thread_step_def)
  with st have "unlock_near i m (unlock_rank p - 1) s'"
    by (intro unlock_step_rank [of e i m p s]) (simp_all add: thread_step_def)
  with p(2) e unlock_rank_pos [of p] show ?thesis by (force simp: unlock_near_def)
next
  case False
  have "sleeping_on (pc (thr s i)) = None" using assms(3) by (auto simp: unlock_near_def)
  moreover have "moved (thr s i) (thr s' i)"
  proof (cases ev)
    case (Calls j x)
    with assms(1,2) call_frame(2) [of i j x s] show ?thesis
      by (auto simp: run_event_def split: if_splits)
  next
    case (Runs j e)
    with assms(1) False show ?thesis
      by (auto simp: run_event_def split: if_splits intro: thread_step_frame(2))
  next
    case (Unblocks j)
    with assms(1) show ?thesis
      by (auto simp: run_event_def split: if_splits intro: moves_thr only_moves_awaken)
  qed
  ultimately have "thr s' i = thr s i" using moved_busy by blast
  with assms(3) False show ?thesis by (auto simp: unlock_near_def split: event.split)
qed

lemma unlock_near_events:
  "run_events ok evs s = Some s' \<Longrightarrow> \<forall>x. Calls i x \<notin> set evs \<Longrightarrow> unlock_near i m r s \<Longrightarrow>
   own_steps i evs \<le> r \<and> unlock_near i m (r - own_steps i evs) s'"
proof (induction evs arbitrary: s r)
  case (Cons ev evs)
  then obtain s1 where s1: "run_event ok ev s = Some s1" "run_events ok evs s1 = Some s'"
    by (auto split: option.splits)
  let ?k = "case ev of Runs j e \<Rightarrow> if j = i then 1 else 0 | _ \<Rightarrow> 0"
  have "\<forall>x. ev \<noteq> Calls i x" using Cons.prems(2) by auto
  from unlock_near_event [OF s1(1) this Cons.prems(3)]
  have near: "unlock_near i m (r - ?k) s1" and k: "?k \<le> r"
    by (auto split: event.splits if_splits)
  have "own_steps i evs \<le> r - ?k \<and> unlock_near i m (r - ?k - own_steps i evs) s'"
    using Cons.IH [OF s1(2) _ near] Cons.prems(2) by simp
  then have "own_steps i evs \<le> r - ?k" "unlock_near i m (r - (?k + own_steps i evs)) s'"
    by (simp_all only: diff_diff_left conj_commute)
  moreover from this(1) k have "?k + own_steps i evs \<le> r" by linarith
  ultimately show ?case by (simp only: own_steps_simps)
qed simp

lemma futex_wake1_enabled: "\<exists>w s'. futex_wake1 a w s = Some s'"
proof (cases "sleepers a s")
  case Nil
  then have "futex_wake1 a None s = Some s" by (simp add: futex_wake1_def)
  then show ?thesis by blast
next
  case (Cons j js)
  then have "futex_wake1 a (Some j) s = Some (awaken j s)" by (simp add: futex_wake1_def)
  then show ?thesis by blast
qed

lemma wake_choice: "\<exists>e s'. futex_wake1 a (wake e) s = Some s'"
  using futex_wake1_enabled [of a s] by (metis ext.select_convs(3))

lemma unlock_enabled: "\<exists>e s'. unlock_step e i m k p s = Some s'"
  using wake_choice [of "Mutex_word m" s] by (cases p) auto

text \<open>
  C12. The unlock is wait-free: whatever the other threads do, a thread that calls unlock has
  returned 0 after at most 144 of its own steps (the 129 tests of the delay loop and at most
  15 others), and until then it can always take a step.
\<close>

theorem unlock_wait_free:
  assumes "pc (thr s i) = In_unlock U_load m From_api"
    and "run_events ok evs s = Some s'" and "\<forall>x. Calls i x \<notin> set evs"
  shows "own_steps i evs \<le> 144 \<and>
    (if own_steps i evs = 144 \<or> pc (thr s' i) = Idle
     then pc (thr s' i) = Idle \<and> ret (thr s' i) = 0
     else (\<exists>p. pc (thr s' i) = In_unlock p m From_api) \<and> (\<exists>e s''. thread_step e i s' = Some s''))"
proof -
  have "unlock_near i m 144 s" using assms(1) by (simp add: unlock_near_def)
  from unlock_near_events [OF assms(2,3) this]
  have k: "own_steps i evs \<le> 144" and near: "unlock_near i m (144 - own_steps i evs) s'" by auto
  from near consider "pc (thr s' i) = Idle" "ret (thr s' i) = 0" |
    p where "pc (thr s' i) = In_unlock p m From_api" "unlock_rank p \<le> 144 - own_steps i evs"
    by (auto simp: unlock_near_def)
  then show ?thesis
  proof cases
    case 1
    with k show ?thesis by simp
  next
    case (2 p)
    with unlock_rank_pos [of p] have "own_steps i evs \<noteq> 144" by simp
    with 2 k unlock_enabled [of i m From_api p s'] show ?thesis by (simp add: thread_step_def)
  qed
qed

theorem unlock_wait_free_witness:
  "\<exists>s s'. pc (thr s 0) = In_unlock U_load 5 From_api \<and>
     run_events (\<lambda>_ _ _. True) [Runs 0 quiet, Calls 1 (Lock 5), Runs 1 quiet, Runs 0 quiet] s = Some s' \<and>
     pc (thr s' 0) = Idle \<and> ret (thr s' 0) = 0"
proof -
  let ?s = "go 0 (In_unlock U_load 5 From_api) (put_word 5 1 (init_sys 2))"
  let ?evs = "[Runs 0 quiet, Calls 1 (Lock 5), Runs 1 quiet, Runs 0 quiet]"
  have p: "pc (thr ?s 0) = In_unlock U_load 5 From_api" by simp
  obtain s' where r: "run_events (\<lambda>_ _ _. True) ?evs ?s = Some s'" and q: "pc (thr s' 0) = Idle"
    by (simp add: small_run)
  with unlock_wait_free [OF p r] have "ret (thr s' 0) = 0" by simp
  with p r q show ?thesis by blast
qed

text \<open>
  The steps \<open>U_adjust\<close> to \<open>U_reset\<close>, when nobody else counts a wake-up between them, are the
  function \<open>adjust_spin_ticks\<close> of \<open>HtllMutex\<close>.
\<close>

lemma adjust_steps_alone:
  assumes "i < nthreads s" and "pc (thr s i) = In_unlock U_adjust m k"
  shows "\<exists>n\<le>5. \<exists>s'. run_events ok (replicate n (Runs i e)) s = Some s' \<and>
    pc (thr s' i) = In_unlock U_store m k \<and> mtx s' = (mtx s)(m := adjust_spin_ticks (mtx s m))"
proof -
  let ?r = "\<lambda>n. \<exists>s'. run_events ok (replicate n (Runs i e)) s = Some s' \<and>
    pc (thr s' i) = In_unlock U_store m k \<and> mtx s' = (mtx s)(m := adjust_spin_ticks (mtx s m))"
  consider (more) "cnt_wake (mtx s m) > WAKE_MAX_THRESHOLD"
    | (less) "\<not> cnt_wake (mtx s m) > WAKE_MAX_THRESHOLD" "cnt_wake (mtx s m) < WAKE_MIN_THRESHOLD"
    | (same) "\<not> cnt_wake (mtx s m) > WAKE_MAX_THRESHOLD" "\<not> cnt_wake (mtx s m) < WAKE_MIN_THRESHOLD"
    by blast
  then show ?thesis
  proof cases
    case more
    with assms have "?r 4"
      by (simp add: numeral_eq_Suc run_event_def thread_step_def adjust_spin_ticks_def upd_mtx_def)
    then show ?thesis by (intro exI [of _ 4]) simp
  next
    case less
    with assms have "?r 5"
      by (simp add: numeral_eq_Suc run_event_def thread_step_def adjust_spin_ticks_def upd_mtx_def)
    then show ?thesis by (intro exI [of _ 5]) simp
  next
    case same
    with assms have "?r 3"
      by (simp add: numeral_eq_Suc run_event_def thread_step_def adjust_spin_ticks_def upd_mtx_def)
    then show ?thesis by (intro exI [of _ 3]) simp
  qed
qed

section \<open>A lock on a free mutex\<close>

lemma lock_word_free:
  assumes "lw_ok u" and "locked u = 0"
  shows "take8 u = (set_locked 1 u, True)" "take32 u = (257, True)" "u \<noteq> 257"
  using assms
  by (auto simp: take8_def take32_def htll_swap_uint8_def htll_swap_uint32_def lock_consts lw_ok_def)

lemma runs_Cons:
  "i < nthreads s \<Longrightarrow> thread_step e i s = Some s1 \<Longrightarrow>
   run_events ok (Runs i e # evs) s = run_events ok evs s1"
  by (simp add: run_event_def)

text \<open>
  C22. A lock does not wait for a free mutex: from every position of the lock outside the
  kernel, when the mutex is free, at most three steps of the thread alone take it, whatever
  the time stamps (in a segment, the segment must be one of the thread's).
\<close>

theorem lock_solo_acquires:
  assumes "i < nthreads s" and "pc (thr s i) = In_lock p m" and "p \<noteq> L_tsleep" and "p \<noteq> L_sleep"
    and "lw_ok (lock_word m s)" and "locked (lock_word m s) = 0"
    and "p = L_twait \<or> p = L_woken \<Longrightarrow> tls_ok (local (thr s i)) \<and> cur_segment_id (local (thr s i)) \<noteq> -1"
  shows "\<exists>k\<le>3. \<exists>s'. run_events ok (replicate k (Runs i e)) s = Some s' \<and>
    pc (thr s' i) = Idle \<and> ret (thr s' i) = 0 \<and> m \<in> held (thr s' i) \<and> locked (lock_word m s') = 1"
proof -
  note free = lock_word_free [OF assms(5,6)]
  let ?done = "\<lambda>s'. pc (thr s' i) = Idle \<and> ret (thr s' i) = 0 \<and> m \<in> held (thr s' i) \<and>
    locked (lock_word m s') = 1"
  have tls: "\<exists>ts l. segment_timeout (local (thr s i)) = Some ts \<and> mark_waiter (local (thr s i)) = Inr l"
    if "p = L_twait \<or> p = L_woken"
    using assms(7) [OF that] mark_waiter_in [of "local (thr s i)"]
    by (auto simp: segment_timeout_alt tls_ok_def seg_consts)
  have one: "\<exists>s'. run_events ok (replicate 1 (Runs i e)) s = Some s' \<and> ?done s'"
    if "p = L_try \<or> p = L_spin \<or> p = L_swap \<or> p = L_loop"
    using that assms(1,2) free
    by (elim disjE) (simp_all add: run_event_def thread_step_def swap8_or_eq swap32_or_eq acquired_def)
  have two: "\<exists>s'. run_events ok (replicate 2 (Runs i e)) s = Some s' \<and> ?done s'"
    if "p = L_stamp \<or> p = L_check \<or> p = L_wait \<or> p = L_woken"
    using that assms(1,2) free tls
    by (elim disjE) (auto simp: numeral_2_eq_2 run_event_def thread_step_def swap8_or_eq swap32_or_eq
        acquired_def split: if_splits)
  have three: "\<exists>s'. run_events ok (replicate 3 (Runs i e)) s = Some s' \<and> ?done s'" if "p = L_twait"
    using that assms(1,2) free tls
    by (auto simp: numeral_3_eq_3 run_event_def thread_step_def swap8_or_eq acquired_def)
  have "p \<in> {L_try, L_spin, L_swap, L_loop} \<or> p \<in> {L_stamp, L_check, L_wait, L_woken} \<or> p = L_twait"
    using assms(3,4) by (cases p) simp_all
  then show ?thesis
  proof (elim disjE)
    assume "p \<in> {L_try, L_spin, L_swap, L_loop}"
    with one show ?thesis by (intro exI [of _ 1] conjI) simp_all
  next
    assume "p \<in> {L_stamp, L_check, L_wait, L_woken}"
    with two show ?thesis by (intro exI [of _ 2] conjI) simp_all
  next
    assume "p = L_twait"
    with three show ?thesis by (intro exI [of _ 3] conjI) simp_all
  qed
qed

theorem lock_solo_acquires_witness:
  "\<exists>s. pc (thr s 1) = In_lock L_check 5 \<and> lock_word 5 s = 256 \<and>
     (\<exists>k\<le>3. \<exists>s'. run_events (\<lambda>_ _ _. True) (replicate k (Runs 1 quiet)) s = Some s' \<and>
        pc (thr s' 1) = Idle \<and> ret (thr s' 1) = 0 \<and> 5 \<in> held (thr s' 1) \<and> locked (lock_word 5 s') = 1)"
proof -
  let ?s = "go 1 (In_lock L_check 5) (put_word 5 256 (init_sys 2))"
  have n: "nthreads (init_sys 2) = 2" by (simp add: init_sys_def)
  have "\<exists>k\<le>3. \<exists>s'. run_events (\<lambda>_ _ _. True) (replicate k (Runs 1 quiet)) ?s = Some s' \<and>
      pc (thr s' 1) = Idle \<and> ret (thr s' 1) = 0 \<and> 5 \<in> held (thr s' 1) \<and> locked (lock_word 5 s') = 1"
    by (rule lock_solo_acquires [of 1 ?s L_check 5]) (simp_all add: n)
  then show ?thesis by (intro exI [of _ ?s]) simp
qed

end
