(* ===== verification/HashTable.thy ===== *)
theory HashTable
  imports Prelude
begin

text \<open>
  The directory of \<open>src/interpose.c\<close> that maps the address of a \<open>pthread_mutex_t\<close> to the
  lock the library uses for it: a fixed table of buckets of ten slots, with insertion by
  compare-and-swap and no removal. This theory has the hash function and the two
  operations as a single thread executes them; \<open>TableRace\<close> has the interleaved steps.
\<close>

unbundle bit_operations_syntax

section \<open>The table\<close>

definition BUCKET_SIZE :: u64 where "BUCKET_SIZE = 40960"
definition BUCKET_LENGTH :: nat where "BUCKET_LENGTH = 10"

definition my_hash :: "u64 \<Rightarrow> u64" where
  "my_hash k = (drop_bit 4 k + drop_bit 24 k) AND (BUCKET_SIZE - 1)"

record lock_table =
  key :: u64
  val :: u64

type_synonym table = "u64 \<Rightarrow> lock_table list"

text \<open>The table after the \<open>memset\<close> of the library's constructor.\<close>

definition pthread_lock_table :: table where
  "pthread_lock_table = (\<lambda>_. replicate BUCKET_LENGTH \<lparr>key = 0, val = 0\<rparr>)"

text \<open>The loop of \<open>hash_put\<close> over one bucket, undisturbed.\<close>

fun put_bucket :: "u64 \<Rightarrow> u64 \<Rightarrow> lock_table list \<Rightarrow> lock_table list option" where
  "put_bucket k v [] = None"
| "put_bucket k v (x # xs) =
     (if key x = 0 then Some (x\<lparr>key := k, val := v\<rparr> # xs)
      else map_option (Cons x) (put_bucket k v xs))"

definition hash_put :: "u64 \<Rightarrow> u64 \<Rightarrow> table \<Rightarrow> int \<times> table" where
  "hash_put k v T =
     (case put_bucket k v (T (my_hash k)) of
        Some xs \<Rightarrow> (0, T(my_hash k := xs))
      | None \<Rightarrow> (-1, T))"

text \<open>
  The loop of \<open>hash_get\<close>: 0 is the C \<open>NULL\<close>; \<open>None\<close> is the inner loop waiting for a value
  that nobody else is there to write.
\<close>

fun get_bucket :: "u64 \<Rightarrow> lock_table list \<Rightarrow> u64 option" where
  "get_bucket k [] = Some 0"
| "get_bucket k (x # xs) =
     (if key x = k then if val x = 0 then None else Some (val x) else get_bucket k xs)"

definition hash_get :: "u64 \<Rightarrow> table \<Rightarrow> u64 option" where
  "hash_get k T = get_bucket k (T (my_hash k))"

section \<open>The hash function\<close>

lemma bit_32768: "bit (32768 :: u64) n \<longleftrightarrow> n = 15"
proof -
  have "(32768 :: u64) = push_bit 15 1" by simp
  then show ?thesis by (auto simp only: bit_push_bit_iff) (auto simp: bit_simps)
qed

lemma and_40959:
  fixes x :: u64
  shows "x AND 40959 < 8192 \<or> 32768 \<le> x AND 40959"
proof (cases "bit x 15")
  case True
  have "32768 AND (x AND 40959) = (32768 :: u64)"
  proof (rule bit_word_eqI)
    have "bit (40959 :: u64) 15" by simp
    then show "bit (32768 AND (x AND 40959)) n = bit (32768 :: u64) n" for n
      using True by (auto simp only: bit_and_iff bit_32768)
  qed
  then show ?thesis by (metis word_and_le1)
next
  case False
  have eq: "(40959 :: u64) = 32768 OR 8191" by simp
  have "x AND 32768 = 0"
    by (rule bit_word_eqI) (use False in \<open>auto simp only: bit_and_iff bit_32768 bit_0_eq bot_fun_def bot_bool_def\<close>)
  then have "x AND 40959 = x AND 8191"
    unfolding eq bit.conj_disj_distrib by simp
  then have "x AND 40959 \<le> 8191" by (metis word_and_le1)
  then show ?thesis by (simp add: word_le_nat_alt word_less_nat_alt)
qed

text \<open>
  The hash of every address is a bucket of the table, but only two ranges of buckets are
  ever used: \<open>BUCKET_SIZE\<close> is not a power of two, so the mask keeps 14 of 16 bits and 24576
  of the 40960 buckets stay empty.
\<close>

theorem my_hash_range:
  "my_hash k < BUCKET_SIZE \<and> (my_hash k < 8192 \<or> 32768 \<le> my_hash k)"
proof -
  have "my_hash k \<le> 40959" unfolding my_hash_def BUCKET_SIZE_def by (simp add: word_and_le1)
  then have "my_hash k < BUCKET_SIZE" by (simp add: BUCKET_SIZE_def word_le_nat_alt word_less_nat_alt)
  then show ?thesis using and_40959 by (simp add: my_hash_def BUCKET_SIZE_def)
qed

section \<open>Well-formed tables\<close>

text \<open>A bucket is filled from the left, and a used slot has a value.\<close>

fun packed :: "lock_table list \<Rightarrow> bool" where
  "packed [] \<longleftrightarrow> True"
| "packed (x # xs) \<longleftrightarrow>
     (if key x = 0 then \<forall>y \<in> set xs. key y = 0 else val x \<noteq> 0 \<and> packed xs)"

definition table_ok :: "table \<Rightarrow> bool" where
  "table_ok T \<longleftrightarrow> (\<forall>h. length (T h) = BUCKET_LENGTH \<and> packed (T h))"

lemma packed_empty: "\<forall>y \<in> set xs. key y = 0 \<Longrightarrow> packed xs"
  by (induction xs) auto

lemma table_ok_initial: "table_ok pthread_lock_table"
  by (auto simp: table_ok_def pthread_lock_table_def intro: packed_empty)

definition used_slots :: "lock_table list \<Rightarrow> nat" where
  "used_slots xs = length (filter (\<lambda>x. key x \<noteq> 0) xs)"

lemma put_bucket_None: "put_bucket k v xs = None \<longleftrightarrow> used_slots xs = length xs"
proof (induction xs)
  case (Cons x xs)
  have "used_slots xs \<noteq> Suc (length xs)"
    unfolding used_slots_def using length_filter_le [of "\<lambda>x. key x \<noteq> 0" xs] by linarith
  with Cons show ?case by (auto simp: used_slots_def)
qed (simp add: used_slots_def)

lemma put_bucket_length: "put_bucket k v xs = Some ys \<Longrightarrow> length ys = length xs"
  by (induction xs arbitrary: ys) (auto split: if_splits)

lemma put_bucket_used:
  "put_bucket k v xs = Some ys \<Longrightarrow> k \<noteq> 0 \<Longrightarrow> used_slots ys = used_slots xs + 1"
  by (induction xs arbitrary: ys) (auto simp: used_slots_def split: if_splits)

lemma put_bucket_packed:
  "put_bucket k v xs = Some ys \<Longrightarrow> packed xs \<Longrightarrow> k \<noteq> 0 \<Longrightarrow> v \<noteq> 0 \<Longrightarrow> packed ys"
  by (induction xs arbitrary: ys) (auto split: if_splits intro: packed_empty)

lemma get_bucket_empty: "\<forall>y \<in> set xs. key y = 0 \<Longrightarrow> k \<noteq> 0 \<Longrightarrow> get_bucket k xs = Some 0"
  by (induction xs) auto

text \<open>The empty table.\<close>

lemma hash_get_initial: "k \<noteq> 0 \<Longrightarrow> hash_get k pthread_lock_table = Some 0"
  by (simp add: hash_get_def pthread_lock_table_def get_bucket_empty)

lemma empty_bucket: "replicate BUCKET_LENGTH x = [x, x, x, x, x, x, x, x, x, x]"
  by (simp add: BUCKET_LENGTH_def numeral_eq_Suc)

lemma get_bucket_packed: "packed xs \<Longrightarrow> k \<noteq> 0 \<Longrightarrow> \<exists>v. get_bucket k xs = Some v"
  by (induction xs) (auto simp: get_bucket_empty split: if_splits)

lemma get_put_same:
  "put_bucket k v xs = Some ys \<Longrightarrow> packed xs \<Longrightarrow> k \<noteq> 0 \<Longrightarrow> v \<noteq> 0 \<Longrightarrow>
   get_bucket k ys = (if get_bucket k xs = Some 0 then Some v else get_bucket k xs)"
  by (induction xs arbitrary: ys) (auto simp: get_bucket_empty split: if_splits)

lemma get_put_other:
  "put_bucket k v xs = Some ys \<Longrightarrow> j \<noteq> k \<Longrightarrow> j \<noteq> 0 \<Longrightarrow> get_bucket j ys = get_bucket j xs"
  by (induction xs arbitrary: ys) (auto split: if_splits)

lemma hash_put_ok:
  assumes "table_ok T" and "k \<noteq> 0" and "v \<noteq> 0" and "hash_put k v T = (r, T')"
  shows "table_ok T'"
proof (cases "put_bucket k v (T (my_hash k))")
  case None
  with assms show ?thesis by (simp add: hash_put_def)
next
  case (Some xs)
  with assms put_bucket_packed [OF Some] put_bucket_length [OF Some] show ?thesis
    by (auto simp: hash_put_def table_ok_def)
qed

section \<open>The interface of the directory\<close>

text \<open>
  What the users of the directory rely on, for keys and values that are not \<open>NULL\<close>: a lookup
  always returns; an insertion of an absent key that does not fail makes it found and
  changes no other lookup; an insertion of a present key changes no lookup at all.
\<close>

locale lock_directory =
  fixes ok :: "'t \<Rightarrow> bool"
    and put :: "'k \<Rightarrow> 'v \<Rightarrow> 't \<Rightarrow> int \<times> 't"
    and get :: "'k \<Rightarrow> 't \<Rightarrow> 'v option"
    and no_key :: 'k and null :: 'v
  assumes get_returns: "ok t \<Longrightarrow> k \<noteq> no_key \<Longrightarrow> \<exists>v. get k t = Some v"
    and put_ok: "ok t \<Longrightarrow> k \<noteq> no_key \<Longrightarrow> v \<noteq> null \<Longrightarrow> put k v t = (r, t') \<Longrightarrow> ok t'"
    and put_same: "ok t \<Longrightarrow> k \<noteq> no_key \<Longrightarrow> v \<noteq> null \<Longrightarrow> put k v t = (0, t') \<Longrightarrow>
      get k t' = (if get k t = Some null then Some v else get k t)"
    and put_other: "ok t \<Longrightarrow> k \<noteq> no_key \<Longrightarrow> v \<noteq> null \<Longrightarrow> put k v t = (r, t') \<Longrightarrow> j \<noteq> k \<Longrightarrow>
      j \<noteq> no_key \<Longrightarrow> get j t' = get j t"
    and put_fails: "ok t \<Longrightarrow> k \<noteq> no_key \<Longrightarrow> put k v t = (r, t') \<Longrightarrow> r \<noteq> 0 \<Longrightarrow> t' = t"
begin

text \<open>The lookup that inserts what it does not find (\<open>ht_lock_get\<close>), for a fresh value.\<close>

definition get_or_put :: "'k \<Rightarrow> 'v \<Rightarrow> 't \<Rightarrow> 'v option \<times> 't" where
  "get_or_put k v t =
     (case get k t of
        None \<Rightarrow> (None, t)
      | Some w \<Rightarrow>
          if w \<noteq> null then (Some w, t)
          else case put k v t of (r, t') \<Rightarrow> (if r = 0 then Some v else None, t'))"

lemma get_or_put_cases [consumes 3, case_names found created full]:
  assumes "ok t" and "k \<noteq> no_key" and "v \<noteq> null"
  obtains (found) w where "get k t = Some w" "w \<noteq> null" "get_or_put k v t = (Some w, t)"
  | (created) t' where "get k t = Some null" "put k v t = (0, t')" "get_or_put k v t = (Some v, t')"
      "ok t'" "get k t' = Some v"
  | (full) r where "get k t = Some null" "put k v t = (r, t)" "r \<noteq> 0" "get_or_put k v t = (None, t)"
proof -
  obtain w where w: "get k t = Some w" using get_returns assms by blast
  obtain r t' where p: "put k v t = (r, t')" by fastforce
  show ?thesis
  proof (cases "w = null")
    case False
    with w show ?thesis by (intro found) (simp_all add: get_or_put_def)
  next
    case True
    show ?thesis
    proof (cases "r = 0")
      case r: True
      then show ?thesis
        using p w True put_ok [OF assms p] put_same [OF assms, of t']
        by (intro created [of t']) (simp_all add: get_or_put_def)
    next
      case False
      with p w True put_fails [OF assms(1,2) p False] show ?thesis
        by (intro full [of r]) (simp_all add: get_or_put_def)
    qed
  qed
qed

text \<open>Once a key has been resolved it keeps its value, whatever is inserted later.\<close>

lemma get_or_put_stable:
  assumes "ok t" and "k \<noteq> no_key" "v \<noteq> null" and "get_or_put k v t = (Some w, t')"
  shows "w \<noteq> null \<and> ok t' \<and> get k t' = Some w \<and> get_or_put k u t' = (Some w, t')"
  using assms(1-3)
proof (cases rule: get_or_put_cases)
  case (found x)
  then show ?thesis using assms by (auto simp: get_or_put_def)
next
  case (created t1)
  then show ?thesis using assms by (auto simp: get_or_put_def)
next
  case (full r)
  then show ?thesis using assms by simp
qed

lemma put_keeps_found:
  assumes "ok t" and "k \<noteq> no_key" "j \<noteq> no_key" "v \<noteq> null" and "put k v t = (r, t')"
    and "get j t = Some w" "w \<noteq> null"
  shows "get j t' = Some w"
proof (cases "j = k")
  case True
  then show ?thesis
    using put_same [OF assms(1,2,4), of t'] put_fails [OF assms(1,2,5)] assms(5-7)
    by (cases "r = 0") auto
next
  case False
  then show ?thesis using put_other [OF assms(1,2,4,5)] assms by simp
qed

end

lemma hash_put_cases:
  assumes "hash_put k v T = (r, T')"
  obtains xs where "put_bucket k v (T (my_hash k)) = Some xs" "r = 0" "T' = T(my_hash k := xs)"
  | "put_bucket k v (T (my_hash k)) = None" "r = -1" "T' = T"
  using assms by (auto simp: hash_put_def split: option.splits)

interpretation table: lock_directory table_ok hash_put hash_get 0 0
proof unfold_locales
  show "\<exists>v. hash_get k T = Some v" if "table_ok T" "k \<noteq> 0" for T k
    using that get_bucket_packed by (simp add: hash_get_def table_ok_def)
  show "table_ok T'" if "table_ok T" "k \<noteq> 0" "v \<noteq> 0" "hash_put k v T = (r, T')" for T k v r T'
    using that by (rule hash_put_ok)
  show "hash_get k T' = (if hash_get k T = Some 0 then Some v else hash_get k T)"
    if "table_ok T" "k \<noteq> 0" "v \<noteq> 0" "hash_put k v T = (0, T')" for T k v T'
    using that(4)
  proof (cases rule: hash_put_cases)
    case (1 xs)
    with that get_put_same [OF 1(1)] show ?thesis by (simp add: hash_get_def table_ok_def)
  qed simp
  show "hash_get j T' = hash_get j T"
    if "table_ok T" "k \<noteq> 0" "v \<noteq> 0" "hash_put k v T = (r, T')" "j \<noteq> k" "j \<noteq> 0" for T k v r T' j
    using that(4)
  proof (cases rule: hash_put_cases)
    case (1 xs)
    with that get_put_other [OF 1(1), of j] show ?thesis by (simp add: hash_get_def)
  qed simp
  show "T' = T" if "table_ok T" "k \<noteq> 0" "hash_put k v T = (r, T')" "r \<noteq> 0" for T k v r T'
    using that(3,4) by (cases rule: hash_put_cases) simp_all
qed

end
