(* ===== verification/Interpose.thy ===== *)
theory Interpose
  imports HashTable Machine
begin

text \<open>
  The interposed pthread functions of \<open>src/interpose.c\<close> (built with indirection, without
  \<open>RWTAS\<close> and with \<open>NEED_CONTEXT\<close> 0, as for HTLL): which operation of the library on which
  lock a call becomes, what it returns itself, and what it does to the directory. The
  calls are executed one after the other here; \<open>TableRace\<close> interleaves them.
\<close>

section \<open>The directory and its allocations\<close>

text \<open>
  \<open>impls\<close> is the heap of \<open>lock_transparent_mutex_t\<close> blocks: their address and the lock their
  field \<open>lock_lock\<close> points to.
\<close>

record directory =
  lock_tab :: table
  impls :: "u64 \<Rightarrow> maddr option"

definition empty_directory :: directory where
  "empty_directory = \<lparr>lock_tab = pthread_lock_table, impls = (\<lambda>_. None)\<rparr>"

text \<open>The calls of \<open>exit\<close> and \<open>assert\<close>, and the endless wait of a lookup.\<close>

datatype abort = Hash_table_full | Not_supported | Lookup_spins | Bad_pointer

text \<open>
  \<open>alloc_cache_align\<close> and the allocation in \<open>lock_mutex_create\<close> give the two addresses \<open>p\<close>
  and \<open>m\<close>; \<open>fresh_block\<close> is what the allocator promises.
\<close>

definition fresh_block :: "u64 \<Rightarrow> maddr \<Rightarrow> directory \<Rightarrow> bool" where
  "fresh_block p m d \<longleftrightarrow> p \<noteq> 0 \<and> impls d p = None \<and> m \<notin> ran (impls d)"

definition ht_lock_create :: "u64 \<Rightarrow> maddr \<Rightarrow> u64 \<Rightarrow> directory \<Rightarrow> abort + u64 \<times> directory" where
  "ht_lock_create p m mutex d =
     (let d = d\<lparr>impls := (impls d)(p \<mapsto> m)\<rparr>; (r, T) = hash_put mutex p (lock_tab d)
      in if r = 0 then Inr (p, d\<lparr>lock_tab := T\<rparr>) else Inl Hash_table_full)"

definition ht_lock_get :: "u64 \<Rightarrow> maddr \<Rightarrow> u64 \<Rightarrow> directory \<Rightarrow> abort + u64 \<times> directory" where
  "ht_lock_get p m mutex d =
     (case hash_get mutex (lock_tab d) of
        None \<Rightarrow> Inl Lookup_spins
      | Some impl \<Rightarrow> if impl = 0 then ht_lock_create p m mutex d else Inr (impl, d))"

section \<open>The interposed functions\<close>

text \<open>What a call becomes: an operation of the library, or a result of the wrapper itself.\<close>

datatype target = Run op | Give int

text \<open>A wrapper that looks its lock up and passes it on.\<close>

definition with_lock :: "(maddr \<Rightarrow> op) \<Rightarrow> u64 \<Rightarrow> maddr \<Rightarrow> u64 \<Rightarrow> directory \<Rightarrow> abort + target \<times> directory" where
  "with_lock f p m mutex d =
     (case ht_lock_get p m mutex d of
        Inl a \<Rightarrow> Inl a
      | Inr (impl, d') \<Rightarrow>
          (case impls d' impl of None \<Rightarrow> Inl Bad_pointer | Some l \<Rightarrow> Inr (Run (f l), d')))"

definition pthread_mutex_init :: "u64 \<Rightarrow> maddr \<Rightarrow> u64 \<Rightarrow> directory \<Rightarrow> abort + target \<times> directory" where
  "pthread_mutex_init p m mutex d =
     (case ht_lock_create p m mutex d of Inl a \<Rightarrow> Inl a | Inr (impl, d') \<Rightarrow> Inr (Give 0, d'))"

definition pthread_mutex_destroy :: "u64 \<Rightarrow> directory \<Rightarrow> abort + target \<times> directory" where
  "pthread_mutex_destroy mutex d = Inr (Give 0, d)"

definition pthread_mutex_lock :: "u64 \<Rightarrow> maddr \<Rightarrow> u64 \<Rightarrow> directory \<Rightarrow> abort + target \<times> directory" where
  "pthread_mutex_lock p m mutex d = with_lock Lock p m mutex d"

definition pthread_mutex_timedlock :: "u64 \<Rightarrow> directory \<Rightarrow> abort + target \<times> directory" where
  "pthread_mutex_timedlock mutex d = Inl Not_supported"

definition pthread_mutex_trylock :: "u64 \<Rightarrow> maddr \<Rightarrow> u64 \<Rightarrow> directory \<Rightarrow> abort + target \<times> directory" where
  "pthread_mutex_trylock p m mutex d = with_lock Trylock p m mutex d"

definition pthread_mutex_unlock :: "u64 \<Rightarrow> maddr \<Rightarrow> u64 \<Rightarrow> directory \<Rightarrow> abort + target \<times> directory" where
  "pthread_mutex_unlock p m mutex d = with_lock Unlock p m mutex d"

definition pthread_cond_timedwait ::
  "u64 \<Rightarrow> maddr \<Rightarrow> caddr \<Rightarrow> u64 \<Rightarrow> timespec \<Rightarrow> directory \<Rightarrow> abort + target \<times> directory" where
  "pthread_cond_timedwait p m cond mutex ts d =
     with_lock (\<lambda>l. Cond_timedwait cond l ts) p m mutex d"

definition pthread_cond_wait :: "u64 \<Rightarrow> maddr \<Rightarrow> caddr \<Rightarrow> u64 \<Rightarrow> directory \<Rightarrow> abort + target \<times> directory" where
  "pthread_cond_wait p m cond mutex d = with_lock (Cond_wait cond) p m mutex d"

text \<open>The condition variable itself is the caller's memory: no lookup.\<close>

definition pthread_cond_init :: "caddr \<Rightarrow> sys \<Rightarrow> int \<times> sys" where
  "pthread_cond_init cond s =
     (let (r, c) = upmutex_cond1_init (cnd s cond) in (r, upd_cnd cond (\<lambda>_. c) s))"

definition pthread_cond_destroy :: "caddr \<Rightarrow> sys \<Rightarrow> int \<times> sys" where
  "pthread_cond_destroy cond s =
     (let (r, c) = upmutex_cond1_destroy (cnd s cond) in (r, upd_cnd cond (\<lambda>_. c) s))"

definition pthread_cond_signal :: "caddr \<Rightarrow> target" where
  "pthread_cond_signal cond = Run (Cond_signal cond)"

definition pthread_cond_broadcast :: "caddr \<Rightarrow> target" where
  "pthread_cond_broadcast cond = Run (Cond_broadcast cond)"

text \<open>
  Without \<open>RWTAS\<close> the reader-writer functions use the same directory and the same mutex.
  \<open>ready\<close> says that \<open>init_spinlock\<close> is 2 when the function is entered; otherwise it runs the
  constructor first, which clears the table (see \<open>Startup\<close>).
\<close>

definition pthread_rwlock_init ::
  "bool \<Rightarrow> u64 \<Rightarrow> maddr \<Rightarrow> u64 \<Rightarrow> directory \<Rightarrow> abort + target \<times> directory" where
  "pthread_rwlock_init ready p m rwlock d =
     (let d = (if ready then d else d\<lparr>lock_tab := pthread_lock_table\<rparr>)
      in case ht_lock_create p m rwlock d of Inl a \<Rightarrow> Inl a | Inr (impl, d') \<Rightarrow> Inr (Give 0, d'))"

definition pthread_rwlock_destroy :: "u64 \<Rightarrow> directory \<Rightarrow> abort + target \<times> directory" where
  "pthread_rwlock_destroy rwlock d = Inr (Give 0, d)"

definition pthread_rwlock_rdlock :: "u64 \<Rightarrow> maddr \<Rightarrow> u64 \<Rightarrow> directory \<Rightarrow> abort + target \<times> directory" where
  "pthread_rwlock_rdlock p m rwlock d = with_lock Lock p m rwlock d"

definition pthread_rwlock_wrlock :: "u64 \<Rightarrow> maddr \<Rightarrow> u64 \<Rightarrow> directory \<Rightarrow> abort + target \<times> directory" where
  "pthread_rwlock_wrlock p m rwlock d = with_lock Lock p m rwlock d"

definition pthread_rwlock_timedrdlock :: "u64 \<Rightarrow> directory \<Rightarrow> abort + target \<times> directory" where
  "pthread_rwlock_timedrdlock rwlock d = Inl Not_supported"

definition pthread_rwlock_timedwrlock :: "u64 \<Rightarrow> directory \<Rightarrow> abort + target \<times> directory" where
  "pthread_rwlock_timedwrlock rwlock d = Inl Not_supported"

definition pthread_rwlock_tryrdlock :: "u64 \<Rightarrow> maddr \<Rightarrow> u64 \<Rightarrow> directory \<Rightarrow> abort + target \<times> directory" where
  "pthread_rwlock_tryrdlock p m rwlock d = with_lock Trylock p m rwlock d"

definition pthread_rwlock_trywrlock :: "u64 \<Rightarrow> maddr \<Rightarrow> u64 \<Rightarrow> directory \<Rightarrow> abort + target \<times> directory" where
  "pthread_rwlock_trywrlock p m rwlock d = with_lock Trylock p m rwlock d"

definition pthread_rwlock_unlock :: "u64 \<Rightarrow> maddr \<Rightarrow> u64 \<Rightarrow> directory \<Rightarrow> abort + target \<times> directory" where
  "pthread_rwlock_unlock p m rwlock d = with_lock Unlock p m rwlock d"

text \<open>All calls that involve the directory, after the library has been initialised.\<close>

datatype pcall =
    Mutex_init u64 | Mutex_destroy u64 | Mutex_lock u64 | Mutex_trylock u64 | Mutex_unlock u64
  | Mutex_timedlock u64 | P_cond_wait caddr u64 | P_cond_timedwait caddr u64 timespec
  | Rw_init u64 | Rw_destroy u64 | Rw_rdlock u64 | Rw_wrlock u64 | Rw_timedrdlock u64
  | Rw_timedwrlock u64 | Rw_tryrdlock u64 | Rw_trywrlock u64 | Rw_unlock u64

fun interpose :: "u64 \<Rightarrow> maddr \<Rightarrow> pcall \<Rightarrow> directory \<Rightarrow> abort + target \<times> directory" where
  "interpose p m (Mutex_init a) d = pthread_mutex_init p m a d"
| "interpose p m (Mutex_destroy a) d = pthread_mutex_destroy a d"
| "interpose p m (Mutex_lock a) d = pthread_mutex_lock p m a d"
| "interpose p m (Mutex_trylock a) d = pthread_mutex_trylock p m a d"
| "interpose p m (Mutex_unlock a) d = pthread_mutex_unlock p m a d"
| "interpose p m (Mutex_timedlock a) d = pthread_mutex_timedlock a d"
| "interpose p m (P_cond_wait c a) d = pthread_cond_wait p m c a d"
| "interpose p m (P_cond_timedwait c a ts) d = pthread_cond_timedwait p m c a ts d"
| "interpose p m (Rw_init a) d = pthread_rwlock_init True p m a d"
| "interpose p m (Rw_destroy a) d = pthread_rwlock_destroy a d"
| "interpose p m (Rw_rdlock a) d = pthread_rwlock_rdlock p m a d"
| "interpose p m (Rw_wrlock a) d = pthread_rwlock_wrlock p m a d"
| "interpose p m (Rw_timedrdlock a) d = pthread_rwlock_timedrdlock a d"
| "interpose p m (Rw_timedwrlock a) d = pthread_rwlock_timedwrlock a d"
| "interpose p m (Rw_tryrdlock a) d = pthread_rwlock_tryrdlock p m a d"
| "interpose p m (Rw_trywrlock a) d = pthread_rwlock_trywrlock p m a d"
| "interpose p m (Rw_unlock a) d = pthread_rwlock_unlock p m a d"

lemmas wrapper_defs = pthread_mutex_init_def pthread_mutex_destroy_def pthread_mutex_lock_def
  pthread_mutex_timedlock_def pthread_mutex_trylock_def pthread_mutex_unlock_def
  pthread_cond_timedwait_def pthread_cond_wait_def pthread_rwlock_init_def pthread_rwlock_destroy_def
  pthread_rwlock_rdlock_def pthread_rwlock_wrlock_def pthread_rwlock_timedrdlock_def
  pthread_rwlock_timedwrlock_def pthread_rwlock_tryrdlock_def pthread_rwlock_trywrlock_def
  pthread_rwlock_unlock_def

text \<open>The address a call is about.\<close>

fun call_key :: "pcall \<Rightarrow> u64" where
  "call_key (Mutex_init a) = a" | "call_key (Mutex_destroy a) = a" | "call_key (Mutex_lock a) = a"
| "call_key (Mutex_trylock a) = a" | "call_key (Mutex_unlock a) = a"
| "call_key (Mutex_timedlock a) = a" | "call_key (P_cond_wait c a) = a"
| "call_key (P_cond_timedwait c a ts) = a" | "call_key (Rw_init a) = a"
| "call_key (Rw_destroy a) = a" | "call_key (Rw_rdlock a) = a" | "call_key (Rw_wrlock a) = a"
| "call_key (Rw_timedrdlock a) = a" | "call_key (Rw_timedwrlock a) = a"
| "call_key (Rw_tryrdlock a) = a" | "call_key (Rw_trywrlock a) = a" | "call_key (Rw_unlock a) = a"

section \<open>What the directory guarantees\<close>

definition resolved :: "u64 \<Rightarrow> maddr \<Rightarrow> directory \<Rightarrow> bool" where
  "resolved a l d \<longleftrightarrow> (\<exists>w. hash_get a (lock_tab d) = Some w \<and> w \<noteq> 0 \<and> impls d w = Some l)"

text \<open>
  Different keys have different blocks, and different blocks have different locks. \<open>D\<close> is a
  set of keys of which nothing is known: it is empty here, and holds the destroyed locks
  of the build with \<open>RWTAS\<close>.
\<close>

definition live_ok :: "u64 set \<Rightarrow> directory \<Rightarrow> bool" where
  "live_ok D d \<longleftrightarrow> table_ok (lock_tab d) \<and>
     (\<forall>k w. k \<noteq> 0 \<longrightarrow> k \<notin> D \<longrightarrow> hash_get k (lock_tab d) = Some w \<longrightarrow> w \<noteq> 0 \<longrightarrow> impls d w \<noteq> None) \<and>
     (\<forall>j k w. j \<noteq> 0 \<longrightarrow> j \<notin> D \<longrightarrow> k \<noteq> 0 \<longrightarrow> k \<notin> D \<longrightarrow> hash_get j (lock_tab d) = Some w \<longrightarrow>
        hash_get k (lock_tab d) = Some w \<longrightarrow> w \<noteq> 0 \<longrightarrow> j = k) \<and>
     (\<forall>w w' m. impls d w = Some m \<longrightarrow> impls d w' = Some m \<longrightarrow> w = w')"

abbreviation directory_ok :: "directory \<Rightarrow> bool" where
  "directory_ok \<equiv> live_ok {}"

lemma live_ok_D:
  assumes "live_ok D d"
  shows "table_ok (lock_tab d)"
    "k \<noteq> 0 \<Longrightarrow> k \<notin> D \<Longrightarrow> hash_get k (lock_tab d) = Some w \<Longrightarrow> w \<noteq> 0 \<Longrightarrow> \<exists>m. impls d w = Some m"
    "j \<noteq> 0 \<Longrightarrow> j \<notin> D \<Longrightarrow> k \<noteq> 0 \<Longrightarrow> k \<notin> D \<Longrightarrow> hash_get j (lock_tab d) = Some w \<Longrightarrow>
      hash_get k (lock_tab d) = Some w \<Longrightarrow> w \<noteq> 0 \<Longrightarrow> j = k"
    "impls d w = Some m \<Longrightarrow> impls d w' = Some m \<Longrightarrow> w = w'"
  using assms by (auto simp: live_ok_def)

lemma resolved_inj:
  assumes "live_ok D d" and ab: "a \<noteq> 0" "a \<notin> D" "b \<noteq> 0" "b \<notin> D"
    and "resolved a l d" and "resolved b l d"
  shows "a = b"
proof -
  from assms(6,7) obtain v w where vw: "hash_get a (lock_tab d) = Some v" "v \<noteq> 0" "impls d v = Some l"
    "hash_get b (lock_tab d) = Some w" "impls d w = Some l" by (auto simp: resolved_def)
  moreover from this have "v = w" using live_ok_D(4) [OF assms(1)] by blast
  ultimately show ?thesis using live_ok_D(3) [OF assms(1) ab] by blast
qed

lemma directory_ok_empty: "directory_ok empty_directory"
  by (auto simp: live_ok_def empty_directory_def table_ok_initial hash_get_initial)

lemma ht_lock_create_Inr:
  assumes "ht_lock_create p m a d = Inr (w, d')"
  obtains T where "hash_put a p (lock_tab d) = (0, T)" "w = p"
    "d' = d\<lparr>impls := (impls d)(p \<mapsto> m), lock_tab := T\<rparr>"
  using assms by (auto simp: ht_lock_create_def Let_def split: prod.splits if_splits)

text \<open>A successful creation, seen through the lookups.\<close>

lemma ht_lock_create_lookups:
  assumes ok: "live_ok D d" and fresh: "fresh_block p m d" and "a \<noteq> 0"
    and c: "ht_lock_create p m a d = Inr (w, d')"
  shows "w = p" "impls d' = (impls d)(p \<mapsto> m)" "table_ok (lock_tab d')"
    "hash_get a (lock_tab d') =
      (if hash_get a (lock_tab d) = Some 0 then Some p else hash_get a (lock_tab d))"
    "j \<noteq> a \<Longrightarrow> j \<noteq> 0 \<Longrightarrow> hash_get j (lock_tab d') = hash_get j (lock_tab d)"
proof -
  from c obtain T where T: "hash_put a p (lock_tab d) = (0, T)" "w = p"
    "d' = d\<lparr>impls := (impls d)(p \<mapsto> m), lock_tab := T\<rparr>" by (rule ht_lock_create_Inr)
  note tab = live_ok_D(1) [OF ok] \<open>a \<noteq> 0\<close>
  have p: "p \<noteq> 0" using fresh by (simp add: fresh_block_def)
  show "w = p" "impls d' = (impls d)(p \<mapsto> m)" using T by simp_all
  show "table_ok (lock_tab d')" using table.put_ok [OF tab p T(1)] T(3) by simp
  show "hash_get a (lock_tab d') =
      (if hash_get a (lock_tab d) = Some 0 then Some p else hash_get a (lock_tab d))"
    using table.put_same [OF tab p T(1)] T(3) by simp
  show "j \<noteq> a \<Longrightarrow> j \<noteq> 0 \<Longrightarrow> hash_get j (lock_tab d') = hash_get j (lock_tab d)"
    using table.put_other [OF tab p T(1)] T(3) by simp
qed

lemma ht_lock_create_ok:
  assumes "live_ok D d" and "fresh_block p m d" and "a \<noteq> 0"
    and "ht_lock_create p m a d = Inr (w, d')"
  shows "live_ok D d'"
proof -
  note look = ht_lock_create_lookups [OF assms]
  have p: "p \<noteq> 0" "impls d p = None" "\<And>w. impls d w \<noteq> Some m"
    using assms(2) by (auto simp: fresh_block_def ran_def)
  have get: "hash_get k (lock_tab d') = Some w \<longleftrightarrow>
      (if k = a \<and> hash_get a (lock_tab d) = Some 0 then w = p else hash_get k (lock_tab d) = Some w)"
    if "k \<noteq> 0" for k w
    using look(4,5) that by (cases "k = a") auto
  have new: "hash_get k (lock_tab d) \<noteq> Some p" if "k \<noteq> 0" "k \<notin> D" for k
    using live_ok_D(2) [OF assms(1) that _ p(1)] p(2) by fastforce
  show ?thesis
    unfolding live_ok_def
  proof (intro conjI allI impI)
    show "table_ok (lock_tab d')" by (rule look(3))
  next
    fix k w assume k: "k \<noteq> 0" "k \<notin> D" and "hash_get k (lock_tab d') = Some w" "w \<noteq> 0"
    then have "w = p \<or> hash_get k (lock_tab d) = Some w"
      using get [of k w] by (simp split: if_splits)
    then show "impls d' w \<noteq> None"
      using live_ok_D(2) [OF assms(1) k _ \<open>w \<noteq> 0\<close>] look(2) by fastforce
  next
    fix j k w
    assume jk: "j \<noteq> 0" "j \<notin> D" "k \<noteq> 0" "k \<notin> D"
      and w: "hash_get j (lock_tab d') = Some w" "hash_get k (lock_tab d') = Some w" "w \<noteq> 0"
    then have "j = a \<and> w = p \<or> hash_get j (lock_tab d) = Some w"
      "k = a \<and> w = p \<or> hash_get k (lock_tab d) = Some w"
      using get by (metis, metis)
    then show "j = k"
      using new jk w(3) live_ok_D(3) [OF assms(1) jk] by metis
  next
    fix w w' m' assume "impls d' w = Some m'" "impls d' w' = Some m'"
    then show "w = w'"
      using live_ok_D(4) [OF assms(1), of w m' w'] look(2) p(3) by (simp split: if_splits)
  qed
qed

lemma resolved_create:
  assumes "live_ok D d" and "fresh_block p m d" and "a \<noteq> 0"
    and "ht_lock_create p m a d = Inr (w, d')" and "b \<noteq> 0" and "resolved b l d"
  shows "resolved b l d'"
proof -
  note look = ht_lock_create_lookups [OF assms(1-4)]
  from assms(6) obtain x where x: "hash_get b (lock_tab d) = Some x" "x \<noteq> 0" "impls d x = Some l"
    by (auto simp: resolved_def)
  then have "hash_get b (lock_tab d') = Some x" using look(4,5) assms(5) by (cases "b = a") auto
  moreover have "x \<noteq> p" using x assms(2) by (auto simp: fresh_block_def)
  ultimately show ?thesis using x look(2) by (auto simp: resolved_def)
qed

lemma ht_lock_get_resolved:
  assumes "resolved a l d"
  shows "\<exists>w. ht_lock_get p m a d = Inr (w, d) \<and> impls d w = Some l"
  using assms by (auto simp: resolved_def ht_lock_get_def)

lemma with_lock_resolved: "resolved a l d \<Longrightarrow> with_lock f p m a d = Inr (Run (f l), d)"
  using ht_lock_get_resolved [of a l d p m] by (auto simp: with_lock_def)

lemma ht_lock_get_cases:
  assumes "live_ok D d" and "fresh_block p m d" and "a \<noteq> 0" and "a \<notin> D"
    and "ht_lock_get p m a d = Inr (w, d')"
  shows "live_ok D d' \<and> (\<forall>b l. b \<noteq> 0 \<longrightarrow> resolved b l d \<longrightarrow> resolved b l d') \<and>
    (\<exists>l. impls d' w = Some l \<and> resolved a l d')"
proof -
  obtain x where x: "hash_get a (lock_tab d) = Some x"
    using table.get_returns [OF live_ok_D(1) [OF assms(1)] assms(3)] by blast
  show ?thesis
  proof (cases "x = 0")
    case False
    then have "w = x" "d' = d" using assms(5) x by (simp_all add: ht_lock_get_def)
    then show ?thesis
      using False x assms(1) live_ok_D(2) [OF assms(1,3,4) x False] by (auto simp: resolved_def)
  next
    case True
    then have c: "ht_lock_create p m a d = Inr (w, d')" using assms(5) x by (simp add: ht_lock_get_def)
    note look = ht_lock_create_lookups [OF assms(1-3) c]
    have "p \<noteq> 0" using assms(2) by (simp add: fresh_block_def)
    then have "resolved a m d'" using look(1,2,4) x True by (simp add: resolved_def)
    with look show ?thesis
      using ht_lock_create_ok [OF assms(1-3) c] resolved_create [OF assms(1-3) c] by auto
  qed
qed

lemma with_lock_ok:
  assumes "live_ok D d" and "fresh_block p m d" and "a \<noteq> 0" and "a \<notin> D"
    and "with_lock f p m a d = Inr (t, d')"
  shows "live_ok D d' \<and> (\<forall>b l. b \<noteq> 0 \<longrightarrow> resolved b l d \<longrightarrow> resolved b l d') \<and>
    (\<exists>l. t = Run (f l) \<and> resolved a l d')"
proof -
  from assms(5) obtain w where w: "ht_lock_get p m a d = Inr (w, d')"
    by (auto simp: with_lock_def split: sum.splits option.splits)
  with ht_lock_get_cases [OF assms(1-4) w] assms(5) show ?thesis
    by (auto simp: with_lock_def)
qed

lemma interpose_cases [consumes 1, case_names given created looked_up]:
  assumes "interpose p m c d = Inr (t, d')"
  obtains "t = Give 0" "d' = d"
  | w where "t = Give 0" "ht_lock_create p m (call_key c) d = Inr (w, d')"
  | f where "with_lock f p m (call_key c) d = Inr (t, d')"
proof (cases c)
  case (Mutex_init a)
  with assms that(2) show ?thesis by (auto simp: wrapper_defs split: sum.splits)
next
  case (Rw_init a)
  with assms that(2) show ?thesis by (auto simp: wrapper_defs split: sum.splits)
qed (use assms that(1,3) in \<open>auto simp: wrapper_defs\<close>)

lemma interpose_ok:
  assumes "live_ok D d" and "fresh_block p m d" and "call_key c \<noteq> 0" and "call_key c \<notin> D"
    and "interpose p m c d = Inr (t, d')"
  shows "live_ok D d' \<and> (\<forall>b l. b \<noteq> 0 \<longrightarrow> resolved b l d \<longrightarrow> resolved b l d')"
  using assms(5)
proof (cases rule: interpose_cases)
  case given
  with assms(1) show ?thesis by simp
next
  case (created w)
  with ht_lock_create_ok [OF assms(1-3)] resolved_create [OF assms(1-3)] show ?thesis by blast
next
  case (looked_up f)
  with with_lock_ok [OF assms(1-4)] show ?thesis by blast
qed

section \<open>Schedules of calls\<close>

text \<open>Each call comes with the addresses the allocator would give it.\<close>

fun run_calls :: "(u64 \<times> maddr \<times> pcall) list \<Rightarrow> directory \<Rightarrow> directory option" where
  "run_calls [] d = Some d"
| "run_calls ((p, m, c) # cs) d =
     (if p \<noteq> 0 \<and> impls d p = None \<and> m \<notin> ran (impls d) \<and> call_key c \<noteq> 0
      then case interpose p m c d of Inl a \<Rightarrow> None | Inr (t, d') \<Rightarrow> run_calls cs d'
      else None)"

lemma run_calls_ok:
  "run_calls cs d = Some d' \<Longrightarrow> directory_ok d \<Longrightarrow>
   directory_ok d' \<and> (\<forall>b l. b \<noteq> 0 \<longrightarrow> resolved b l d \<longrightarrow> resolved b l d')"
proof (induction cs d rule: run_calls.induct)
  case (2 p m c cs d)
  then obtain t d1 where d1: "interpose p m c d = Inr (t, d1)" "run_calls cs d1 = Some d'"
    by (auto split: if_splits sum.splits)
  have f: "fresh_block p m d" "call_key c \<noteq> 0"
    using "2.prems"(1) by (auto simp: fresh_block_def split: if_splits)
  have "directory_ok d1 \<and> (\<forall>b l. b \<noteq> 0 \<longrightarrow> resolved b l d \<longrightarrow> resolved b l d1)"
    using interpose_ok [OF "2.prems"(2) f _ d1(1)] by simp
  moreover have "directory_ok d1 \<Longrightarrow>
      directory_ok d' \<and> (\<forall>b l. b \<noteq> 0 \<longrightarrow> resolved b l d1 \<longrightarrow> resolved b l d')"
    using "2.IH" [OF _ d1(1) refl d1(2)] "2.prems"(1) by (auto split: if_splits)
  ultimately show ?case by blast
qed simp

text \<open>
  C8. One lock per address: once the address \<open>a\<close> has been resolved to the lock \<open>l\<close>, after any
  further calls on any addresses (including destroy and a new init of \<open>a\<close>) every lock,
  unlock, try-lock and condition wait on \<open>a\<close>, and every reader-writer call on \<open>a\<close>, operates
  on \<open>l\<close> and leaves the directory as it is.
\<close>

theorem one_lock_per_address:
  assumes "directory_ok d" and "a \<noteq> 0" and "resolved a l d" and "run_calls cs d = Some d'"
  shows "pthread_mutex_lock p m a d' = Inr (Run (Lock l), d') \<and>
    pthread_mutex_trylock p m a d' = Inr (Run (Trylock l), d') \<and>
    pthread_mutex_unlock p m a d' = Inr (Run (Unlock l), d') \<and>
    pthread_cond_wait p m c a d' = Inr (Run (Cond_wait c l), d') \<and>
    pthread_cond_timedwait p m c a ts d' = Inr (Run (Cond_timedwait c l ts), d') \<and>
    pthread_rwlock_rdlock p m a d' = Inr (Run (Lock l), d') \<and>
    pthread_rwlock_wrlock p m a d' = Inr (Run (Lock l), d') \<and>
    pthread_rwlock_tryrdlock p m a d' = Inr (Run (Trylock l), d') \<and>
    pthread_rwlock_trywrlock p m a d' = Inr (Run (Trylock l), d') \<and>
    pthread_rwlock_unlock p m a d' = Inr (Run (Unlock l), d')"
proof -
  have "resolved a l d'" using run_calls_ok [OF assms(4,1)] assms(2,3) by blast
  then show ?thesis by (simp add: wrapper_defs with_lock_resolved)
qed

text \<open>
  Different addresses have different locks, after any sequence of calls from the empty
  directory: two mutexes (or read-write locks) of the program never share a lock.
\<close>

theorem distinct_addresses_distinct_locks:
  assumes "run_calls cs empty_directory = Some d" and "a \<noteq> 0" and "b \<noteq> 0" and "a \<noteq> b"
    and "resolved a l d" and "resolved b l' d"
  shows "l \<noteq> l'"
  using resolved_inj [of "{}" d a b l] run_calls_ok [OF assms(1) directory_ok_empty] assms by auto

lemma ht_lock_create_full:
  "put_bucket a p (lock_tab d (my_hash a)) = None \<Longrightarrow> ht_lock_create p m a d = Inl Hash_table_full"
  by (simp add: ht_lock_create_def hash_put_def Let_def)

lemma ht_lock_create_room:
  "put_bucket a p (lock_tab d (my_hash a)) = Some xs \<Longrightarrow>
   ht_lock_create p m a d =
     Inr (p, d\<lparr>impls := (impls d)(p \<mapsto> m), lock_tab := (lock_tab d)(my_hash a := xs)\<rparr>)"
  by (simp add: ht_lock_create_def hash_put_def Let_def)

lemma bucket_full:
  assumes "directory_ok d"
  shows "put_bucket a p (lock_tab d (my_hash a)) = None \<longleftrightarrow>
    used_slots (lock_tab d (my_hash a)) = BUCKET_LENGTH"
  using put_bucket_None live_ok_D(1) [OF assms] by (simp add: table_ok_def)

text \<open>
  First use: a lock of an address that was never seen creates its lock, unless the bucket
  is full; the created lock is the one all later calls find.
\<close>

theorem first_lock_creates:
  assumes "directory_ok d" and "a \<noteq> 0" and "hash_get a (lock_tab d) = Some 0" and "fresh_block p m d"
  shows "if used_slots (lock_tab d (my_hash a)) = BUCKET_LENGTH
    then pthread_mutex_lock p m a d = Inl Hash_table_full
    else \<exists>d'. pthread_mutex_lock p m a d = Inr (Run (Lock m), d') \<and> resolved a m d' \<and> directory_ok d'"
proof (cases "put_bucket a p (lock_tab d (my_hash a))")
  case None
  then show ?thesis
    using bucket_full [OF assms(1), of a p] assms(3)
    by (simp add: pthread_mutex_lock_def with_lock_def ht_lock_get_def ht_lock_create_full)
next
  case (Some xs)
  then obtain d' where d': "ht_lock_get p m a d = Inr (p, d')" "impls d' p = Some m"
    using assms(3) by (simp add: ht_lock_get_def ht_lock_create_room)
  from ht_lock_get_cases [OF assms(1,4,2) _ d'(1)] d'(2) have "directory_ok d'" "resolved a m d'" by auto
  then show ?thesis
    using bucket_full [OF assms(1), of a p] Some d' by (simp add: pthread_mutex_lock_def with_lock_def)
qed

text \<open>
  C36. Initialisation of a known address does not give it a new lock: the call returns 0, but
  every later call still operates on the old lock, in whatever state that is; and each
  initialisation uses up one of the ten slots of the bucket, until the process is ended.
\<close>

theorem init_of_known_address:
  assumes "directory_ok d" and "a \<noteq> 0" and "resolved a l d" and "fresh_block p m d"
  shows "if used_slots (lock_tab d (my_hash a)) = BUCKET_LENGTH
    then pthread_mutex_init p m a d = Inl Hash_table_full
    else \<exists>d'. pthread_mutex_init p m a d = Inr (Give 0, d') \<and> resolved a l d' \<and> l \<noteq> m \<and>
      used_slots (lock_tab d' (my_hash a)) = used_slots (lock_tab d (my_hash a)) + 1"
proof (cases "put_bucket a p (lock_tab d (my_hash a))")
  case None
  then show ?thesis
    using bucket_full [OF assms(1), of a p] by (simp add: pthread_mutex_init_def ht_lock_create_full)
next
  case (Some xs)
  let ?d = "d\<lparr>impls := (impls d)(p \<mapsto> m), lock_tab := (lock_tab d)(my_hash a := xs)\<rparr>"
  have c: "ht_lock_create p m a d = Inr (p, ?d)" by (rule ht_lock_create_room [OF Some])
  have "l \<noteq> m" using assms(3,4) by (auto simp: resolved_def fresh_block_def ran_def)
  moreover have "resolved a l ?d" by (rule resolved_create [OF assms(1,4,2) c assms(2,3)])
  ultimately show ?thesis
    using bucket_full [OF assms(1), of a p] Some c put_bucket_used [OF Some assms(2)]
    by (simp add: pthread_mutex_init_def)
qed

text \<open>A short program: two mutexes are locked, the first is initialised a second time.\<close>

definition two_mutexes :: "(u64 \<times> maddr \<times> pcall) list" where
  "two_mutexes = [(4096, 1, Mutex_lock 64), (8192, 2, Rw_rdlock 80), (12288, 3, Mutex_init 64)]"

lemmas table_eval = empty_directory_def pthread_lock_table_def empty_bucket wrapper_defs
  with_lock_def ht_lock_get_def ht_lock_create_def hash_put_def hash_get_def my_hash_def
  BUCKET_SIZE_def resolved_def

lemma first_mutex_result:
  "\<exists>d. run_calls [(4096, 1, Mutex_lock 64)] empty_directory = Some d \<and> resolved 64 1 d \<and>
     fresh_block 12288 3 d \<and> used_slots (lock_tab d (my_hash 64)) = 1 \<and>
     (\<exists>d'. run_calls [(8192, 2, Rw_rdlock 80), (12288, 3, Mutex_init 64)] d = Some d')"
  by (simp add: table_eval Let_def ran_def fresh_block_def used_slots_def)

lemma two_mutexes_result:
  "\<exists>d. run_calls two_mutexes empty_directory = Some d \<and> resolved 64 1 d \<and> resolved 80 2 d"
  unfolding two_mutexes_def
  by (simp add: table_eval Let_def ran_def)

theorem one_lock_per_address_witness:
  "\<exists>d'. pthread_mutex_unlock 0 0 64 d' = Inr (Run (Unlock 1), d') \<and>
     pthread_rwlock_rdlock 0 0 64 d' = Inr (Run (Lock 1), d')"
proof -
  obtain d d' where d: "run_calls [(4096, 1, Mutex_lock 64)] empty_directory = Some d" "resolved 64 1 d"
    "run_calls [(8192, 2, Rw_rdlock 80), (12288, 3, Mutex_init 64)] d = Some d'"
    using first_mutex_result by blast
  have "directory_ok d" using run_calls_ok [OF d(1) directory_ok_empty] by blast
  from one_lock_per_address [OF this _ d(2,3), of 0 0 0 "(0, 0)"] show ?thesis by auto
qed

theorem distinct_addresses_distinct_locks_witness:
  "\<exists>d. run_calls two_mutexes empty_directory = Some d \<and> resolved 64 1 d \<and> resolved 80 2 d \<and>
     (1 :: maddr) \<noteq> 2"
proof -
  obtain d where d: "run_calls two_mutexes empty_directory = Some d" "resolved 64 1 d" "resolved 80 2 d"
    using two_mutexes_result by blast
  moreover have "(1 :: maddr) \<noteq> 2"
    by (rule distinct_addresses_distinct_locks [OF d(1) _ _ _ d(2,3)]) simp_all
  ultimately show ?thesis by blast
qed

theorem first_lock_creates_witness:
  "\<exists>d'. pthread_mutex_lock 4096 1 64 empty_directory = Inr (Run (Lock 1), d') \<and> resolved 64 1 d'"
proof -
  have "used_slots (lock_tab empty_directory (my_hash 64)) \<noteq> BUCKET_LENGTH"
    by (simp add: used_slots_def empty_directory_def pthread_lock_table_def BUCKET_LENGTH_def)
  moreover have "fresh_block 4096 1 empty_directory" "hash_get 64 (lock_tab empty_directory) = Some 0"
    by (simp_all add: fresh_block_def empty_directory_def ran_def hash_get_initial)
  ultimately show ?thesis
    using first_lock_creates [OF directory_ok_empty, of 64 4096 1] by auto
qed

theorem init_of_known_address_witness:
  "\<exists>d d'. resolved 64 1 d \<and> pthread_mutex_init 12288 3 64 d = Inr (Give 0, d') \<and> resolved 64 1 d'"
proof -
  obtain d where d: "run_calls [(4096, 1, Mutex_lock 64)] empty_directory = Some d" "resolved 64 1 d"
    "fresh_block 12288 3 d" "used_slots (lock_tab d (my_hash 64)) = 1"
    using first_mutex_result by blast
  have ok: "directory_ok d" using run_calls_ok [OF d(1) directory_ok_empty] by blast
  have "used_slots (lock_tab d (my_hash 64)) \<noteq> BUCKET_LENGTH"
    by (simp add: d(4) BUCKET_LENGTH_def)
  with init_of_known_address [OF ok _ d(2,3)] d(2) show ?thesis by auto
qed

end
