(* ===== verification/RwInterpose.thy ===== *)
theory RwInterpose
  imports Interpose
begin

text \<open>
  The read-write locks of \<open>src/interpose.c\<close> in the build with \<open>RWTAS\<close>, where they have an
  implementation of their own instead of the mutex. The implementation (\<open>lock_rwlock_*\<close>) is
  not in the repository: a call becomes the operation it hands on, and nothing is assumed
  of it. What the file does itself is the directory, which the read-write locks share with
  the mutexes, and the life of the block that holds the pointer to the lock: \<open>destroy\<close>
  frees it, and leaves its address in the table.
\<close>

section \<open>The functions\<close>

datatype rw_op = Rd | Wr | Try_rd | Try_wr | Rw_release | Rw_dispose

text \<open>
  \<open>Result_of x l\<close>: call \<open>x\<close> on the lock \<open>l\<close> and return its result; \<open>Zero_after x l\<close>: call it
  and return 0. \<open>Other\<close> is a call that is the same in both builds.
\<close>

datatype rw_target = Other target | Result_of rw_op maddr | Zero_after rw_op maddr

definition ht_rwlock_create :: "u64 \<Rightarrow> maddr \<Rightarrow> u64 \<Rightarrow> directory \<Rightarrow> abort + u64 \<times> directory" where
  "ht_rwlock_create p m rwlock d =
     (let d = d\<lparr>impls := (impls d)(p \<mapsto> m)\<rparr>; (r, T) = hash_put rwlock p (lock_tab d)
      in if r = 0 then Inr (p, d\<lparr>lock_tab := T\<rparr>) else Inl Hash_table_full)"

definition ht_rwlock_get :: "u64 \<Rightarrow> maddr \<Rightarrow> u64 \<Rightarrow> directory \<Rightarrow> abort + u64 \<times> directory" where
  "ht_rwlock_get p m rwlock d =
     (case hash_get rwlock (lock_tab d) of
        None \<Rightarrow> Inl Lookup_spins
      | Some impl \<Rightarrow> if impl = 0 then ht_rwlock_create p m rwlock d else Inr (impl, d))"

text \<open>The lookup and the read of \<open>impl->lock_lock\<close>; a freed block cannot be read.\<close>

definition with_rwlock ::
  "(maddr \<Rightarrow> rw_target) \<Rightarrow> u64 \<Rightarrow> maddr \<Rightarrow> u64 \<Rightarrow> directory \<Rightarrow> abort + rw_target \<times> directory" where
  "with_rwlock f p m rwlock d =
     (case ht_rwlock_get p m rwlock d of
        Inl a \<Rightarrow> Inl a
      | Inr (impl, d') \<Rightarrow>
          (case impls d' impl of None \<Rightarrow> Inl Bad_pointer | Some l \<Rightarrow> Inr (f l, d')))"

definition rwtas_rwlock_init ::
  "bool \<Rightarrow> u64 \<Rightarrow> maddr \<Rightarrow> u64 \<Rightarrow> directory \<Rightarrow> abort + rw_target \<times> directory" where
  "rwtas_rwlock_init ready p m rwlock d =
     (let d = (if ready then d else d\<lparr>lock_tab := pthread_lock_table\<rparr>)
      in case ht_rwlock_create p m rwlock d of
           Inl a \<Rightarrow> Inl a
         | Inr (impl, d') \<Rightarrow> Inr (Other (Give 0), d'))"

definition rwtas_rwlock_destroy :: "u64 \<Rightarrow> directory \<Rightarrow> abort + rw_target \<times> directory" where
  "rwtas_rwlock_destroy rwlock d =
     (case hash_get rwlock (lock_tab d) of
        None \<Rightarrow> Inl Lookup_spins
      | Some impl \<Rightarrow>
          if impl = 0 then Inr (Other (Give 0), d)
          else case impls d impl of
                 None \<Rightarrow> Inl Bad_pointer
               | Some l \<Rightarrow> Inr (Zero_after Rw_dispose l, d\<lparr>impls := (impls d)(impl := None)\<rparr>))"

definition rwtas_rwlock_rdlock :: "u64 \<Rightarrow> maddr \<Rightarrow> u64 \<Rightarrow> directory \<Rightarrow> abort + rw_target \<times> directory" where
  "rwtas_rwlock_rdlock p m rwlock d = with_rwlock (Result_of Rd) p m rwlock d"

definition rwtas_rwlock_wrlock :: "u64 \<Rightarrow> maddr \<Rightarrow> u64 \<Rightarrow> directory \<Rightarrow> abort + rw_target \<times> directory" where
  "rwtas_rwlock_wrlock p m rwlock d = with_rwlock (Result_of Wr) p m rwlock d"

definition rwtas_rwlock_timedrdlock :: "u64 \<Rightarrow> directory \<Rightarrow> abort + rw_target \<times> directory" where
  "rwtas_rwlock_timedrdlock rwlock d = Inl Not_supported"

definition rwtas_rwlock_timedwrlock :: "u64 \<Rightarrow> directory \<Rightarrow> abort + rw_target \<times> directory" where
  "rwtas_rwlock_timedwrlock rwlock d = Inl Not_supported"

definition rwtas_rwlock_tryrdlock :: "u64 \<Rightarrow> maddr \<Rightarrow> u64 \<Rightarrow> directory \<Rightarrow> abort + rw_target \<times> directory" where
  "rwtas_rwlock_tryrdlock p m rwlock d = with_rwlock (Result_of Try_rd) p m rwlock d"

definition rwtas_rwlock_trywrlock :: "u64 \<Rightarrow> maddr \<Rightarrow> u64 \<Rightarrow> directory \<Rightarrow> abort + rw_target \<times> directory" where
  "rwtas_rwlock_trywrlock p m rwlock d = with_rwlock (Result_of Try_wr) p m rwlock d"

definition rwtas_rwlock_unlock :: "u64 \<Rightarrow> maddr \<Rightarrow> u64 \<Rightarrow> directory \<Rightarrow> abort + rw_target \<times> directory" where
  "rwtas_rwlock_unlock p m rwlock d = with_rwlock (Zero_after Rw_release) p m rwlock d"

text \<open>All calls of this build; the calls on mutexes and condition variables are those of the other.\<close>

fun rwtas_interpose :: "u64 \<Rightarrow> maddr \<Rightarrow> pcall \<Rightarrow> directory \<Rightarrow> abort + rw_target \<times> directory" where
  "rwtas_interpose p m (Rw_init a) d = rwtas_rwlock_init True p m a d"
| "rwtas_interpose p m (Rw_destroy a) d = rwtas_rwlock_destroy a d"
| "rwtas_interpose p m (Rw_rdlock a) d = rwtas_rwlock_rdlock p m a d"
| "rwtas_interpose p m (Rw_wrlock a) d = rwtas_rwlock_wrlock p m a d"
| "rwtas_interpose p m (Rw_timedrdlock a) d = rwtas_rwlock_timedrdlock a d"
| "rwtas_interpose p m (Rw_timedwrlock a) d = rwtas_rwlock_timedwrlock a d"
| "rwtas_interpose p m (Rw_tryrdlock a) d = rwtas_rwlock_tryrdlock p m a d"
| "rwtas_interpose p m (Rw_trywrlock a) d = rwtas_rwlock_trywrlock p m a d"
| "rwtas_interpose p m (Rw_unlock a) d = rwtas_rwlock_unlock p m a d"
| "rwtas_interpose p m c d =
     (case interpose p m c d of Inl x \<Rightarrow> Inl x | Inr (t, d') \<Rightarrow> Inr (Other t, d'))"

lemmas rwtas_defs = rwtas_rwlock_init_def rwtas_rwlock_destroy_def rwtas_rwlock_rdlock_def
  rwtas_rwlock_wrlock_def rwtas_rwlock_timedrdlock_def rwtas_rwlock_timedwrlock_def
  rwtas_rwlock_tryrdlock_def rwtas_rwlock_trywrlock_def rwtas_rwlock_unlock_def

section \<open>The directory of both builds\<close>

text \<open>The two directories are used in the same way, so the facts about mutexes carry over.\<close>

lemma ht_rwlock_create_eq: "ht_rwlock_create = ht_lock_create"
  by (intro ext) (simp add: ht_rwlock_create_def ht_lock_create_def)

lemma ht_rwlock_get_eq: "ht_rwlock_get = ht_lock_get"
  unfolding fun_eq_iff ht_rwlock_get_def ht_lock_get_def ht_rwlock_create_eq by simp

lemma with_rwlock_resolved: "resolved a l d \<Longrightarrow> with_rwlock f p m a d = Inr (f l, d)"
  using ht_lock_get_resolved [of a l d p m] by (auto simp: with_rwlock_def ht_rwlock_get_eq)

lemma with_rwlock_ok:
  assumes "live_ok D d" and "fresh_block p m d" and "a \<noteq> 0" and "a \<notin> D"
    and "with_rwlock f p m a d = Inr (t, d')"
  shows "live_ok D d' \<and> (\<forall>b l. b \<noteq> 0 \<longrightarrow> resolved b l d \<longrightarrow> resolved b l d')"
proof -
  from assms(5) obtain w where "ht_lock_get p m a d = Inr (w, d')"
    by (auto simp: with_rwlock_def ht_rwlock_get_eq split: sum.splits option.splits)
  from ht_lock_get_cases [OF assms(1-4) this] show ?thesis by blast
qed

text \<open>Freeing the block of \<open>a\<close> leaves every other live address as it is.\<close>

lemma dispose_ok:
  assumes "live_ok D d" and a: "a \<noteq> 0" "a \<notin> D" "hash_get a (lock_tab d) = Some w" "w \<noteq> 0"
  defines "d' \<equiv> d\<lparr>impls := (impls d)(w := None)\<rparr>"
  shows "live_ok (insert a D) d'"
    and "b \<noteq> 0 \<Longrightarrow> b \<notin> insert a D \<Longrightarrow> resolved b l d \<Longrightarrow> resolved b l d'"
proof -
  have other: "x \<noteq> w" if "k \<noteq> 0" "k \<notin> insert a D" "hash_get k (lock_tab d) = Some x" for k x
    using live_ok_D(3) [OF assms(1) that(1) _ a(1,2), of x] that a(3,4) by auto
  show "live_ok (insert a D) d'"
    unfolding live_ok_def d'_def
    using live_ok_D [OF assms(1)] other by (simp add: live_ok_D(1) [OF assms(1)])
  show "b \<noteq> 0 \<Longrightarrow> b \<notin> insert a D \<Longrightarrow> resolved b l d \<Longrightarrow> resolved b l d'"
    using other by (auto simp: resolved_def d'_def)
qed

fun destroyed :: "pcall \<Rightarrow> u64 set" where
  "destroyed (Rw_destroy a) = {a}"
| "destroyed c = {}"

lemma rwtas_interpose_effects:
  "rwtas_interpose p m c d = Inr (t, d') \<Longrightarrow>
   d' = d \<or> (\<exists>w. ht_lock_create p m (call_key c) d = Inr (w, d')) \<or>
   (\<exists>f. with_rwlock f p m (call_key c) d = Inr (t, d')) \<or>
   (\<exists>w. destroyed c = {call_key c} \<and> hash_get (call_key c) (lock_tab d) = Some w \<and> w \<noteq> 0 \<and>
      d' = d\<lparr>impls := (impls d)(w := None)\<rparr>) \<or>
   (\<exists>t'. interpose p m c d = Inr (t', d'))"
  by (cases c)
    (auto simp: rwtas_defs ht_rwlock_create_eq split: sum.splits option.splits if_splits)

lemma rwtas_cases [consumes 1, case_names given created looked_up disposed same]:
  assumes "rwtas_interpose p m c d = Inr (t, d')"
  obtains "d' = d"
  | w where "ht_lock_create p m (call_key c) d = Inr (w, d')"
  | f where "with_rwlock f p m (call_key c) d = Inr (t, d')"
  | w where "destroyed c = {call_key c}" "hash_get (call_key c) (lock_tab d) = Some w" "w \<noteq> 0"
      "d' = d\<lparr>impls := (impls d)(w := None)\<rparr>"
  | t' where "interpose p m c d = Inr (t', d')"
  using rwtas_interpose_effects [OF assms] by blast

lemma live_ok_mono:
  assumes "live_ok D d" and "D \<subseteq> E"
  shows "live_ok E d"
proof -
  have D: "k \<notin> D" if "k \<notin> E" for k using that assms(2) by blast
  show ?thesis
    unfolding live_ok_def
    using live_ok_D [OF assms(1)] D by (intro conjI allI impI) (simp, simp, metis, metis)
qed

lemma rwtas_ok:
  assumes "live_ok D d" and "fresh_block p m d" and key: "call_key c \<noteq> 0" "call_key c \<notin> D"
    and "rwtas_interpose p m c d = Inr (t, d')"
  shows "live_ok (D \<union> destroyed c) d' \<and>
    (\<forall>b l. b \<noteq> 0 \<longrightarrow> b \<notin> D \<union> destroyed c \<longrightarrow> resolved b l d \<longrightarrow> resolved b l d')"
  using assms(5)
proof (cases rule: rwtas_cases)
  case given
  with assms(1) show ?thesis by (auto intro: live_ok_mono)
next
  case (created w)
  with ht_lock_create_ok [OF assms(1,2) key(1)] resolved_create [OF assms(1,2) key(1)]
  show ?thesis by (auto intro: live_ok_mono)
next
  case (looked_up f)
  with with_rwlock_ok [OF assms(1,2) key] show ?thesis by (auto intro: live_ok_mono)
next
  case (disposed w)
  with dispose_ok [OF assms(1) key disposed(2,3)] show ?thesis by simp
next
  case (same t')
  with interpose_ok [OF assms(1-4)] show ?thesis by (auto intro: live_ok_mono)
qed

section \<open>Programs that do not use a lock after its end\<close>

text \<open>
  The set of addresses is the addresses whose read-write lock has been destroyed; a
  program of this kind does not use them again, not even for a new lock.
\<close>

fun run_rwtas :: "(u64 \<times> maddr \<times> pcall) list \<Rightarrow> u64 set \<times> directory \<Rightarrow> (u64 set \<times> directory) option" where
  "run_rwtas [] s = Some s"
| "run_rwtas ((p, m, c) # cs) (D, d) =
     (if p \<noteq> 0 \<and> impls d p = None \<and> m \<notin> ran (impls d) \<and> call_key c \<noteq> 0 \<and> call_key c \<notin> D
      then case rwtas_interpose p m c d of
             Inl a \<Rightarrow> None
           | Inr (t, d') \<Rightarrow> run_rwtas cs (D \<union> destroyed c, d')
      else None)"

lemma run_rwtas_ok:
  "run_rwtas cs (D, d) = Some (D', d') \<Longrightarrow> live_ok D d \<Longrightarrow>
   live_ok D' d' \<and> D \<subseteq> D' \<and> (\<forall>b l. b \<noteq> 0 \<longrightarrow> b \<notin> D' \<longrightarrow> resolved b l d \<longrightarrow> resolved b l d')"
proof (induction cs arbitrary: D d)
  case (Cons x cs)
  obtain p m c where x: "x = (p, m, c)" by (cases x)
  from Cons.prems(1) obtain t d1 where d1: "rwtas_interpose p m c d = Inr (t, d1)"
    "run_rwtas cs (D \<union> destroyed c, d1) = Some (D', d')"
    and key: "fresh_block p m d" "call_key c \<noteq> 0" "call_key c \<notin> D"
    by (auto simp: x fresh_block_def split: if_splits sum.splits)
  from rwtas_ok [OF Cons.prems(2) key d1(1)] Cons.IH [OF d1(2)] show ?case by blast
qed simp

text \<open>
  C33. In a program that never uses the address of a destroyed read-write lock again, not even
  for a new lock: as long as the read-write lock at \<open>a\<close> is not destroyed, every call on \<open>a\<close>
  operates on the lock \<open>a\<close> was resolved to first, whatever other locks are created, used and
  destroyed meanwhile and wherever the allocator puts them; and no other live address has
  this lock. (POSIX allows such an address to be initialised anew;
  \<open>reinit_takes_foreign_lock\<close> shows what this can do.)
\<close>

theorem live_rwlock_keeps_its_lock:
  assumes "live_ok D d" and "a \<noteq> 0" and "resolved a l d"
    and "run_rwtas cs (D, d) = Some (D', d')" and "a \<notin> D'"
    and "b \<noteq> 0" and "b \<notin> D'" and "b \<noteq> a"
  shows "rwtas_rwlock_rdlock p m a d' = Inr (Result_of Rd l, d') \<and>
    rwtas_rwlock_wrlock p m a d' = Inr (Result_of Wr l, d') \<and>
    rwtas_rwlock_tryrdlock p m a d' = Inr (Result_of Try_rd l, d') \<and>
    rwtas_rwlock_trywrlock p m a d' = Inr (Result_of Try_wr l, d') \<and>
    rwtas_rwlock_unlock p m a d' = Inr (Zero_after Rw_release l, d') \<and>
    (\<exists>d''. rwtas_rwlock_destroy a d' = Inr (Zero_after Rw_dispose l, d'')) \<and>
    \<not> resolved b l d'"
proof -
  have ok: "live_ok D' d'" and a: "resolved a l d'"
    using run_rwtas_ok [OF assms(4,1)] assms(2,3,5) by blast+
  have "\<not> resolved b l d'" using resolved_inj [OF ok assms(2,5,6,7) a] assms(8) by blast
  moreover have "\<exists>d''. rwtas_rwlock_destroy a d' = Inr (Zero_after Rw_dispose l, d'')"
    using a by (auto simp: resolved_def rwtas_rwlock_destroy_def)
  ultimately show ?thesis using a by (simp add: rwtas_defs with_rwlock_resolved)
qed

section \<open>Use after destroy\<close>

text \<open>What a call on a read-write lock hands on, given the lock.\<close>

fun rw_answer :: "pcall \<Rightarrow> (maddr \<Rightarrow> rw_target) option" where
  "rw_answer (Rw_rdlock a) = Some (Result_of Rd)"
| "rw_answer (Rw_wrlock a) = Some (Result_of Wr)"
| "rw_answer (Rw_tryrdlock a) = Some (Result_of Try_rd)"
| "rw_answer (Rw_trywrlock a) = Some (Result_of Try_wr)"
| "rw_answer (Rw_unlock a) = Some (Zero_after Rw_release)"
| "rw_answer (Rw_destroy a) = Some (Zero_after Rw_dispose)"
| "rw_answer c = None"

lemma rw_answer_block:
  assumes "rw_answer c = Some f" and "hash_get (call_key c) (lock_tab d) = Some w" and "w \<noteq> 0"
  shows "impls d w = None \<Longrightarrow> rwtas_interpose q k c d = Inl Bad_pointer"
    and "impls d w = Some l \<Longrightarrow> \<exists>d'. rwtas_interpose q k c d = Inr (f l, d')"
  using assms by (cases c; auto simp: rwtas_defs with_rwlock_def ht_rwlock_get_def)+

text \<open>A new initialisation does not change what an address leads to that is in the table.\<close>

lemma init_lookups:
  assumes "live_ok D d" and "fresh_block p m d" and "b \<noteq> 0" and "rwtas_rwlock_init True p m b d = Inr (t, d')"
  shows "t = Other (Give 0)" "impls d' = (impls d)(p \<mapsto> m)"
    "a \<noteq> 0 \<Longrightarrow> hash_get a (lock_tab d) = Some w \<Longrightarrow> w \<noteq> 0 \<Longrightarrow> hash_get a (lock_tab d') = Some w"
    "hash_get b (lock_tab d) = Some 0 \<Longrightarrow> hash_get b (lock_tab d') = Some p"
proof -
  from assms(4) obtain v where v: "ht_lock_create p m b d = Inr (v, d')" and t: "t = Other (Give 0)"
    by (auto simp: rwtas_rwlock_init_def ht_rwlock_create_eq split: sum.splits)
  note look = ht_lock_create_lookups [OF assms(1-3) v]
  show "t = Other (Give 0)" "impls d' = (impls d)(p \<mapsto> m)" using t look(2) by simp_all
  show "hash_get a (lock_tab d') = Some w" if "a \<noteq> 0" "hash_get a (lock_tab d) = Some w" "w \<noteq> 0"
    using look(4) look(5) [of a] that by (cases "a = b") auto
  show "hash_get b (lock_tab d') = Some p" if "hash_get b (lock_tab d) = Some 0"
    using look(4) that by simp
qed


text \<open>
  C35. A legal program can lose a lock. The read-write lock at \<open>a\<close> is destroyed, one at \<open>b\<close> is
  initialised and its block is put where that of \<open>a\<close> was, and then \<open>a\<close> is initialised anew and
  destroyed, as POSIX allows. The second destruction finds the block of \<open>b\<close>, disposes of its
  lock and frees it: every later call on \<open>b\<close>, which was never destroyed, reads freed memory.
\<close>

theorem reinit_takes_foreign_lock:
  assumes "directory_ok d" and "a \<noteq> 0" and "resolved a l d" and "hash_get a (lock_tab d) = Some p"
    and "rwtas_rwlock_destroy a d = Inr (t, d1)"
    and "b \<noteq> 0" and "hash_get b (lock_tab d) = Some 0" and "fresh_block p m d1"
    and "rwtas_rwlock_init True p m b d1 = Inr (t', d2)"
    and "fresh_block p' m' d2" and "rwtas_rwlock_init True p' m' a d2 = Inr (t'', d3)"
    and "rwtas_rwlock_destroy a d3 = Inr (u, d4)"
    and c: "call_key c = b" "rw_answer c = Some f"
  shows "u = Zero_after Rw_dispose m \<and> rwtas_interpose q k c d4 = Inl Bad_pointer"
proof -
  have p: "p \<noteq> 0" and p': "p' \<noteq> p"
  proof -
    show "p \<noteq> 0" using assms(8) by (simp add: fresh_block_def)
    have "impls d2 p = Some m"
      using assms(9) by (auto simp: rwtas_rwlock_init_def ht_rwlock_create_def Let_def split: prod.splits if_splits)
    then show "p' \<noteq> p" using assms(10) by (auto simp: fresh_block_def)
  qed
  have "impls d p = Some l" using assms(3,4) by (simp add: resolved_def)
  then have d1: "d1 = d\<lparr>impls := (impls d)(p := None)\<rparr>"
    using assms(4,5) p by (simp add: rwtas_rwlock_destroy_def)
  have live1: "live_ok {a} d1" using dispose_ok(1) [OF assms(1,2) _ assms(4) p] d1 by simp
  note init1 = init_lookups [OF live1 assms(8,6,9)]
  have a2: "hash_get a (lock_tab d2) = Some p" using init1(3) [OF assms(2) _ p] assms(4) d1 by simp
  have b2: "hash_get b (lock_tab d2) = Some p" using init1(4) assms(7) d1 by simp
  from assms(9) obtain v where "ht_lock_create p m b d1 = Inr (v, d2)"
    by (auto simp: rwtas_rwlock_init_def ht_rwlock_create_eq split: sum.splits)
  then have live2: "live_ok {a} d2" using ht_lock_create_ok [OF live1 assms(8,6)] by blast
  note init2 = init_lookups [OF live2 assms(10,2,11)]
  have a3: "hash_get a (lock_tab d3) = Some p" and b3: "hash_get b (lock_tab d3) = Some p"
    using init2(3) [OF assms(2) a2 p] init2(3) [OF assms(6) b2 p] by simp_all
  have "impls d3 p = Some m" using init1(2) init2(2) p' by simp
  then have "u = Zero_after Rw_dispose m" "d4 = d3\<lparr>impls := (impls d3)(p := None)\<rparr>"
    using assms(12) a3 p by (simp_all add: rwtas_rwlock_destroy_def)
  with rw_answer_block(1) [OF c(2) _ p, of d4] b3 c(1) show ?thesis by simp
qed

section \<open>Small programs\<close>

definition one_rwlock :: "(u64 \<times> maddr \<times> pcall) list" where
  "one_rwlock = [(4096, 1, Rw_rdlock 64)]"

text \<open>A second lock is destroyed and a third one gets its block.\<close>

definition reused_block :: "(u64 \<times> maddr \<times> pcall) list" where
  "reused_block = [(8192, 2, Rw_init 80), (12288, 3, Rw_destroy 80), (8192, 4, Rw_wrlock 96)]"

lemmas rwtas_eval = table_eval rwtas_defs with_rwlock_def ht_rwlock_get_def ht_rwlock_create_def

lemma one_rwlock_result:
  "\<exists>d. run_rwtas one_rwlock ({}, empty_directory) = Some ({}, d) \<and> resolved 64 1 d \<and>
     hash_get 64 (lock_tab d) = Some 4096 \<and> hash_get 80 (lock_tab d) = Some 0 \<and>
     (\<exists>d'. run_rwtas reused_block ({}, d) = Some ({80}, d')) \<and>
     (\<exists>t d1. rwtas_rwlock_destroy 64 d = Inr (t, d1) \<and> fresh_block 4096 2 d1 \<and>
        (\<exists>t' d2. rwtas_rwlock_init True 4096 2 80 d1 = Inr (t', d2)))"
  by (simp add: rwtas_eval one_rwlock_def reused_block_def Let_def ran_def fresh_block_def)

theorem live_rwlock_keeps_its_lock_witness:
  "\<exists>d. rwtas_rwlock_wrlock 0 0 64 d = Inr (Result_of Wr 1, d) \<and> \<not> resolved 96 1 d"
proof -
  obtain d d' where d: "run_rwtas one_rwlock ({}, empty_directory) = Some ({}, d)" "resolved 64 1 d"
    "run_rwtas reused_block ({}, d) = Some ({80}, d')"
    using one_rwlock_result by blast
  have "directory_ok d" using run_rwtas_ok [OF d(1) directory_ok_empty] by blast
  from live_rwlock_keeps_its_lock [OF this _ d(2,3), of 96 0 0] show ?thesis by auto
qed


theorem reinit_takes_foreign_lock_witness:
  "\<exists>d3 d4. rwtas_rwlock_destroy 64 d3 = Inr (Zero_after Rw_dispose 2, d4) \<and>
     rwtas_interpose 0 0 (Rw_rdlock 80) d4 = Inl Bad_pointer"
proof -
  have "\<exists>d t d1 t' d2 t'' d3 u d4. run_rwtas one_rwlock ({}, empty_directory) = Some ({}, d) \<and> resolved 64 1 d \<and>
     hash_get 64 (lock_tab d) = Some 4096 \<and> hash_get 80 (lock_tab d) = Some 0 \<and>
     rwtas_rwlock_destroy 64 d = Inr (t, d1) \<and> fresh_block 4096 2 d1 \<and>
     rwtas_rwlock_init True 4096 2 80 d1 = Inr (t', d2) \<and> fresh_block 8192 3 d2 \<and>
     rwtas_rwlock_init True 8192 3 64 d2 = Inr (t'', d3) \<and> rwtas_rwlock_destroy 64 d3 = Inr (u, d4)"
    by (simp add: rwtas_eval one_rwlock_def Let_def ran_def fresh_block_def)
  then obtain d t d1 t' d2 t'' d3 u d4 where d: "run_rwtas one_rwlock ({}, empty_directory) = Some ({}, d)"
    "resolved 64 1 d" "hash_get 64 (lock_tab d) = Some 4096" "hash_get 80 (lock_tab d) = Some 0"
    "rwtas_rwlock_destroy 64 d = Inr (t, d1)" "fresh_block 4096 2 d1"
    "rwtas_rwlock_init True 4096 2 80 d1 = Inr (t', d2)" "fresh_block 8192 3 d2"
    "rwtas_rwlock_init True 8192 3 64 d2 = Inr (t'', d3)" "rwtas_rwlock_destroy 64 d3 = Inr (u, d4)"
    by blast
  have "directory_ok d" using run_rwtas_ok [OF d(1) directory_ok_empty] by blast
  from reinit_takes_foreign_lock [OF this _ d(2,3,5) _ d(4,6-10), of "Rw_rdlock 80" "Result_of Rd" 0 0] d(10)
  show ?thesis by auto
qed

end
