(* ===== verification/Library.thy ===== *)
theory Library
  imports Interpose MutexSafety
begin

text \<open>
  Where the two halves of the library meet: how a call of \<open>src/interpose.c\<close> whose address has
  been resolved enters the machine of \<open>src/htll.c\<close>, how a lock that was just created starts
  there, and which locks a thread works with. \<open>Contention\<close> and \<open>Publication\<close> put the
  resolution itself, slot by slot, in front of it.
\<close>

section \<open>Entering the machine\<close>

text \<open>
  What a wrapper does with its target: return the result, or enter the operation. Callers
  are disciplined in terms of the lock their address resolves to.
\<close>

definition hand_on :: "tid \<Rightarrow> target \<Rightarrow> sys \<Rightarrow> sys option" where
  "hand_on i t s =
     (case t of
        Give r \<Rightarrow> Some (return i r s)
      | Run x \<Rightarrow> if disciplined i x s then Some (call i x s) else None)"

definition idle :: "tid \<Rightarrow> sys \<Rightarrow> bool" where
  "idle i s \<longleftrightarrow> i < nthreads s \<and> pc (thr s i) = Idle"

section \<open>The locks a thread works with\<close>

fun pc_mutex :: "pc \<Rightarrow> maddr option" where
  "pc_mutex (In_lock p m) = Some m"
| "pc_mutex (In_trylock m) = Some m"
| "pc_mutex (In_unlock p m k) = Some m"
| "pc_mutex (In_wait p c m d) = Some m"
| "pc_mutex _ = None"

definition uses :: "thread \<Rightarrow> maddr set" where
  "uses t = held t \<union> set_option (pc_mutex (pc t))"

fun op_mutex :: "op \<Rightarrow> maddr option" where
  "op_mutex (Lock m) = Some m"
| "op_mutex (Trylock m) = Some m"
| "op_mutex (Unlock m) = Some m"
| "op_mutex (Cond_wait c m) = Some m"
| "op_mutex (Cond_timedwait c m ts) = Some m"
| "op_mutex _ = None"

lemma uses_moved:
  assumes "moved t t'"
  shows "uses t' = uses t"
proof -
  have "pc_mutex (awake p) = pc_mutex p" for p
    by (cases p rule: awake.cases) (simp_all add: after_cond_futex_def)
  moreover have "pc_mutex (requeue_pc c q p) = pc_mutex p" for c q p
    by (cases "(c, q, p)" rule: requeue_pc.cases) auto
  ultimately show ?thesis using assms by (auto simp: uses_def moved_def woken_def)
qed

lemma uses_at:
  "uses t \<subseteq> insert m H \<longleftrightarrow> held t \<subseteq> insert m H \<and> pc_mutex (pc t) \<in> {None, Some m} \<union> Some ` H"
  by (cases "pc_mutex (pc t)") (auto simp: uses_def)

lemmas uses_eval = uses_at swap8_or_eq swap32_or_eq Let_def acquired_def unlocked_def

lemma lock_step_uses:
  "lock_step e i m p s = Some s' \<Longrightarrow> uses (thr s' i) \<subseteq> insert m (held (thr s i))"
  by (cases p) (auto simp: uses_eval split: option.splits sum.splits if_splits)

lemma unlock_step_uses:
  assumes "unlock_step e i m k p s = Some s'"
  shows "uses (thr s' i) \<subseteq> insert m (held (thr s i))"
proof (cases p)
  case U_wake
  with assms obtain s1 where "futex_wake1 (Mutex_word m) (wake e) s = Some s1" "s' = unlocked i m k s1"
    by auto
  moreover from this have "held (thr s1 i) = held (thr s i)"
    using moved_keeps(1) [OF moves_thr [OF futex_wake1_moves]] by blast
  ultimately show ?thesis by (auto simp: uses_eval split: caller.splits)
qed (use assms in \<open>auto simp: uses_eval sync_cas32_def case_prod_beta
    split: option.splits if_splits caller.splits\<close>)

lemma wait_step_uses:
  "wait_step e i c m d p s = Some s' \<Longrightarrow> uses (thr s' i) \<subseteq> insert m (held (thr s i))"
  by (cases p) (auto simp: uses_eval after_cond_futex_def split: option.splits sum.splits if_splits)

lemma signal_step_uses:
  "signal_step e i b c s = Some s' \<Longrightarrow> uses (thr s' i) \<subseteq> held (thr s i)"
  using moved_keeps(1) [OF moves_thr [OF futex_wake1_moves], of _ _ s]
  by (cases b) (auto simp: uses_def)

lemma broadcast_step_uses:
  "broadcast_step e i q b c s = Some s' \<Longrightarrow> uses (thr s' i) \<subseteq> held (thr s i)"
  using moved_keeps(1) [OF moves_thr [OF futex_requeue_moves], of _ _ _ s]
  by (cases "(e, i, q, b, c, s)" rule: broadcast_step.cases) (auto simp: uses_def split: option.splits)

text \<open>No step makes a thread work with another lock than before.\<close>

lemma thread_step_uses:
  assumes "thread_step e i s = Some s'"
  shows "uses (thr s' j) \<subseteq> uses (thr s j)"
proof (cases "j = i")
  case True
  have own: "uses (thr s i) = insert m (held (thr s i))" if "pc_mutex (pc (thr s i)) = Some m" for m
    using that by (auto simp: uses_def)
  show ?thesis
  proof (cases "pc (thr s i)")
    case (In_trylock m)
    then have "s' = swap8_or i m (return i EBUSY) s"
      using assms by (simp add: thread_step_def trylock_step_def)
    then show ?thesis using True own [of m] In_trylock by (auto simp: uses_eval)
  next
    case (In_signal b c)
    then have "uses (thr s' i) \<subseteq> held (thr s i)"
      using assms signal_step_uses by (simp add: thread_step_def)
    then show ?thesis using True by (auto simp: uses_def)
  next
    case (In_bcast q b c)
    then have "uses (thr s' i) \<subseteq> held (thr s i)"
      using assms broadcast_step_uses by (simp add: thread_step_def)
    then show ?thesis using True by (auto simp: uses_def)
  qed (use True assms own in \<open>simp_all add: thread_step_def lock_step_uses unlock_step_uses wait_step_uses\<close>)
next
  case False
  then show ?thesis using uses_moved [OF thread_step_frame(2) [OF assms]] by simp
qed

lemma call_uses:
  "uses (thr (call i x s) j) \<subseteq> uses (thr s j) \<union> set_option (op_mutex x)"
  by (cases "j = i"; cases x) (auto simp: uses_def lock_enter_def seg_call_def split: sum.splits)

section \<open>What entering preserves\<close>

text \<open>A lock that nobody owns can be made anew.\<close>

lemma mutex_inv_create:
  assumes "mutex_inv s" and "owners m s = {}"
  shows "mutex_inv (upd_mtx m (\<lambda>_. htll_mutex_create) s)"
  using assms
  by (auto simp: mutex_inv_def word_inv_def owned_def lock_word_def upd_mtx_def owners_def
      htll_mutex_create_def)

lemma hand_on_cases:
  assumes "hand_on i t s = Some s'"
  obtains r where "t = Give r" "s' = return i r s"
  | x where "t = Run x" "disciplined i x s" "s' = call i x s"
  using assms by (auto simp: hand_on_def split: target.splits if_splits)

lemma hand_on_ok:
  assumes "hand_on i t s = Some s'" and "idle i s" and "mutex_inv s"
  shows "mutex_inv s' \<and> nthreads s' = nthreads s \<and> owners m s' = owners m s"
  using assms(1)
proof (cases rule: hand_on_cases)
  case (1 r)
  then show ?thesis using assms(2,3) by (auto simp: mutex_inv_def idle_def)
next
  case (2 x)
  then have "sys_step (\<lambda>_ _ _. True) s s'"
    using assms(2) sys_step.calls [of i s x "\<lambda>_ _ _. True"] by (simp add: idle_def)
  from mutex_inv_step [OF this assms(3)] 2 show ?thesis by (simp add: call_frame call_owners)
qed

lemma hand_on_uses:
  assumes "hand_on i t s = Some s'"
  shows "uses (thr s' j) \<subseteq> uses (thr s j) \<union> (case t of Run x \<Rightarrow> set_option (op_mutex x) | _ \<Rightarrow> {})"
  using assms
proof (cases rule: hand_on_cases)
  case (1 r)
  then show ?thesis by (cases "j = i") (auto simp: uses_def)
qed (use call_uses in auto)

text \<open>A call without a mutex and an awakening are steps of the machine that change no owner.\<close>

lemma entry_event:
  assumes "idle i s" and "disciplined i x s" and "op_mutex x = None"
  shows "sys_step (\<lambda>_ _ _. True) s (call i x s)" "uses (thr (call i x s) j) \<subseteq> uses (thr s j)"
    "owners m (call i x s) = owners m s"
  using assms call_uses [of i x s j] by (auto simp: idle_def call_owners intro: sys_step.calls)

lemma awaken_event:
  assumes "i < nthreads s" and "sleeping_on (pc (thr s i)) \<noteq> None"
  shows "sys_step (\<lambda>_ _ _. True) s (awaken i s)" "uses (thr (awaken i s) j) \<subseteq> uses (thr s j)"
    "owners m (awaken i s) = owners m s"
  using sys_step.unblocks [OF assms] uses_moved [OF moves_thr [OF only_moves_awaken [OF assms(2)]]]
    owners_moves [OF only_moves_awaken [OF assms(2)]] by (blast, blast, blast)

end
