(* ===== verification/TableRace.thy ===== *)
theory TableRace
  imports HashTable
begin

text \<open>
  The lock-free operations of the directory of \<open>src/interpose.c\<close> under interleaving: any
  number of threads execute \<open>ht_lock_get\<close> (a lookup, followed by a creation if nothing was
  found) and \<open>ht_lock_create\<close> at the same time; a step is one access to a slot.
\<close>

section \<open>Steps\<close>

text \<open>
  Positions in \<open>hash_get\<close> (\<open>G_\<close>), in the allocation, in \<open>hash_put\<close> (\<open>P_\<close>), and after the
  return with a block or the end of the process.
\<close>

datatype tpc = T_out | G_key nat | G_val nat | G_ret nat | C_alloc
  | P_key nat | P_cas nat | P_store nat | T_ret u64 | T_exit

record tthread =
  tpc :: tpc
  tkey :: u64
  timpl :: u64

record race =
  rtab :: table
  used :: "u64 set"
  rthr :: "nat \<Rightarrow> tthread"

definition upd_race :: "nat \<Rightarrow> (tthread \<Rightarrow> tthread) \<Rightarrow> race \<Rightarrow> race" where
  "upd_race i f s = s\<lparr>rthr := (rthr s)(i := f (rthr s i))\<rparr>"

definition jump :: "nat \<Rightarrow> tpc \<Rightarrow> race \<Rightarrow> race" where
  "jump i p = upd_race i (\<lambda>t. t\<lparr>tpc := p\<rparr>)"

definition bucket :: "u64 \<Rightarrow> race \<Rightarrow> lock_table list" where
  "bucket k s = rtab s (my_hash k)"

definition put_slot :: "u64 \<Rightarrow> nat \<Rightarrow> (lock_table \<Rightarrow> lock_table) \<Rightarrow> race \<Rightarrow> race" where
  "put_slot k j f s =
     s\<lparr>rtab := (rtab s)(my_hash k := (bucket k s)[j := f (bucket k s ! j)])\<rparr>"

text \<open>\<open>p\<close> is the address the allocator returns if the step is the allocation.\<close>

fun race_pc_step :: "u64 \<Rightarrow> nat \<Rightarrow> u64 \<Rightarrow> tpc \<Rightarrow> race \<Rightarrow> race option" where
  "race_pc_step p i k (G_key j) s =
     Some (if BUCKET_LENGTH \<le> j then jump i C_alloc s
           else if key (bucket k s ! j) = k then jump i (G_val j) s
           else jump i (G_key (j + 1)) s)"
| "race_pc_step p i k (G_val j) s =
     Some (if val (bucket k s ! j) = 0 then s else jump i (G_ret j) s)"
| "race_pc_step p i k (G_ret j) s = Some (jump i (T_ret (val (bucket k s ! j))) s)"
| "race_pc_step p i k C_alloc s =
     (if p \<noteq> 0 \<and> p \<notin> used s
      then Some (upd_race i (\<lambda>t. t\<lparr>timpl := p, tpc := P_key 0\<rparr>) (s\<lparr>used := insert p (used s)\<rparr>))
      else None)"
| "race_pc_step p i k (P_key j) s =
     Some (if BUCKET_LENGTH \<le> j then jump i T_exit s
           else if key (bucket k s ! j) = 0 then jump i (P_cas j) s
           else jump i (P_key (j + 1)) s)"
| "race_pc_step p i k (P_cas j) s =
     Some (if key (bucket k s ! j) = 0
           then jump i (P_store j) (put_slot k j (\<lambda>x. x\<lparr>key := k\<rparr>) s)
           else jump i (P_key (j + 1)) s)"
| "race_pc_step p i k (P_store j) s =
     Some (jump i (T_ret (timpl (rthr s i))) (put_slot k j (\<lambda>x. x\<lparr>val := timpl (rthr s i)\<rparr>) s))"
| "race_pc_step p i k _ s = None"

datatype race_event = Get nat u64 | Create nat u64 | Step nat u64

definition may_call :: "nat \<Rightarrow> race \<Rightarrow> bool" where
  "may_call i s \<longleftrightarrow> (case tpc (rthr s i) of T_out \<Rightarrow> True | T_ret w \<Rightarrow> True | _ \<Rightarrow> False)"

fun race_exec :: "race_event \<Rightarrow> race \<Rightarrow> race option" where
  "race_exec (Get i k) s =
     (if may_call i s \<and> k \<noteq> 0 then Some (upd_race i (\<lambda>t. t\<lparr>tkey := k, tpc := G_key 0\<rparr>) s) else None)"
| "race_exec (Create i k) s =
     (if may_call i s \<and> k \<noteq> 0 then Some (upd_race i (\<lambda>t. t\<lparr>tkey := k, tpc := C_alloc\<rparr>) s) else None)"
| "race_exec (Step i p) s = race_pc_step p i (tkey (rthr s i)) (tpc (rthr s i)) s"

definition race_step :: "race \<Rightarrow> race \<Rightarrow> bool" where
  "race_step s s' \<longleftrightarrow> (\<exists>ev. race_exec ev s = Some s')"

abbreviation run_race :: "race_event list \<Rightarrow> race \<Rightarrow> race option" where
  "run_race \<equiv> exec_all race_exec"

definition race_init :: race where
  "race_init = \<lparr>rtab = pthread_lock_table, used = {}, rthr = (\<lambda>_. \<lparr>tpc = T_out, tkey = 0, timpl = 0\<rparr>)\<rparr>"

definition race_reachable :: "race \<Rightarrow> bool" where
  "race_reachable = reach (\<lambda>s. s = race_init) race_step"

subsection \<open>Updates\<close>

lemma upd_race_simps [simp]:
  "rtab (upd_race i f s) = rtab s" "used (upd_race i f s) = used s" "bucket k (upd_race i f s) = bucket k s"
  "rthr (upd_race i f s) j = (if j = i then f (rthr s i) else rthr s j)"
  by (simp_all add: upd_race_def bucket_def)

lemma jump_simps [simp]:
  "rtab (jump i p s) = rtab s" "used (jump i p s) = used s" "bucket k (jump i p s) = bucket k s"
  "rthr (jump i p s) j = (if j = i then (rthr s i)\<lparr>tpc := p\<rparr> else rthr s j)"
  by (simp_all add: jump_def)

lemma put_slot_simps [simp]:
  "used (put_slot k j f s) = used s" "rthr (put_slot k j f s) = rthr s"
  "bucket k' (put_slot k j f s) =
    (if my_hash k' = my_hash k then (bucket k s)[j := f (bucket k s ! j)] else bucket k' s)"
  "rtab (put_slot k j f s) h = (if h = my_hash k then (bucket k s)[j := f (bucket k s ! j)] else rtab s h)"
  by (auto simp: put_slot_def bucket_def)

lemma bucket_used [simp]: "bucket k (s\<lparr>used := u\<rparr>) = bucket k s"
  by (simp add: bucket_def)

section \<open>The invariant\<close>

text \<open>Keys fill a bucket from the left; a slot without a key has no value.\<close>

definition filled :: "lock_table list \<Rightarrow> bool" where
  "filled xs \<longleftrightarrow> length xs = BUCKET_LENGTH \<and>
     (\<forall>a b. a \<le> b \<longrightarrow> b < length xs \<longrightarrow> key (xs ! a) = 0 \<longrightarrow> key (xs ! b) = 0) \<and>
     (\<forall>a < length xs. key (xs ! a) = 0 \<longrightarrow> val (xs ! a) = 0)"

definition race_thread_ok :: "race \<Rightarrow> tthread \<Rightarrow> bool" where
  "race_thread_ok s t \<longleftrightarrow>
     (case tpc t of
        T_out \<Rightarrow> True
      | T_ret w \<Rightarrow> w \<noteq> 0
      | T_exit \<Rightarrow> True
      | G_key j \<Rightarrow> tkey t \<noteq> 0
      | C_alloc \<Rightarrow> tkey t \<noteq> 0
      | G_val j \<Rightarrow> tkey t \<noteq> 0 \<and> j < BUCKET_LENGTH \<and> key (bucket (tkey t) s ! j) = tkey t
      | G_ret j \<Rightarrow> tkey t \<noteq> 0 \<and> j < BUCKET_LENGTH \<and> key (bucket (tkey t) s ! j) = tkey t \<and>
          val (bucket (tkey t) s ! j) \<noteq> 0
      | P_key j \<Rightarrow> tkey t \<noteq> 0 \<and> timpl t \<noteq> 0 \<and>
          (\<forall>a<j. a < BUCKET_LENGTH \<longrightarrow> key (bucket (tkey t) s ! a) \<noteq> 0)
      | P_cas j \<Rightarrow> tkey t \<noteq> 0 \<and> timpl t \<noteq> 0 \<and> j < BUCKET_LENGTH \<and>
          (\<forall>a<j. key (bucket (tkey t) s ! a) \<noteq> 0)
      | P_store j \<Rightarrow> tkey t \<noteq> 0 \<and> timpl t \<noteq> 0 \<and> j < BUCKET_LENGTH \<and>
          key (bucket (tkey t) s ! j) = tkey t \<and> val (bucket (tkey t) s ! j) = 0)"

text \<open>The slot a thread has claimed and not yet given a value.\<close>

definition claim :: "tthread \<Rightarrow> (u64 \<times> nat) option" where
  "claim t = (case tpc t of P_store j \<Rightarrow> Some (my_hash (tkey t), j) | _ \<Rightarrow> None)"

definition race_inv :: "race \<Rightarrow> bool" where
  "race_inv s \<longleftrightarrow> (\<forall>h. filled (rtab s h)) \<and> (\<forall>i. race_thread_ok s (rthr s i)) \<and>
     (\<forall>i j. claim (rthr s i) \<noteq> None \<longrightarrow> claim (rthr s i) = claim (rthr s j) \<longrightarrow> i = j)"

text \<open>
  How a table grows in one step: keys are set once, values are set once, and only in slots
  that are claimed.
\<close>

definition grows :: "lock_table list \<Rightarrow> lock_table list \<Rightarrow> bool" where
  "grows xs ys \<longleftrightarrow> length ys = length xs \<and>
     (\<forall>a < length xs. (key (xs ! a) \<noteq> 0 \<longrightarrow> key (ys ! a) = key (xs ! a)) \<and>
        (val (xs ! a) \<noteq> 0 \<longrightarrow> val (ys ! a) = val (xs ! a)))"

lemma grows_refl [simp]: "grows xs xs"
  by (simp add: grows_def)

lemma filled_length: "filled xs \<Longrightarrow> length xs = BUCKET_LENGTH"
  by (simp add: filled_def)

lemma grows_key:
  assumes "filled xs" and "j < BUCKET_LENGTH" and "key (xs ! j) = 0" and "k \<noteq> 0"
  shows "grows xs (xs[j := (xs ! j)\<lparr>key := k\<rparr>])"
  using assms by (auto simp: grows_def filled_def nth_list_update)

lemma grows_val:
  assumes "length xs = BUCKET_LENGTH" and "j < BUCKET_LENGTH" and "val (xs ! j) = 0"
  shows "grows xs (xs[j := (xs ! j)\<lparr>val := v\<rparr>])"
  using assms by (auto simp: grows_def nth_list_update)

lemma filled_key:
  assumes "filled xs" and "j < BUCKET_LENGTH" and "\<forall>a<j. key (xs ! a) \<noteq> 0" and "k \<noteq> 0"
  shows "filled (xs[j := (xs ! j)\<lparr>key := k\<rparr>])"
  using assms unfolding filled_def
  by (auto simp: nth_list_update)

lemma filled_val:
  assumes "filled xs" and "j < BUCKET_LENGTH" and "key (xs ! j) \<noteq> 0"
  shows "filled (xs[j := (xs ! j)\<lparr>val := v\<rparr>])"
  using assms unfolding filled_def by (auto simp: nth_list_update)

text \<open>What a thread knows about its bucket survives the growth of the bucket.\<close>

lemma thread_ok_grows:
  assumes "race_thread_ok s t" and "\<And>k. grows (bucket k s) (bucket k s')"
    and "\<And>k. length (bucket k s) = BUCKET_LENGTH"
    and "\<And>j. tpc t = P_store j \<Longrightarrow> val (bucket (tkey t) s' ! j) = 0"
  shows "race_thread_ok s' t"
proof -
  have key: "key (bucket k s' ! a) = key (bucket k s ! a)"
    if "a < BUCKET_LENGTH" "key (bucket k s ! a) \<noteq> 0" for a k
    using assms(2) [of k] assms(3) [of k] that by (simp add: grows_def)
  have val: "val (bucket k s' ! a) = val (bucket k s ! a)"
    if "a < BUCKET_LENGTH" "val (bucket k s ! a) \<noteq> 0" for a k
    using assms(2) [of k] assms(3) [of k] that by (simp add: grows_def)
  show ?thesis
    using assms(1,4) key val
    by (cases "tpc t") (auto simp: race_thread_ok_def)
qed

lemma race_inv_initial: "race_inv race_init"
  by (auto simp: race_inv_def race_init_def filled_def pthread_lock_table_def race_thread_ok_def claim_def)

text \<open>A step that leaves the table alone.\<close>

lemma race_inv_same_table:
  assumes "race_inv s" and "rtab s' = rtab s" and "\<And>j. j \<noteq> i \<Longrightarrow> rthr s' j = rthr s j"
    and "race_thread_ok s' (rthr s' i)" and "claim (rthr s' i) = None"
  shows "race_inv s'"
proof -
  have "bucket k s' = bucket k s" for k by (simp add: bucket_def assms(2))
  then have same: "race_thread_ok s' t = race_thread_ok s t" for t
    by (cases "tpc t") (simp_all add: race_thread_ok_def)
  show ?thesis
    unfolding race_inv_def
  proof (intro conjI allI impI)
    show "filled (rtab s' h)" for h using assms(1,2) by (simp add: race_inv_def)
    show "race_thread_ok s' (rthr s' j)" for j
      using assms(1,3,4) same by (cases "j = i") (auto simp: race_inv_def)
    fix a b assume "claim (rthr s' a) \<noteq> None" "claim (rthr s' a) = claim (rthr s' b)"
    then show "a = b"
      using assms(1,3,5) unfolding race_inv_def by metis
  qed
qed

lemma race_inv_D:
  assumes "race_inv s"
  shows "filled (bucket k s)" "race_thread_ok s (rthr s i)" "filled (rtab s h)"
    "length (bucket k s) = BUCKET_LENGTH"
    "claim (rthr s i) \<noteq> None \<Longrightarrow> claim (rthr s i) = claim (rthr s j) \<Longrightarrow> i = j"
  using assms by (auto simp: race_inv_def bucket_def filled_def)

text \<open>A step that changes one slot of the bucket of the thread that makes it.\<close>

lemma race_inv_slot:
  assumes inv: "race_inv s" and j: "j < BUCKET_LENGTH"
    and s': "s' = jump i q (put_slot k j f s)" and filled: "filled ((bucket k s)[j := f (bucket k s ! j)])"
    and grows: "grows (bucket k s) ((bucket k s)[j := f (bucket k s ! j)])"
    and free: "\<And>b. b \<noteq> i \<Longrightarrow> claim (rthr s b) = Some (my_hash k, j) \<Longrightarrow> val (f (bucket k s ! j)) = 0"
    and own: "race_thread_ok s' (rthr s' i)"
    and unique: "\<And>b. b \<noteq> i \<Longrightarrow> claim (rthr s' i) \<noteq> None \<Longrightarrow> claim (rthr s b) \<noteq> claim (rthr s' i)"
  shows "race_inv s'"
proof -
  have others: "rthr s' b = rthr s b" if "b \<noteq> i" for b using that by (simp add: s')
  have g: "grows (bucket k' s) (bucket k' s')" for k'
    using grows by (auto simp: s' bucket_def)
  have ok: "race_thread_ok s' (rthr s b)" if b: "b \<noteq> i" for b
  proof (rule thread_ok_grows [OF race_inv_D(2) [OF inv] g race_inv_D(4) [OF inv]])
    fix a assume p: "tpc (rthr s b) = P_store a"
    then have v: "val (bucket (tkey (rthr s b)) s ! a) = 0" "a < BUCKET_LENGTH"
      using race_inv_D(2) [OF inv, of b] by (simp_all add: race_thread_ok_def)
    show "val (bucket (tkey (rthr s b)) s' ! a) = 0"
    proof (cases "my_hash (tkey (rthr s b)) = my_hash k \<and> a = j")
      case True
      then have "claim (rthr s b) = Some (my_hash k, j)" using p by (simp add: claim_def)
      with free [OF b] True v race_inv_D(4) [OF inv, of k] j show ?thesis
        by (simp add: s' bucket_def)
    next
      case False
      with v race_inv_D(4) [OF inv, of k] show ?thesis by (auto simp: s' bucket_def)
    qed
  qed
  show ?thesis
    unfolding race_inv_def
  proof (intro conjI allI impI)
    show "filled (rtab s' h)" for h using filled race_inv_D(3) [OF inv] by (simp add: s')
    show "race_thread_ok s' (rthr s' b)" for b using ok own others by (cases "b = i") auto
    fix a b assume "claim (rthr s' a) \<noteq> None" "claim (rthr s' a) = claim (rthr s' b)"
    then show "a = b" using others unique race_inv_D(5) [OF inv] by metis
  qed
qed

lemma claim_key:
  assumes "race_inv s" and "claim (rthr s b) = Some (my_hash k, j)"
  shows "key (bucket k s ! j) \<noteq> 0"
  using race_inv_D(2) [OF assms(1), of b] assms(2)
  by (auto simp: claim_def race_thread_ok_def bucket_def split: tpc.splits)

lemma race_inv_cas:
  assumes inv: "race_inv s" and p: "tpc (rthr s i) = P_cas j" and free: "key (bucket (tkey (rthr s i)) s ! j) = 0"
  shows "race_inv (jump i (P_store j) (put_slot (tkey (rthr s i)) j (\<lambda>x. x\<lparr>key := tkey (rthr s i)\<rparr>) s))"
proof -
  let ?k = "tkey (rthr s i)"
  have t: "?k \<noteq> 0" "timpl (rthr s i) \<noteq> 0" "j < BUCKET_LENGTH" "\<forall>a<j. key (bucket ?k s ! a) \<noteq> 0"
    using race_inv_D(2) [OF inv, of i] p by (auto simp: race_thread_ok_def)
  note f = race_inv_D(1) [OF inv, of ?k]
  have v: "val (bucket ?k s ! j) = 0" using f free t(3) by (simp add: filled_def)
  show ?thesis
  proof (rule race_inv_slot [OF inv t(3) refl])
    show "filled ((bucket ?k s)[j := (bucket ?k s ! j)\<lparr>key := ?k\<rparr>])"
      by (rule filled_key [OF f t(3,4,1)])
    show "grows (bucket ?k s) ((bucket ?k s)[j := (bucket ?k s ! j)\<lparr>key := ?k\<rparr>])"
      by (rule grows_key [OF f t(3) free t(1)])
    fix b assume "b \<noteq> i"
    show "val ((bucket ?k s ! j)\<lparr>key := ?k\<rparr>) = 0" using v by simp
  next
    show "race_thread_ok (jump i (P_store j) (put_slot ?k j (\<lambda>x. x\<lparr>key := ?k\<rparr>) s))
        (rthr (jump i (P_store j) (put_slot ?k j (\<lambda>x. x\<lparr>key := ?k\<rparr>) s)) i)"
      using t v filled_length [OF f] by (simp add: race_thread_ok_def)
  next
    fix b assume "b \<noteq> i"
    have "claim (rthr s b) \<noteq> Some (my_hash ?k, j)" using claim_key [OF inv] free by metis
    then show "claim (rthr s b) \<noteq>
        claim (rthr (jump i (P_store j) (put_slot ?k j (\<lambda>x. x\<lparr>key := ?k\<rparr>) s)) i)"
      by (simp add: claim_def)
  qed
qed

lemma race_inv_store:
  assumes inv: "race_inv s" and p: "tpc (rthr s i) = P_store j"
  shows "race_inv (jump i (T_ret (timpl (rthr s i)))
    (put_slot (tkey (rthr s i)) j (\<lambda>x. x\<lparr>val := timpl (rthr s i)\<rparr>) s))"
proof -
  let ?k = "tkey (rthr s i)" and ?v = "timpl (rthr s i)"
  have t: "?k \<noteq> 0" "?v \<noteq> 0" "j < BUCKET_LENGTH" "key (bucket ?k s ! j) = ?k" "val (bucket ?k s ! j) = 0"
    using race_inv_D(2) [OF inv, of i] p by (auto simp: race_thread_ok_def)
  note f = race_inv_D(1) [OF inv, of ?k]
  have mine: "claim (rthr s i) = Some (my_hash ?k, j)" using p by (simp add: claim_def)
  show ?thesis
  proof (rule race_inv_slot [OF inv t(3) refl])
    show "filled ((bucket ?k s)[j := (bucket ?k s ! j)\<lparr>val := ?v\<rparr>])"
      by (rule filled_val [OF f t(3)]) (use t in simp)
    show "grows (bucket ?k s) ((bucket ?k s)[j := (bucket ?k s ! j)\<lparr>val := ?v\<rparr>])"
      by (rule grows_val [OF filled_length [OF f] t(3,5)])
    fix b assume "b \<noteq> i" "claim (rthr s b) = Some (my_hash ?k, j)"
    then show "val ((bucket ?k s ! j)\<lparr>val := ?v\<rparr>) = 0"
      using race_inv_D(5) [OF inv, of b i] mine by simp
  qed (use t in \<open>simp_all add: race_thread_ok_def claim_def\<close>)
qed

lemma race_pc_step_inv:
  assumes inv: "race_inv s" and st: "race_pc_step p i (tkey (rthr s i)) (tpc (rthr s i)) s = Some s'"
  shows "race_inv s'"
proof -
  have ok: "race_thread_ok s (rthr s i)" by (rule race_inv_D(2) [OF inv])
  show ?thesis
  proof (cases "tpc (rthr s i)")
    case (P_cas j)
    show ?thesis
    proof (cases "key (bucket (tkey (rthr s i)) s ! j) = 0")
      case True
      with race_inv_cas [OF inv P_cas] st P_cas show ?thesis by simp
    next
      case False
      with st P_cas have s': "s' = jump i (P_key (j + 1)) s" by simp
      show ?thesis
        by (rule race_inv_same_table [OF inv, of _ i])
          (use ok P_cas False in \<open>auto simp: s' race_thread_ok_def claim_def less_Suc_eq\<close>)
    qed
  next
    case (P_store j)
    with race_inv_store [OF inv P_store] st show ?thesis by simp
  next
    case (P_key j)
    show ?thesis
      by (rule race_inv_same_table [OF inv, of _ i])
        (use ok st P_key in \<open>auto simp: race_thread_ok_def claim_def less_Suc_eq split: if_splits\<close>)
  qed (rule race_inv_same_table [OF inv, of _ i],
      use ok st in \<open>auto simp: race_thread_ok_def claim_def split: if_splits\<close>)+
qed

lemma race_exec_inv:
  assumes inv: "race_inv s" and st: "race_exec ev s = Some s'"
  shows "race_inv s'"
proof (cases ev)
  case (Get i k)
  show ?thesis
    by (rule race_inv_same_table [OF inv, of _ i])
      (use st Get in \<open>auto simp: race_thread_ok_def claim_def split: if_splits\<close>)
next
  case (Create i k)
  show ?thesis
    by (rule race_inv_same_table [OF inv, of _ i])
      (use st Create in \<open>auto simp: race_thread_ok_def claim_def split: if_splits\<close>)
next
  case (Step i p)
  with st show ?thesis by (auto intro: race_pc_step_inv [OF inv])
qed

interpretation race: checked_system race_exec race_step "\<lambda>s. s = race_init" race_inv
  by unfold_locales (auto simp: race_step_def race_inv_initial intro: race_exec_inv)

lemmas run_race_reach = race.run_reach

lemma race_reachable_inv: "race_reachable s \<Longrightarrow> race_inv s"
  unfolding race_reachable_def by (rule race.reachable_inv)

section \<open>What a lookup can rely on\<close>

lemma race_exec_grows:
  assumes inv: "race_inv s" and st: "race_exec ev s = Some s'"
  shows "grows (bucket k s) (bucket k s')"
proof (cases ev)
  case (Step i p)
  let ?t = "rthr s i"
  have ok: "race_thread_ok s ?t" by (rule race_inv_D(2) [OF inv])
  show ?thesis
  proof (cases "tpc ?t")
    case (P_cas j)
    then have "j < BUCKET_LENGTH" "tkey ?t \<noteq> 0" using ok by (auto simp: race_thread_ok_def)
    then show ?thesis
      using st Step P_cas grows_key [OF race_inv_D(1) [OF inv, of "tkey ?t"]]
      by (auto simp: bucket_def split: if_splits)
  next
    case (P_store j)
    then have "j < BUCKET_LENGTH" "val (bucket (tkey ?t) s ! j) = 0"
      using ok by (auto simp: race_thread_ok_def)
    then show ?thesis
      using st Step P_store grows_val [OF race_inv_D(4) [OF inv, of "tkey ?t"]]
      by (auto simp: bucket_def split: if_splits)
  qed (use st Step in \<open>auto split: if_splits\<close>)
qed (use st in \<open>auto split: if_splits\<close>)

text \<open>The first slot with a key.\<close>

definition first_slot :: "u64 \<Rightarrow> nat \<Rightarrow> lock_table list \<Rightarrow> bool" where
  "first_slot k f xs \<longleftrightarrow> f < length xs \<and> key (xs ! f) = k \<and> (\<forall>a<f. key (xs ! a) \<noteq> k)"

lemma get_bucket_first:
  "get_bucket k xs = Some w \<and> w \<noteq> 0 \<longleftrightarrow> (\<exists>f. first_slot k f xs \<and> val (xs ! f) = w \<and> w \<noteq> 0)"
proof (induction xs)
  case Nil
  then show ?case by (auto simp: first_slot_def)
next
  case (Cons x xs)
  have "(\<exists>f. first_slot k f (x # xs) \<and> P ((x # xs) ! f)) \<longleftrightarrow>
      (if key x = k then P x else \<exists>f. first_slot k f xs \<and> P (xs ! f))" for P
  proof (cases "key x = k")
    case True
    then have "first_slot k f (x # xs) \<longleftrightarrow> f = 0" for f
      by (cases f) (auto simp: first_slot_def)
    with True show ?thesis by simp
  next
    case False
    then have "first_slot k f (x # xs) \<longleftrightarrow> (\<exists>g. f = Suc g \<and> first_slot k g xs)" for f
      by (cases f) (auto simp: first_slot_def All_less_Suc2)
    with False show ?thesis by auto
  qed
  from this [of "\<lambda>y. val y = w \<and> w \<noteq> 0"] Cons show ?case by auto
qed

lemma first_slot_grows:
  assumes "first_slot k f xs" and "grows xs ys" and "filled xs" and "k \<noteq> 0"
  shows "first_slot k f ys"
proof -
  have "key (xs ! a) \<noteq> 0" if "a \<le> f" for a
    using assms that unfolding first_slot_def filled_def by blast
  then show ?thesis
    using assms(1,2) by (auto simp: first_slot_def grows_def)
qed

lemma lookup_stable:
  assumes "race_inv s" and "race_exec ev s = Some s'" and "k \<noteq> 0"
    and "first_slot k f (bucket k s)" and "val (bucket k s ! f) = w" "w \<noteq> 0"
  shows "first_slot k f (bucket k s')" "val (bucket k s' ! f) = w"
proof -
  note g = race_exec_grows [OF assms(1,2), of k]
  show "first_slot k f (bucket k s')"
    by (rule first_slot_grows [OF assms(4) g race_inv_D(1) [OF assms(1)] assms(3)])
  show "val (bucket k s' ! f) = w"
    using g assms(4-6) by (auto simp: grows_def first_slot_def)
qed

lemma race_pc_step_other: "race_pc_step p j k q s = Some s' \<Longrightarrow> i \<noteq> j \<Longrightarrow> rthr s' i = rthr s i"
  by (cases "(p, j, k, q, s)" rule: race_pc_step.cases) (auto split: if_splits)

text \<open>Where a lookup of a published key can be.\<close>

definition on_course :: "u64 \<Rightarrow> nat \<Rightarrow> u64 \<Rightarrow> tthread \<Rightarrow> bool" where
  "on_course k f w t \<longleftrightarrow> tkey t = k \<and>
     (case tpc t of G_key j \<Rightarrow> j \<le> f | G_val j \<Rightarrow> j = f | G_ret j \<Rightarrow> j = f | T_ret v \<Rightarrow> v = w | _ \<Rightarrow> False)"

lemma on_course_step:
  assumes inv: "race_inv s" and st: "race_exec ev s = Some s'" and "k \<noteq> 0"
    and f: "first_slot k f (bucket k s)" and w: "val (bucket k s ! f) = w" "w \<noteq> 0"
    and c: "on_course k f w (rthr s i)" and ev: "\<forall>k. ev \<noteq> Get i k \<and> ev \<noteq> Create i k"
  shows "on_course k f w (rthr s' i)"
proof (cases "\<exists>p. ev = Step i p")
  case True
  then obtain p where p: "ev = Step i p" ..
  have b: "f < BUCKET_LENGTH" "key (bucket k s ! f) = k" "\<forall>a<f. key (bucket k s ! a) \<noteq> k"
    using f race_inv_D(4) [OF inv, of k] by (auto simp: first_slot_def)
  show ?thesis
  proof (cases "tpc (rthr s i)")
    case (G_key j)
    then have "j < f \<or> j = f" "tkey (rthr s i) = k" using c by (auto simp: on_course_def)
    then show ?thesis using st p G_key b by (auto simp: on_course_def)
  qed (use st p c w in \<open>auto simp: on_course_def split: if_splits\<close>)
next
  case False
  then have "rthr s' i = rthr s i"
    using st ev
    by (cases ev) (auto split: if_splits dest: race_pc_step_other [of _ _ _ _ _ _ i])
  with c show ?thesis by simp
qed

lemma on_course_run:
  assumes "run_race evs s = Some s'" and "race_inv s" and "k \<noteq> 0"
    and "first_slot k f (bucket k s)" and "val (bucket k s ! f) = w" "w \<noteq> 0"
  shows "race_inv s' \<and> first_slot k f (bucket k s') \<and> val (bucket k s' ! f) = w \<and>
    (on_course k f w (rthr s i) \<longrightarrow> (\<forall>k. Get i k \<notin> set evs \<and> Create i k \<notin> set evs) \<longrightarrow>
       on_course k f w (rthr s' i))"
  using assms
proof (induction evs arbitrary: s)
  case (Cons ev evs)
  then obtain s1 where s1: "race_exec ev s = Some s1" "run_race evs s1 = Some s'"
    by (auto split: option.splits)
  note stable = lookup_stable [OF Cons.prems(2) s1(1) Cons.prems(3-6)]
  have inv1: "race_inv s1" by (rule race_exec_inv [OF Cons.prems(2) s1(1)])
  have "on_course k f w (rthr s1 i)"
    if "on_course k f w (rthr s i)" "\<forall>k. Get i k \<notin> set (ev # evs) \<and> Create i k \<notin> set (ev # evs)"
    using that by (intro on_course_step [OF Cons.prems(2) s1(1) Cons.prems(3-6)]) auto
  with Cons.IH [OF s1(2) inv1 Cons.prems(3) stable Cons.prems(6)] show ?case by auto
qed simp

text \<open>
  C15. A published lock stays published: once a lookup of \<open>k\<close> gives the block \<open>w\<close>, every later
  lookup gives \<open>w\<close>, under any interleaving of lookups and insertions by any number of
  threads, insertions of \<open>k\<close> included.
\<close>

theorem published_forever:
  assumes "race_reachable s" and "k \<noteq> 0" and "hash_get k (rtab s) = Some w" and "w \<noteq> 0"
    and "run_race evs s = Some s'"
  shows "hash_get k (rtab s') = Some w"
proof -
  have inv: "race_inv s" using assms(1) by (rule race_reachable_inv)
  obtain f where f: "first_slot k f (bucket k s)" "val (bucket k s ! f) = w"
    using assms(3,4) get_bucket_first [of k "bucket k s" w] by (auto simp: hash_get_def bucket_def)
  from on_course_run [OF assms(5) inv assms(2) f assms(4)]
  have "first_slot k f (bucket k s')" "val (bucket k s' ! f) = w" by auto
  then show ?thesis
    using assms(4) get_bucket_first [of k "bucket k s'" w] by (auto simp: hash_get_def bucket_def)
qed

text \<open>
  A call of \<open>ht_lock_get\<close> that starts after the lock of its key has been published returns
  that lock: at every moment the call is still looking, or has returned the published
  block; it never allocates, never inserts and never ends the process.
\<close>

theorem lookup_returns_published:
  assumes "race_reachable s" and "hash_get k (rtab s) = Some w" and "w \<noteq> 0"
    and "run_race (Get i k # evs) s = Some s'"
    and "\<forall>k. Get i k \<notin> set evs \<and> Create i k \<notin> set evs"
  shows "case tpc (rthr s' i) of G_key j \<Rightarrow> True | G_val j \<Rightarrow> True | G_ret j \<Rightarrow> True
    | T_ret v \<Rightarrow> v = w | _ \<Rightarrow> False"
proof -
  obtain s1 where s1: "race_exec (Get i k) s = Some s1" "run_race evs s1 = Some s'"
    using assms(4) by (auto split: option.splits)
  then have k: "k \<noteq> 0" and e: "s1 = upd_race i (\<lambda>t. t\<lparr>tkey := k, tpc := G_key 0\<rparr>) s"
    by (auto split: if_splits)
  have inv: "race_inv s1" using race_exec_inv [OF race_reachable_inv [OF assms(1)] s1(1)] .
  obtain f where f: "first_slot k f (bucket k s1)" "val (bucket k s1 ! f) = w"
    using assms(2,3) get_bucket_first [of k "bucket k s" w] by (auto simp: hash_get_def bucket_def e)
  have "on_course k f w (rthr s1 i)" by (simp add: e on_course_def)
  with on_course_run [OF s1(2) inv k f assms(3)] assms(5) have "on_course k f w (rthr s' i)" by blast
  then show ?thesis by (auto simp: on_course_def split: tpc.splits)
qed

section \<open>Runs\<close>

definition scan :: "nat \<Rightarrow> race_event list" where
  "scan i = replicate 11 (Step i 0)"

lemma scan_steps: "scan i = [Step i 0, Step i 0, Step i 0, Step i 0, Step i 0, Step i 0, Step i 0,
    Step i 0, Step i 0, Step i 0, Step i 0]"
  by (simp add: scan_def numeral_eq_Suc)

lemma ten_slots: "replicate 10 x = [x, x, x, x, x, x, x, x, x, x]"
  by (simp add: numeral_eq_Suc)

lemmas race_eval = scan_steps race_init_def pthread_lock_table_def BUCKET_LENGTH_def ten_slots
  may_call_def hash_get_def my_hash_def BUCKET_SIZE_def bucket_def

text \<open>Thread 0 creates the lock of address 64; then thread 1 looks it up and inserts it again.\<close>

definition first_creation :: "race_event list" where
  "first_creation = Get 0 64 # scan 0 @ [Step 0 4096, Step 0 0, Step 0 0, Step 0 0]"

lemma first_creation_result:
  "\<exists>s. race_reachable s \<and> hash_get 64 (rtab s) = Some 4096 \<and>
     (\<exists>s'. run_race [Create 1 64, Step 1 8192, Step 1 0, Step 1 0, Step 1 0, Step 1 0] s = Some s') \<and>
     (\<exists>s'. run_race [Get 1 64, Step 1 0, Step 1 0, Step 1 0] s = Some s' \<and> tpc (rthr s' 1) = T_ret 4096)"
proof -
  have "\<exists>s. run_race first_creation race_init = Some s \<and> hash_get 64 (rtab s) = Some 4096 \<and>
     (\<exists>s'. run_race [Create 1 64, Step 1 8192, Step 1 0, Step 1 0, Step 1 0, Step 1 0] s = Some s') \<and>
     (\<exists>s'. run_race [Get 1 64, Step 1 0, Step 1 0, Step 1 0] s = Some s' \<and> tpc (rthr s' 1) = T_ret 4096)"
    by (simp add: first_creation_def race_eval)
  then show ?thesis
    unfolding race_reachable_def by (blast intro: run_race_reach reach_init)
qed

theorem published_forever_witness:
  "\<exists>s s'. hash_get 64 (rtab s) = Some 4096 \<and>
     run_race [Create 1 64, Step 1 8192, Step 1 0, Step 1 0, Step 1 0, Step 1 0] s = Some s' \<and>
     hash_get 64 (rtab s') = Some 4096"
proof -
  obtain s s' where s: "race_reachable s" "hash_get 64 (rtab s) = Some 4096"
    "run_race [Create 1 64, Step 1 8192, Step 1 0, Step 1 0, Step 1 0, Step 1 0] s = Some s'"
    using first_creation_result by blast
  have "hash_get 64 (rtab s') = Some 4096"
    by (rule published_forever [OF s(1) _ s(2) _ s(3)]) simp_all
  with s show ?thesis by blast
qed

theorem lookup_returns_published_witness:
  "\<exists>s s' v. hash_get 64 (rtab s) = Some 4096 \<and>
     run_race [Get 1 64, Step 1 0, Step 1 0, Step 1 0] s = Some s' \<and>
     tpc (rthr s' 1) = T_ret v \<and> v = 4096"
proof -
  obtain s s' where s: "race_reachable s" "hash_get 64 (rtab s) = Some 4096"
    "run_race [Get 1 64, Step 1 0, Step 1 0, Step 1 0] s = Some s'" "tpc (rthr s' 1) = T_ret 4096"
    using first_creation_result by blast
  have "case tpc (rthr s' 1) of G_key j \<Rightarrow> True | G_val j \<Rightarrow> True | G_ret j \<Rightarrow> True
    | T_ret v \<Rightarrow> v = 4096 | _ \<Rightarrow> False"
    by (rule lookup_returns_published [OF s(1,2) _ s(3)]) simp_all
  with s show ?thesis by (intro exI [of _ s] exI [of _ s']) simp
qed

end
