(* ===== verification/Undisturbed.thy ===== *)
theory Undisturbed
  imports Interpose TableRace
begin

text \<open>
  The two models of the directory are one: a call that runs slot by slot without interruption
  does what the sequential functions of \<open>HashTable\<close> and \<open>Interpose\<close> say, in every case, in a
  bounded number of steps.
\<close>

lemma jump_jump [simp]: "jump i p (jump i q s) = jump i p s"
  by (simp add: jump_def upd_race_def)

abbreviation steps_of :: "nat \<Rightarrow> u64 \<Rightarrow> nat \<Rightarrow> race \<Rightarrow> race option" where
  "steps_of i p n \<equiv> run_race (replicate n (Step i p))"

lemma steps_of_add:
  "steps_of i p m s = Some s1 \<Longrightarrow> steps_of i p n s1 = Some s2 \<Longrightarrow> steps_of i p (m + n) s = Some s2"
  by (simp add: replicate_add exec_all_append)

text \<open>The lookup, from slot \<open>j\<close> on.\<close>

lemma lookup_alone:
  assumes "tkey (rthr s i) = k" and "length (bucket k s) = j + d" and "j + d = BUCKET_LENGTH"
    and "get_bucket k (drop j (bucket k s)) = Some v"
  shows "\<exists>n \<le> d + 3. steps_of i p n (jump i (G_key j) s) = Some (jump i (if v = 0 then C_alloc else T_ret v) s)"
  using assms(2-)
proof (induction d arbitrary: j)
  case 0
  then have "steps_of i p 1 (jump i (G_key j) s) = Some (jump i C_alloc s)" "v = 0" by simp_all
  then show ?case by (intro exI [of _ 1]) simp
next
  case (Suc d)
  then have j: "j < BUCKET_LENGTH" "j < length (bucket k s)" by simp_all
  then have split: "drop j (bucket k s) = bucket k s ! j # drop (Suc j) (bucket k s)" by (simp add: Cons_nth_drop_Suc)
  show ?case
  proof (cases "key (bucket k s ! j) = k")
    case True
    then have "val (bucket k s ! j) = v" "v \<noteq> 0" using Suc.prems(3) split by (simp_all split: if_splits)
    then have "steps_of i p 3 (jump i (G_key j) s) = Some (jump i (T_ret v) s)"
      using assms(1) j True by (simp add: numeral_eq_Suc)
    with \<open>v \<noteq> 0\<close> show ?thesis by (intro exI [of _ 3]) simp
  next
    case False
    then have "get_bucket k (drop (Suc j) (bucket k s)) = Some v" using Suc.prems(3) split by simp
    with Suc.IH [of "Suc j"] Suc.prems obtain n where n: "n \<le> d + 3"
      "steps_of i p n (jump i (G_key (Suc j)) s) = Some (jump i (if v = 0 then C_alloc else T_ret v) s)"
      by auto
    then have "steps_of i p (Suc n) (jump i (G_key j) s) = Some (jump i (if v = 0 then C_alloc else T_ret v) s)"
      using assms(1) j False by simp
    with n(1) show ?thesis by (intro exI [of _ "Suc n"]) simp
  qed
qed

lemma lookup_alone_spins:
  assumes "tkey (rthr s i) = k" and "length (bucket k s) = j + d" and "j + d = BUCKET_LENGTH"
    and "get_bucket k (drop j (bucket k s)) = None"
  shows "\<exists>n \<le> d. \<exists>a. steps_of i p n (jump i (G_key j) s) = Some (jump i (G_val a) s) \<and>
    val (bucket k s ! a) = 0"
  using assms(2-)
proof (induction d arbitrary: j)
  case (Suc d)
  then have j: "j < BUCKET_LENGTH" "j < length (bucket k s)" by simp_all
  then have split: "drop j (bucket k s) = bucket k s ! j # drop (Suc j) (bucket k s)" by (simp add: Cons_nth_drop_Suc)
  show ?case
  proof (cases "key (bucket k s ! j) = k")
    case True
    then have "val (bucket k s ! j) = 0" using Suc.prems(3) split by (simp split: if_splits)
    then show ?thesis using assms(1) j True by (intro exI [of _ 1]) auto
  next
    case False
    then have "get_bucket k (drop (Suc j) (bucket k s)) = None" using Suc.prems(3) split by simp
    with Suc.IH [of "Suc j"] Suc.prems obtain n a where n: "n \<le> d"
      "steps_of i p n (jump i (G_key (Suc j)) s) = Some (jump i (G_val a) s)" "val (bucket k s ! a) = 0"
      by auto
    then have "steps_of i p (Suc n) (jump i (G_key j) s) = Some (jump i (G_val a) s)"
      using assms(1) j False by simp
    with n show ?thesis by (intro exI [of _ "Suc n"]) auto
  qed
qed simp

text \<open>The insertion, from slot \<open>j\<close> on.\<close>

definition with_bucket :: "u64 \<Rightarrow> lock_table list \<Rightarrow> race \<Rightarrow> race" where
  "with_bucket k xs s = s\<lparr>rtab := (rtab s)(my_hash k := xs)\<rparr>"

lemma insert_slot:
  assumes "tkey (rthr s i) = k" and "timpl (rthr s i) = v" and "j < BUCKET_LENGTH"
    and "length (bucket k s) = BUCKET_LENGTH" and "key (bucket k s ! j) = 0"
  shows "steps_of i p 3 (jump i (P_key j) s) =
    Some (jump i (T_ret v) (with_bucket k ((bucket k s)[j := (bucket k s ! j)\<lparr>key := k, val := v\<rparr>]) s))"
  using assms
  by (simp add: numeral_eq_Suc) (simp add: with_bucket_def jump_def upd_race_def put_slot_def bucket_def)

lemma insert_alone:
  assumes "tkey (rthr s i) = k" and "timpl (rthr s i) = v" and "length (bucket k s) = j + d"
    and "j + d = BUCKET_LENGTH"
  shows "\<exists>n \<le> d + 3. steps_of i p n (jump i (P_key j) s) =
    Some (case put_bucket k v (drop j (bucket k s)) of
        None \<Rightarrow> jump i T_exit s
      | Some ys \<Rightarrow> jump i (T_ret v) (with_bucket k (take j (bucket k s) @ ys) s))"
  using assms(3-)
proof (induction d arbitrary: j)
  case 0
  then show ?case by (intro exI [of _ 1]) simp
next
  case (Suc d)
  let ?b = "bucket k s"
  have j: "j < BUCKET_LENGTH" "j < length ?b" using Suc.prems by simp_all
  then have split: "drop j ?b = ?b ! j # drop (Suc j) ?b" by (simp add: Cons_nth_drop_Suc)
  show ?case
  proof (cases "key (?b ! j) = 0")
    case True
    have "?b[j := (?b ! j)\<lparr>key := k, val := v\<rparr>] =
        take j ?b @ (?b ! j)\<lparr>key := k, val := v\<rparr> # drop (Suc j) ?b"
      using j(2) by (rule upd_conv_take_nth_drop)
    with insert_slot [OF assms(1,2) j(1) _ True, of p] Suc.prems True split show ?thesis
      by (intro exI [of _ 3]) simp
  next
    case False
    from Suc.IH [of "Suc j"] Suc.prems obtain n where n: "n \<le> d + 3"
      "steps_of i p n (jump i (P_key (Suc j)) s) =
        Some (case put_bucket k v (drop (Suc j) ?b) of
            None \<Rightarrow> jump i T_exit s
          | Some ys \<Rightarrow> jump i (T_ret v) (with_bucket k (take (Suc j) ?b @ ys) s))"
      by auto
    have "steps_of i p (Suc n) (jump i (P_key j) s) =
        Some (case put_bucket k v (drop j ?b) of
            None \<Rightarrow> jump i T_exit s
          | Some ys \<Rightarrow> jump i (T_ret v) (with_bucket k (take j ?b @ ys) s))"
      using n(2) assms(1) j False split
      by (cases "put_bucket k v (drop (Suc j) ?b)") (simp_all add: take_Suc_conv_app_nth)
    with n(1) show ?thesis by (intro exI [of _ "Suc n"]) simp
  qed
qed

text \<open>\<open>ht_lock_create\<close> from its call on.\<close>

lemma create_alone:
  assumes "length (bucket k s) = BUCKET_LENGTH" and "tkey (rthr s i) = k" and "p \<noteq> 0" and "p \<notin> used s"
    and "lock_tab d = rtab s"
  shows "\<exists>n \<le> BUCKET_LENGTH + 4. \<exists>s'. steps_of i p n (jump i C_alloc s) = Some s' \<and>
    (case ht_lock_create p m k d of
       Inr (w, d') \<Rightarrow> tpc (rthr s' i) = T_ret w \<and> rtab s' = lock_tab d'
     | Inl a \<Rightarrow> a = Hash_table_full \<and> tpc (rthr s' i) = T_exit \<and> rtab s' = rtab s)"
proof -
  let ?s = "upd_race i (\<lambda>t. t\<lparr>timpl := p\<rparr>) (s\<lparr>used := insert p (used s)\<rparr>)"
  have alloc: "race_exec (Step i p) (jump i C_alloc s) = Some (jump i (P_key 0) ?s)"
    using assms(3,4) by (simp add: jump_def upd_race_def)
  have b: "bucket k ?s = bucket k s" "rtab ?s = rtab s" by simp_all
  have "\<exists>n \<le> BUCKET_LENGTH + 3. steps_of i p n (jump i (P_key 0) ?s) =
      Some (case put_bucket k p (bucket k s) of
          None \<Rightarrow> jump i T_exit ?s
        | Some ys \<Rightarrow> jump i (T_ret p) (with_bucket k ys ?s))"
    using insert_alone [of ?s i k p 0 BUCKET_LENGTH p] assms(1,2) by (simp cong: option.case_cong)
  then obtain n where n: "n \<le> BUCKET_LENGTH + 3"
    "steps_of i p n (jump i (P_key 0) ?s) =
      Some (case put_bucket k p (bucket k s) of
          None \<Rightarrow> jump i T_exit ?s
        | Some ys \<Rightarrow> jump i (T_ret p) (with_bucket k ys ?s))"
    by blast
  let ?e = "case put_bucket k p (bucket k s) of
      None \<Rightarrow> jump i T_exit ?s
    | Some ys \<Rightarrow> jump i (T_ret p) (with_bucket k ys ?s)"
  have "steps_of i p (Suc n) (jump i C_alloc s) = Some ?e" using alloc n(2) by (simp del: race_exec.simps)
  moreover have "case ht_lock_create p m k d of
      Inr (w, d') \<Rightarrow> tpc (rthr ?e i) = T_ret w \<and> rtab ?e = lock_tab d'
    | Inl a \<Rightarrow> a = Hash_table_full \<and> tpc (rthr ?e i) = T_exit \<and> rtab ?e = rtab s"
    by (cases "put_bucket k p (bucket k s)")
      (simp_all add: ht_lock_create_def hash_put_def assms(5) bucket_def with_bucket_def)
  moreover have "Suc n \<le> BUCKET_LENGTH + 4" using n(1) by simp
  ultimately show ?thesis by blast
qed

text \<open>The call up to the end of its lookup.\<close>

lemma lookup_call_alone:
  assumes "race_reachable s" and "may_call i s" and "k \<noteq> 0"
  shows "\<exists>n \<le> BUCKET_LENGTH + 3. \<exists>a. run_race (Get i k # replicate n (Step i p)) s =
    Some (jump i (case hash_get k (rtab s) of
        None \<Rightarrow> G_val a
      | Some v \<Rightarrow> if v = 0 then C_alloc else T_ret v) (upd_race i (\<lambda>t. t\<lparr>tkey := k\<rparr>) s)) \<and>
    (hash_get k (rtab s) = None \<longrightarrow> val (bucket k s ! a) = 0)"
proof -
  let ?s = "upd_race i (\<lambda>t. t\<lparr>tkey := k\<rparr>) s"
  have enter: "race_exec (Get i k) s = Some (jump i (G_key 0) ?s)"
    using assms(2,3) by (simp add: jump_def upd_race_def)
  have len: "length (bucket k ?s) = BUCKET_LENGTH" "bucket k ?s = bucket k s"
    using race_inv_D(4) [OF race_reachable_inv [OF assms(1)]] by simp_all
  have key: "tkey (rthr ?s i) = k" by simp
  have get: "hash_get k (rtab s) = get_bucket k (bucket k s)" by (simp add: hash_get_def bucket_def)
  show ?thesis
  proof (cases "hash_get k (rtab s)")
    case None
    with lookup_alone_spins [OF key, of 0 BUCKET_LENGTH p] len get obtain n a where "n \<le> BUCKET_LENGTH"
      "steps_of i p n (jump i (G_key 0) ?s) = Some (jump i (G_val a) ?s)" "val (bucket k s ! a) = 0"
      by auto
    with enter None show ?thesis by (intro exI [of _ n]) (auto simp del: race_exec.simps)
  next
    case (Some v)
    with lookup_alone [OF key, of 0 BUCKET_LENGTH v p] len get obtain n where "n \<le> BUCKET_LENGTH + 3"
      "steps_of i p n (jump i (G_key 0) ?s) = Some (jump i (if v = 0 then C_alloc else T_ret v) ?s)"
      by auto
    with enter Some show ?thesis by (intro exI [of _ n]) (simp del: race_exec.simps)
  qed
qed

text \<open>
  C9. Undisturbed, a call of \<open>ht_lock_get\<close> is what the sequential model says. In any state the
  concurrent operations can reach, a thread that calls it and takes its next at most 28 steps
  alone has the outcome of \<open>ht_lock_get\<close> of \<open>Interpose\<close> on the table of that state: it has
  returned the same block and left the same table, or it has ended the process because
  the bucket is full, or it spins on a slot another thread has claimed and not yet filled.
\<close>

theorem undisturbed_get:
  assumes "race_reachable s" and "may_call i s" and "k \<noteq> 0" and "p \<noteq> 0" and "p \<notin> used s"
    and "lock_tab d = rtab s"
  shows "\<exists>n \<le> 28. \<exists>s'. run_race (Get i k # replicate n (Step i p)) s = Some s' \<and>
    (case ht_lock_get p m k d of
       Inr (w, d') \<Rightarrow> tpc (rthr s' i) = T_ret w \<and> rtab s' = lock_tab d'
     | Inl a \<Rightarrow> rtab s' = rtab s \<and>
         (if a = Lookup_spins then race_exec (Step i p) s' = Some s'
          else a = Hash_table_full \<and> tpc (rthr s' i) = T_exit))"
proof -
  let ?s = "upd_race i (\<lambda>t. t\<lparr>tkey := k\<rparr>) s"
  obtain n a where n: "n \<le> BUCKET_LENGTH + 3"
    "run_race (Get i k # replicate n (Step i p)) s = Some (jump i (case hash_get k (rtab s) of
        None \<Rightarrow> G_val a | Some v \<Rightarrow> if v = 0 then C_alloc else T_ret v) ?s)"
    "hash_get k (rtab s) = None \<longrightarrow> val (bucket k s ! a) = 0"
    using lookup_call_alone [OF assms(1-3), of p] by (elim exE conjE) (rule that)
  show ?thesis
  proof (cases "hash_get k (rtab s) = Some 0")
    case False
    with n show ?thesis
      by (intro exI [of _ n], cases "hash_get k (rtab s)")
        (simp_all add: ht_lock_get_def assms(6) BUCKET_LENGTH_def del: exec_all.simps)
  next
    case True
    have key: "tkey (rthr ?s i) = k" by simp
    have len: "length (bucket k ?s) = BUCKET_LENGTH"
      using race_inv_D(4) [OF race_reachable_inv [OF assms(1)]] by simp
    have u: "p \<notin> used ?s" "lock_tab d = rtab ?s" "rtab ?s = rtab s" using assms(5,6) by simp_all
    obtain l s' where l: "l \<le> BUCKET_LENGTH + 4" "steps_of i p l (jump i C_alloc ?s) = Some s'"
      "case ht_lock_create p m k d of
         Inr (w, d') \<Rightarrow> tpc (rthr s' i) = T_ret w \<and> rtab s' = lock_tab d'
       | Inl a \<Rightarrow> a = Hash_table_full \<and> tpc (rthr s' i) = T_exit \<and> rtab s' = rtab s"
      using create_alone [OF len key assms(4) u(1,2), of m] unfolding u(3) by blast
    have "run_race (Get i k # replicate (n + l) (Step i p)) s = Some s'"
      using n(2) l(2) True exec_all_append [of race_exec "Get i k # replicate n (Step i p)" "replicate l (Step i p)" s]
      by (simp add: replicate_add del: exec_all.simps)
    with n(1) l(1,3) True show ?thesis
      by (intro exI [of _ "n + l"])
        (cases "ht_lock_create p m k d",
          auto simp: ht_lock_get_def assms(6) BUCKET_LENGTH_def simp del: exec_all.simps)
  qed
qed

theorem undisturbed_get_witness:
  "\<exists>n \<le> 28. \<exists>s'. run_race (Get 0 64 # replicate n (Step 0 4096)) race_init = Some s' \<and>
     tpc (rthr s' 0) = T_ret 4096 \<and> hash_get 64 (rtab s') = Some 4096"
proof -
  have "race_reachable race_init" unfolding race_reachable_def by (rule reach_init) simp
  from undisturbed_get [OF this, of 0 64 4096 empty_directory 1] show ?thesis
    by (auto simp: may_call_def race_init_def empty_directory_def ht_lock_get_def hash_get_initial
        ht_lock_create_def hash_put_def pthread_lock_table_def empty_bucket hash_get_def)
qed

end
