(* ===== verification/Contention.thy ===== *)
theory Contention
  imports Library TableRace
begin

text \<open>
  The whole library with nothing made atomic: the lookups and insertions of
  \<open>src/interpose.c\<close> run slot by slot as in \<open>TableRace\<close>, the operations of \<open>src/htll.c\<close> run
  as in \<open>Machine\<close>, and every thread can be anywhere in either. This is the setting in which
  two first uses of one mutex can meet.
\<close>

section \<open>State and steps\<close>

text \<open>
  \<open>blocks\<close> is the heap of \<open>lock_transparent_mutex_t\<close>, as in \<open>Interpose\<close>; \<open>job\<close> is the pthread
  call a thread is in while it resolves its address.
\<close>

record contention =
  tabs :: race
  core :: sys
  blocks :: "u64 \<Rightarrow> maddr option"
  job :: "tid \<Rightarrow> pcall"

definition contention_start :: "nat \<Rightarrow> contention \<Rightarrow> bool" where
  "contention_start n w \<longleftrightarrow> tabs w = race_init \<and> initial n (core w) \<and> blocks w = (\<lambda>_. None)"

text \<open>How a wrapper begins: with a lookup, with a creation, with a result, or with \<open>assert(0)\<close>.\<close>

datatype entry = By_get | By_create | At_once int | Never

fun entry_of :: "pcall \<Rightarrow> entry" where
  "entry_of (Mutex_init a) = By_create"
| "entry_of (Rw_init a) = By_create"
| "entry_of (Mutex_destroy a) = At_once 0"
| "entry_of (Rw_destroy a) = At_once 0"
| "entry_of (Mutex_timedlock a) = Never"
| "entry_of (Rw_timedrdlock a) = Never"
| "entry_of (Rw_timedwrlock a) = Never"
| "entry_of _ = By_get"

text \<open>How it goes on with the lock it has found or created.\<close>

fun target_of :: "pcall \<Rightarrow> maddr \<Rightarrow> target" where
  "target_of (Mutex_lock a) m = Run (Lock m)"
| "target_of (Mutex_trylock a) m = Run (Trylock m)"
| "target_of (Mutex_unlock a) m = Run (Unlock m)"
| "target_of (P_cond_wait c a) m = Run (Cond_wait c m)"
| "target_of (P_cond_timedwait c a ts) m = Run (Cond_timedwait c m ts)"
| "target_of (Rw_rdlock a) m = Run (Lock m)"
| "target_of (Rw_wrlock a) m = Run (Lock m)"
| "target_of (Rw_tryrdlock a) m = Run (Trylock m)"
| "target_of (Rw_trywrlock a) m = Run (Trylock m)"
| "target_of (Rw_unlock a) m = Run (Unlock m)"
| "target_of _ m = Give 0"

text \<open>These are the wrappers of \<open>Interpose\<close>.\<close>

lemma interpose_entry:
  "entry_of c = By_get \<Longrightarrow> interpose p m c d =
     (case ht_lock_get p m (call_key c) d of
        Inl a \<Rightarrow> Inl a
      | Inr (w, d') \<Rightarrow>
          (case impls d' w of None \<Rightarrow> Inl Bad_pointer | Some l \<Rightarrow> Inr (target_of c l, d')))"
  "entry_of c = By_create \<Longrightarrow> interpose p m c d =
     (case ht_lock_create p m (call_key c) d of Inl a \<Rightarrow> Inl a | Inr (w, d') \<Rightarrow> Inr (target_of c m, d'))"
  "entry_of c = At_once r \<Longrightarrow> interpose p m c d = Inr (Give r, d)"
  "entry_of c = Never \<Longrightarrow> interpose p m c d = Inl Not_supported"
  by (cases c; simp add: wrapper_defs with_lock_def split: sum.split option.split)+

text \<open>A thread is looking from its call until the operation on the lock begins.\<close>

definition looking :: "tid \<Rightarrow> contention \<Rightarrow> bool" where
  "looking i w \<longleftrightarrow> tpc (rthr (tabs w) i) \<noteq> T_out"

datatype contention_event =
    Begin tid pcall | Resolve tid u64 maddr | Launch tid | Direct tid op
  | Proceed tid ext | Awake tid

text \<open>
  \<open>Resolve i p m\<close> is one step of the lookup or insertion of thread \<open>i\<close>. If it is the
  allocation, the block is \<open>p\<close> and \<open>lock_mutex_create\<close> returns \<open>m\<close>. \<open>Launch\<close> reads
  \<open>impl->lock_lock\<close> and enters the operation. \<open>Direct\<close> is a call without a mutex.
\<close>

definition resolve :: "tid \<Rightarrow> u64 \<Rightarrow> maddr \<Rightarrow> contention \<Rightarrow> contention option" where
  "resolve i p m w =
     (case race_exec (Step i p) (tabs w) of
        None \<Rightarrow> None
      | Some r \<Rightarrow>
          if tpc (rthr (tabs w) i) = C_alloc
          then if m \<in> ran (blocks w) then None
               else Some (w\<lparr>tabs := r, blocks := (blocks w)(p \<mapsto> m),
                            core := upd_mtx m (\<lambda>_. htll_mutex_create) (core w)\<rparr>)
          else Some (w\<lparr>tabs := r\<rparr>))"

definition launch :: "tid \<Rightarrow> contention \<Rightarrow> contention option" where
  "launch i w =
     (case tpc (rthr (tabs w) i) of
        T_ret v \<Rightarrow>
          (case blocks w v of
             None \<Rightarrow> None
           | Some l \<Rightarrow>
               map_option (\<lambda>s. w\<lparr>tabs := jump i T_out (tabs w), core := s\<rparr>)
                 (hand_on i (target_of (job w i) l) (core w)))
      | _ \<Rightarrow> None)"

fun contention_exec :: "contention_event \<Rightarrow> contention \<Rightarrow> contention option" where
  "contention_exec (Begin i c) w =
     (if idle i (core w) \<and> \<not> looking i w \<and> call_key c \<noteq> 0
      then case entry_of c of
             By_get \<Rightarrow>
               map_option (\<lambda>r. w\<lparr>tabs := r, job := (job w)(i := c)\<rparr>)
                 (race_exec (Get i (call_key c)) (tabs w))
           | By_create \<Rightarrow>
               map_option (\<lambda>r. w\<lparr>tabs := r, job := (job w)(i := c)\<rparr>)
                 (race_exec (Create i (call_key c)) (tabs w))
           | At_once r \<Rightarrow> Some (w\<lparr>core := return i r (core w)\<rparr>)
           | Never \<Rightarrow> None
      else None)"
| "contention_exec (Resolve i p m) w = resolve i p m w"
| "contention_exec (Launch i) w = (if idle i (core w) then launch i w else None)"
| "contention_exec (Direct i x) w =
     (if idle i (core w) \<and> \<not> looking i w \<and> op_mutex x = None
      then Some (w\<lparr>core := call i x (core w)\<rparr>) else None)"
| "contention_exec (Proceed i e) w =
     (if i < nthreads (core w)
      then map_option (\<lambda>s. w\<lparr>core := s\<rparr>) (thread_step e i (core w)) else None)"
| "contention_exec (Awake i) w =
     (if i < nthreads (core w) \<and> sleeping_on (pc (thr (core w) i)) \<noteq> None
      then Some (w\<lparr>core := awaken i (core w)\<rparr>) else None)"

definition contention_step :: "contention \<Rightarrow> contention \<Rightarrow> bool" where
  "contention_step w w' \<longleftrightarrow> (\<exists>ev. contention_exec ev w = Some w')"

definition contention_reachable :: "nat \<Rightarrow> contention \<Rightarrow> bool" where
  "contention_reachable n = reach (contention_start n) contention_step"

section \<open>The invariant\<close>

text \<open>Every block a thread has in hand, and every block in the table, has been allocated.\<close>

definition in_hand :: "tthread \<Rightarrow> u64 set" where
  "in_hand t = (case tpc t of P_key j \<Rightarrow> {timpl t} | P_cas j \<Rightarrow> {timpl t} | P_store j \<Rightarrow> {timpl t}
     | T_ret v \<Rightarrow> {v} | _ \<Rightarrow> {})"

definition race_blocks :: "race \<Rightarrow> u64 set" where
  "race_blocks s = {val (rtab s h ! a) |h a. a < BUCKET_LENGTH} - {0} \<union> (\<Union>i. in_hand (rthr s i))"

definition contention_inv :: "contention \<Rightarrow> bool" where
  "contention_inv w \<longleftrightarrow> race_inv (tabs w) \<and> mutex_inv (core w) \<and>
     dom (blocks w) = used (tabs w) \<and> race_blocks (tabs w) \<subseteq> used (tabs w) \<and>
     (\<forall>p q m. blocks w p = Some m \<longrightarrow> blocks w q = Some m \<longrightarrow> p = q) \<and>
     (\<forall>i<nthreads (core w). uses (thr (core w) i) \<subseteq> ran (blocks w)) \<and>
     (\<forall>i. looking i w \<longrightarrow> tkey (rthr (tabs w) i) = call_key (job w i))"

lemma race_blocks_iff:
  "race_blocks s \<subseteq> U \<longleftrightarrow>
     (\<forall>h a. a < BUCKET_LENGTH \<longrightarrow> val (rtab s h ! a) \<noteq> 0 \<longrightarrow> val (rtab s h ! a) \<in> U) \<and>
     (\<forall>i. in_hand (rthr s i) \<subseteq> U)"
  unfolding race_blocks_def by blast

text \<open>A step of one thread.\<close>

lemma race_blocks_step:
  assumes "race_blocks s \<subseteq> used s" and "used s \<subseteq> U" and "\<And>j. j \<noteq> i \<Longrightarrow> rthr s' j = rthr s j"
    and "in_hand (rthr s' i) \<subseteq> U"
    and "\<And>h a. a < BUCKET_LENGTH \<Longrightarrow> val (rtab s' h ! a) \<in> insert (val (rtab s h ! a)) U"
  shows "race_blocks s' \<subseteq> U"
  unfolding race_blocks_iff
proof (intro conjI allI impI)
  fix h a assume "a < BUCKET_LENGTH" "val (rtab s' h ! a) \<noteq> 0"
  then show "val (rtab s' h ! a) \<in> U"
    using assms(1,2) assms(5) [of a h] unfolding race_blocks_iff by auto
next
  fix j
  have "in_hand (rthr s j) \<subseteq> U" using assms(1,2) unfolding race_blocks_iff by (meson subset_trans)
  then show "in_hand (rthr s' j) \<subseteq> U" using assms(3,4) by (cases "j = i") auto
qed

lemma race_call_other:
  "race_exec ev s = Some s' \<Longrightarrow> ev = Get j k \<or> ev = Create j k \<Longrightarrow> i \<noteq> j \<Longrightarrow> rthr s' i = rthr s i"
  by (auto split: if_splits)

lemma race_call_blocks:
  assumes "ev = Get i k \<or> ev = Create i k" and "race_exec ev s = Some s'" and "race_blocks s \<subseteq> used s"
  shows "used s' = used s" "race_blocks s' \<subseteq> used s'"
proof -
  show u: "used s' = used s" using assms(1,2) by (auto split: if_splits)
  show "race_blocks s' \<subseteq> used s'"
    unfolding u by (rule race_blocks_step [OF assms(3), of _ i])
      (use assms(1,2) in \<open>auto simp: in_hand_def split: if_splits\<close>)
qed

lemma race_step_blocks:
  assumes inv: "race_inv s" and st: "race_exec (Step i p) s = Some s'" and b: "race_blocks s \<subseteq> used s"
  shows "used s' = (if tpc (rthr s i) = C_alloc then insert p (used s) else used s)"
    "race_blocks s' \<subseteq> used s'"
proof -
  let ?t = "rthr s i"
  have ok: "race_thread_ok s ?t" and len: "length (rtab s h) = BUCKET_LENGTH" for h
    using race_inv_D(2,3) [OF inv] by (auto simp: filled_def)
  have hand: "in_hand ?t \<subseteq> used s" using b by (simp add: race_blocks_iff)
  have val: "val (bucket k s ! a) \<in> used s" if "a < BUCKET_LENGTH" "val (bucket k s ! a) \<noteq> 0" for k a
    using b that by (simp add: race_blocks_iff bucket_def)
  show u: "used s' = (if tpc ?t = C_alloc then insert p (used s) else used s)"
    using st by (cases "tpc ?t") (auto split: if_splits)
  have "in_hand (rthr s' i) \<subseteq> used s'"
    unfolding u using st ok hand val
    by (cases "tpc ?t") (auto simp: in_hand_def race_thread_ok_def split: if_splits)
  moreover have "val (rtab s' h ! a) \<in> insert (val (rtab s h ! a)) (used s')" if "a < BUCKET_LENGTH" for h a
    unfolding u using st ok hand that len [of h]
    by (cases "tpc ?t")
      (auto simp: in_hand_def race_thread_ok_def nth_list_update bucket_def split: if_splits)
  moreover have "rthr s' j = rthr s j" if "j \<noteq> i" for j using race_pc_step_other st that by simp
  ultimately show "race_blocks s' \<subseteq> used s'"
    by (intro race_blocks_step [OF b, of _ i]) (auto simp: u)
qed

text \<open>Leaving the wrapper: the block is no longer in hand.\<close>

lemma race_leave:
  assumes "race_inv s"
  shows "race_inv (jump i T_out s)"
    and "race_blocks s \<subseteq> used s \<Longrightarrow> race_blocks (jump i T_out s) \<subseteq> used s"
proof -
  show "race_inv (jump i T_out s)"
    by (rule race_inv_same_table [OF assms, of _ i]) (auto simp: race_thread_ok_def claim_def)
  show "race_blocks s \<subseteq> used s \<Longrightarrow> race_blocks (jump i T_out s) \<subseteq> used s"
    by (rule race_blocks_step [of s _ i]) (auto simp: in_hand_def)
qed

lemma contention_inv_D:
  assumes "contention_inv w"
  shows "race_inv (tabs w)" "mutex_inv (core w)" "dom (blocks w) = used (tabs w)"
    "race_blocks (tabs w) \<subseteq> used (tabs w)"
    "blocks w p = Some m \<Longrightarrow> blocks w q = Some m \<Longrightarrow> p = q"
    "i < nthreads (core w) \<Longrightarrow> uses (thr (core w) i) \<subseteq> ran (blocks w)"
    "looking i w \<Longrightarrow> tkey (rthr (tabs w) i) = call_key (job w i)"
  using assms unfolding contention_inv_def by blast+

text \<open>Steps of the machine that use no other lock than before.\<close>

lemma contention_inv_core:
  assumes inv: "contention_inv w" and "sys_step (\<lambda>_ _ _. True) (core w) s"
    and "\<And>j. uses (thr s j) \<subseteq> uses (thr (core w) j) \<union> ran (blocks w)"
  shows "contention_inv (w\<lparr>core := s\<rparr>)"
proof -
  have "mutex_inv s" by (rule mutex_inv_step [OF assms(2) contention_inv_D(2) [OF inv]])
  moreover have "nthreads s = nthreads (core w)"
    using assms(2) by (auto simp: call_frame(1) thread_step_frame(1) elim!: sys_step.cases)
  moreover from this have "uses (thr s j) \<subseteq> ran (blocks w)" if "j < nthreads s" for j
    using assms(3) [of j] contention_inv_D(6) [OF inv, of j] that by auto
  ultimately show ?thesis using inv by (simp add: contention_inv_def looking_def)
qed

lemma return_event:
  assumes "idle i s"
  shows "mutex_inv s \<Longrightarrow> mutex_inv (return i r s)" "uses (thr (return i r s) j) \<subseteq> uses (thr s j)"
    "nthreads (return i r s) = nthreads s"
  using assms by (auto simp: mutex_inv_def idle_def uses_def)

lemma contention_begin_cases:
  assumes "contention_exec (Begin i c) w = Some w'"
  obtains r where "w' = w\<lparr>core := return i r (core w)\<rparr>"
  | ev r where "ev = Get i (call_key c) \<or> ev = Create i (call_key c)" "race_exec ev (tabs w) = Some r"
      "w' = w\<lparr>tabs := r, job := (job w)(i := c)\<rparr>"
proof (cases "entry_of c")
  case By_get
  with assms that(2) [of "Get i (call_key c)"] show ?thesis
    by (auto simp del: race_exec.simps split: if_splits)
next
  case By_create
  with assms that(2) [of "Create i (call_key c)"] show ?thesis
    by (auto simp del: race_exec.simps split: if_splits)
next
  case (At_once r)
  with assms that(1) [of r] show ?thesis by (auto split: if_splits)
next
  case Never
  with assms show ?thesis by (auto split: if_splits)
qed

lemma contention_begin_inv:
  assumes inv: "contention_inv w" and st: "contention_exec (Begin i c) w = Some w'"
  shows "contention_inv w'"
proof -
  from st have i: "idle i (core w)" by (auto split: if_splits)
  from st show ?thesis
  proof (cases rule: contention_begin_cases)
    case (1 r)
    with return_event [OF i] inv show ?thesis
      by (fastforce simp: contention_inv_def looking_def)
  next
    case (2 ev r)
    have "tkey (rthr r j) = call_key (job w' j)" if "looking j w'" for j
      using that 2 contention_inv_D(7) [OF inv, of j]
      by (cases "j = i") (auto simp: looking_def split: if_splits)
    moreover have "race_inv r" by (rule race_exec_inv [OF contention_inv_D(1) [OF inv] 2(2)])
    ultimately show ?thesis
      using inv race_call_blocks [OF 2(1,2) contention_inv_D(4) [OF inv]]
      by (simp add: contention_inv_def 2(3))
  qed
qed

lemma contention_resolve_inv:
  assumes inv: "contention_inv w" and st: "resolve i p m w = Some w'"
  shows "contention_inv w'"
proof -
  from st obtain r where r: "race_exec (Step i p) (tabs w) = Some r"
    by (auto simp: resolve_def split: option.splits)
  note new = race_exec_inv [OF contention_inv_D(1) [OF inv] r]
    race_step_blocks [OF contention_inv_D(1) [OF inv] r contention_inv_D(4) [OF inv]]
  have look: "tkey (rthr r j) = tkey (rthr (tabs w) j) \<and> (tpc (rthr r j) \<noteq> T_out \<longrightarrow> looking j w)" for j
    using r race_pc_step_other [of p i _ _ "tabs w" r j]
    by (cases "j = i"; cases "tpc (rthr (tabs w) i)") (auto simp: looking_def split: if_splits)
  show ?thesis
  proof (cases "tpc (rthr (tabs w) i) = C_alloc")
    case False
    then have "w' = w\<lparr>tabs := r\<rparr>" using st r by (simp add: resolve_def)
    then show ?thesis
      using inv new look False by (auto simp: contention_inv_def looking_def)
  next
    case True
    then have w': "w' = w\<lparr>tabs := r, blocks := (blocks w)(p \<mapsto> m),
        core := upd_mtx m (\<lambda>_. htll_mutex_create) (core w)\<rparr>" and m: "m \<notin> ran (blocks w)"
      and p: "p \<notin> used (tabs w)"
      using st r by (auto simp: resolve_def split: if_splits)
    have none: "blocks w p = None" using p contention_inv_D(3) [OF inv] by auto
    have "owners m (core w) = {}"
      using m contention_inv_D(6) [OF inv] by (auto simp: owners_def uses_def)
    then have mi: "mutex_inv (upd_mtx m (\<lambda>_. htll_mutex_create) (core w))"
      using mutex_inv_create [of "core w" m] contention_inv_D(2) [OF inv] by simp
    have inj: "a = b" if "blocks w' a = Some x" "blocks w' b = Some x" for a b x
      using that m contention_inv_D(5) [OF inv, of a x b] by (auto simp: w' ranI split: if_splits)
    have "ran (blocks w) \<subseteq> ran (blocks w')" using none by (auto simp: w')
    then have "uses (thr (core w') j) \<subseteq> ran (blocks w')" if "j < nthreads (core w')" for j
      using contention_inv_D(6) [OF inv, of j] that by (auto simp: w')
    moreover have "tkey (rthr (tabs w') j) = call_key (job w' j)" if "looking j w'" for j
      using look [of j] that contention_inv_D(7) [OF inv, of j] by (simp add: w' looking_def)
    moreover have "dom (blocks w') = used (tabs w')"
      using new(2) True contention_inv_D(3) [OF inv] by (simp add: w')
    moreover have "race_inv (tabs w')" "race_blocks (tabs w') \<subseteq> used (tabs w')" "mutex_inv (core w')"
      using new(1,3) mi by (simp_all add: w')
    ultimately show ?thesis
      unfolding contention_inv_def using inj by blast
  qed
qed

lemma contention_launch_inv:
  assumes inv: "contention_inv w" and i: "idle i (core w)" and st: "launch i w = Some w'"
  shows "contention_inv w'"
proof -
  from st obtain v l s where v: "tpc (rthr (tabs w) i) = T_ret v" "blocks w v = Some l"
    and s: "hand_on i (target_of (job w i) l) (core w) = Some s"
    and w': "w' = w\<lparr>tabs := jump i T_out (tabs w), core := s\<rparr>"
    by (auto simp: launch_def split: tpc.splits option.splits)
  note leave = race_leave [OF contention_inv_D(1) [OF inv], of i]
  have "set_option (op_mutex x) \<subseteq> {l}" if "target_of c l = Run x" for c x
    using that by (cases c) auto
  then have "uses (thr s j) \<subseteq> uses (thr (core w) j) \<union> {l}" for j
    using hand_on_uses [OF s, of j] by (fastforce split: target.splits)
  moreover have "l \<in> ran (blocks w)" using v(2) by (rule ranI)
  ultimately have "uses (thr s j) \<subseteq> ran (blocks w)" if "j < nthreads (core w)" for j
    using contention_inv_D(6) [OF inv that] by blast
  then show ?thesis
    using inv leave hand_on_ok [OF s i contention_inv_D(2) [OF inv]]
    by (simp add: contention_inv_def looking_def w' del: jump_simps(4)) (auto simp: looking_def)
qed

lemma contention_inv_exec:
  assumes inv: "contention_inv w" and st: "contention_exec ev w = Some w'"
  shows "contention_inv w'"
proof (cases ev)
  case (Begin i c)
  with contention_begin_inv [OF inv] st show ?thesis by blast
next
  case (Resolve i p m)
  with contention_resolve_inv [OF inv] st show ?thesis by simp
next
  case (Launch i)
  with contention_launch_inv [OF inv] st show ?thesis by (auto split: if_splits)
next
  case (Direct i x)
  with st have i: "idle i (core w)" "op_mutex x = None" and w': "w' = w\<lparr>core := call i x (core w)\<rparr>"
    by (auto split: if_splits)
  moreover have "disciplined i x (core w)" using i(2) by (cases x) auto
  ultimately show ?thesis
    using contention_inv_core [OF inv entry_event(1)] entry_event(2) [of i "core w" x] by blast
next
  case (Proceed i e)
  with st obtain s where "i < nthreads (core w)" "thread_step e i (core w) = Some s" "w' = w\<lparr>core := s\<rparr>"
    by (auto split: if_splits)
  with contention_inv_core [OF inv sys_step.runs] thread_step_uses show ?thesis by blast
next
  case (Awake i)
  with st have "i < nthreads (core w)" "sleeping_on (pc (thr (core w) i)) \<noteq> None"
    "w' = w\<lparr>core := awaken i (core w)\<rparr>"
    by (auto split: if_splits)
  with contention_inv_core [OF inv awaken_event(1)] awaken_event(2) show ?thesis by blast
qed

lemma contention_inv_start: "contention_start n w \<Longrightarrow> contention_inv w"
  by (auto simp: contention_start_def contention_inv_def race_inv_initial mutex_inv_initial
      race_blocks_iff looking_def)
    (auto simp: race_init_def pthread_lock_table_def in_hand_def uses_def initial_def)

interpretation contention: checked_system contention_exec contention_step "contention_start n"
    contention_inv for n
  by unfold_locales (auto simp: contention_step_def intro: contention_inv_start contention_inv_exec)

section \<open>Two first uses of one mutex\<close>

text \<open>
  Threads 0 and 1 lock the mutex at address 64, which nobody has used before. Both search the
  whole bucket before either inserts; each creates a lock, inserts it and takes it.
\<close>

definition resolves :: "tid \<Rightarrow> nat \<Rightarrow> contention_event list" where
  "resolves i n = replicate n (Resolve i 0 0)"

text \<open>The calls the program makes in a run, by whom and in which order.\<close>

fun calls_made :: "contention_event list \<Rightarrow> (tid \<times> (pcall + op)) list" where
  "calls_made [] = []"
| "calls_made (Begin i c # evs) = (i, Inl c) # calls_made evs"
| "calls_made (Direct i x # evs) = (i, Inr x) # calls_made evs"
| "calls_made (_ # evs) = calls_made evs"

definition meeting :: "contention_event list" where
  "meeting =
     [Begin 0 (Mutex_lock 64), Begin 1 (Mutex_lock 64)] @ resolves 0 11 @ resolves 1 11 @
     Resolve 0 4096 1 # resolves 0 3 @ Resolve 1 8192 2 # resolves 1 4 @
     [Launch 0, Launch 1, Proceed 0 quiet, Proceed 1 quiet]"

definition two_users :: contention where
  "two_users = \<lparr>tabs = race_init, core = init_sys 2, blocks = (\<lambda>_. None), job = (\<lambda>_. Mutex_lock 0)\<rparr>"

lemma two_users_start: "contention_reachable 2 two_users"
  unfolding contention_reachable_def
  by (rule reach_init) (simp add: contention_start_def two_users_def initial_init_sys)

lemma contention_run:
  "exec_all contention_exec evs w = Some w' \<Longrightarrow> contention_reachable n w \<Longrightarrow> contention_reachable n w'"
  unfolding contention_reachable_def by (rule contention.run_reach)

lemma resolves_simps: "resolves i 0 = []" "resolves i (Suc n) = Resolve i 0 0 # resolves i n"
  by (simp_all add: resolves_def)

lemma numerals_3_4_11: "(3::nat) = Suc (Suc (Suc 0))" "(4::nat) = Suc (Suc (Suc (Suc 0)))"
  "(11::nat) = Suc (Suc (Suc (Suc (Suc (Suc (Suc (Suc (Suc (Suc (Suc 0))))))))))"
  by simp_all

lemmas contention_eval = two_users_def race_init_def pthread_lock_table_def BUCKET_LENGTH_def ten_slots
  may_call_def hash_get_def my_hash_def BUCKET_SIZE_def bucket_def looking_def idle_def resolve_def
  launch_def hand_on_def init_sys_def init_thread_def lock_enter_def thread_step_def swap8_or_eq
  acquired_def take8_def htll_swap_uint8_def htll_mutex_create_def lock_word_def upd_defs lock_consts

lemma meeting_result:
  "\<exists>w. exec_all contention_exec meeting two_users = Some w \<and>
     (\<forall>i \<in> {0, 1}. \<not> looking i w \<and> pc (thr (core w) i) = Idle \<and> ret (thr (core w) i) = 0) \<and>
     held (thr (core w) 0) = {1} \<and> held (thr (core w) 1) = {2}"
  unfolding meeting_def numerals_3_4_11 resolves_simps
  by (simp add: contention_eval Let_def ran_def)

lemma calls_made_skip: "calls_made (resolves i n @ evs) = calls_made evs"
  by (induction n) (simp_all add: resolves_simps)

lemma meeting_calls: "calls_made meeting = [(0, Inl (Mutex_lock 64)), (1, Inl (Mutex_lock 64))]"
  by (simp add: meeting_def calls_made_skip)

text \<open>
  C4. Two threads in one critical section: from the start there is a run in which the program
  makes two calls and no other, \<open>pthread_mutex_lock\<close> for the same mutex by each of two threads,
  at the end of which both calls have returned 0. Neither thread is in a lookup or in an
  operation any more, nobody has unlocked anything, and the threads own different locks. The
  premise of the library, that a mutex that was only initialised statically can be created
  by its first user, fails when the first two users meet.
\<close>

theorem two_threads_in_critical_section:
  "\<exists>w0 evs w l0 l1. contention_start 2 w0 \<and> exec_all contention_exec evs w0 = Some w \<and>
     calls_made evs = [(0, Inl (Mutex_lock 64)), (1, Inl (Mutex_lock 64))] \<and>
     (\<not> looking 0 w \<and> pc (thr (core w) 0) = Idle \<and> ret (thr (core w) 0) = 0 \<and> held (thr (core w) 0) = {l0}) \<and>
     (\<not> looking 1 w \<and> pc (thr (core w) 1) = Idle \<and> ret (thr (core w) 1) = 0 \<and> held (thr (core w) 1) = {l1}) \<and>
     l0 \<noteq> l1"
proof -
  obtain w where w: "exec_all contention_exec meeting two_users = Some w"
    "\<forall>i \<in> {0, 1}. \<not> looking i w \<and> pc (thr (core w) i) = Idle \<and> ret (thr (core w) i) = 0"
    "held (thr (core w) 0) = {1}" "held (thr (core w) 1) = {2}"
    using meeting_result by blast
  have "contention_start 2 two_users"
    by (simp add: contention_start_def two_users_def initial_init_sys)
  then show ?thesis using w meeting_calls
    by (intro exI [of _ two_users] exI [of _ meeting] exI [of _ w]
        exI [of _ 1] exI [of _ 2]) auto
qed

end
