(* ===== verification/Publication.thy ===== *)
theory Publication
  imports Contention
begin

text \<open>
  What the library guarantees when nothing is atomic: once a mutex is in the directory, all
  later calls on it use one lock, and the locks in the directory are, address by address,
  mutexes.
\<close>

section \<open>Published mutexes\<close>

definition published :: "u64 \<Rightarrow> maddr \<Rightarrow> contention \<Rightarrow> bool" where
  "published a l w \<longleftrightarrow> a \<noteq> 0 \<and>
     (\<exists>v. hash_get a (rtab (tabs w)) = Some v \<and> v \<noteq> 0 \<and> blocks w v = Some l)"

text \<open>The same by slots, and where the lookups of \<open>a\<close> can be that have begun since.\<close>

definition published_at :: "u64 \<Rightarrow> nat \<Rightarrow> u64 \<Rightarrow> maddr \<Rightarrow> contention \<Rightarrow> bool" where
  "published_at a f v l w \<longleftrightarrow> a \<noteq> 0 \<and> v \<noteq> 0 \<and> first_slot a f (bucket a (tabs w)) \<and>
     val (bucket a (tabs w) ! f) = v \<and> blocks w v = Some l"

definition lookup_of :: "u64 \<Rightarrow> tid \<Rightarrow> contention \<Rightarrow> bool" where
  "lookup_of a i w \<longleftrightarrow> looking i w \<and> call_key (job w i) = a \<and> entry_of (job w i) = By_get"

lemma published_iff: "published a l w \<longleftrightarrow> (\<exists>f v. published_at a f v l w)"
proof -
  have "hash_get a (rtab (tabs w)) = Some v \<and> v \<noteq> 0 \<longleftrightarrow>
      (\<exists>f. first_slot a f (bucket a (tabs w)) \<and> val (bucket a (tabs w) ! f) = v \<and> v \<noteq> 0)" for v
    using get_bucket_first [of a "bucket a (tabs w)" v] by (simp add: hash_get_def bucket_def)
  then show ?thesis unfolding published_def published_at_def by blast
qed

text \<open>What an event does to the table: nothing, or an event of \<open>TableRace\<close>, or the end of a lookup.\<close>

lemma contention_tabs:
  assumes "contention_exec ev w = Some w'"
  obtains (same) "tabs w' = tabs w" "job w' = job w" "blocks w' = blocks w"
  | (call) i c rev where "rev = Get i (call_key c) \<and> entry_of c = By_get \<or>
        rev = Create i (call_key c) \<and> entry_of c = By_create"
      "race_exec rev (tabs w) = Some (tabs w')" "job w' = (job w)(i := c)" "blocks w' = blocks w"
  | (step) i p where "race_exec (Step i p) (tabs w) = Some (tabs w')" "job w' = job w"
      "\<And>v. v \<in> used (tabs w) \<Longrightarrow> blocks w' v = blocks w v"
  | (leave) i where "tabs w' = jump i T_out (tabs w)" "job w' = job w" "blocks w' = blocks w"
proof (cases ev)
  case (Begin i c)
  show ?thesis
  proof (cases "entry_of c")
    case By_get
    with assms Begin show ?thesis
      by (intro call [of "Get i (call_key c)" i c]) (auto simp del: race_exec.simps split: if_splits)
  next
    case By_create
    with assms Begin show ?thesis
      by (intro call [of "Create i (call_key c)" i c]) (auto simp del: race_exec.simps split: if_splits)
  qed (use assms Begin same in \<open>auto split: if_splits\<close>)
next
  case (Resolve i p m)
  with assms have "race_exec (Step i p) (tabs w) = Some (tabs w')" "job w' = job w"
    "v \<in> used (tabs w) \<Longrightarrow> blocks w' v = blocks w v" for v
    by (auto simp: resolve_def split: option.splits if_splits)
  then show ?thesis by (rule step)
next
  case (Launch i)
  with assms leave show ?thesis
    by (auto simp: launch_def split: if_splits tpc.splits option.splits)
qed (use assms same in \<open>auto split: if_splits\<close>)

lemma published_at_step:
  assumes inv: "contention_inv w" and ev: "contention_exec ev w = Some w'" and p: "published_at a f v l w"
  shows "published_at a f v l w'"
proof -
  have f: "a \<noteq> 0" "first_slot a f (bucket a (tabs w))" "val (bucket a (tabs w) ! f) = v" "v \<noteq> 0"
    "blocks w v = Some l"
    using p by (auto simp: published_at_def)
  note stable = lookup_stable [OF contention_inv_D(1) [OF inv] _ f(1-4)]
  from ev show ?thesis
  proof (cases rule: contention_tabs)
    case (step j q)
    moreover have "v \<in> used (tabs w)" using f(5) contention_inv_D(3) [OF inv] by auto
    ultimately show ?thesis
      using f stable [OF step(1)] by (simp add: published_at_def)
  qed (use f stable in \<open>auto simp: published_at_def simp del: race_exec.simps\<close>)
qed

lemma published_step:
  assumes inv: "contention_inv w" and ev: "contention_exec ev w = Some w'" and p: "published_at a f v l w"
    and late: "\<And>i. lookup_of a i w \<Longrightarrow> on_course a f v (rthr (tabs w) i)"
    and look: "lookup_of a i w'"
  shows "on_course a f v (rthr (tabs w') i)"
proof -
  note r = contention_inv_D(1) [OF inv]
  have f: "a \<noteq> 0" "first_slot a f (bucket a (tabs w))" "val (bucket a (tabs w) ! f) = v" "v \<noteq> 0"
    using p by (auto simp: published_at_def)
  from ev show "on_course a f v (rthr (tabs w') i)"
  proof (cases rule: contention_tabs)
    case same
    with look late [of i] show ?thesis by (simp add: lookup_of_def looking_def)
  next
    case (leave j)
    with look late [of i] show ?thesis by (auto simp: lookup_of_def looking_def split: if_splits)
  next
    case (step j q)
    have "looking i w"
    proof (cases "i = j")
      case True
      with step(1) show ?thesis by (auto simp: looking_def)
    next
      case False
      with step(1) race_pc_step_other have "rthr (tabs w') i = rthr (tabs w) i" by simp
      with look show ?thesis by (simp add: lookup_of_def looking_def)
    qed
    with look step(2) have "on_course a f v (rthr (tabs w) i)"
      by (intro late) (simp add: lookup_of_def)
    from on_course_step [OF r step(1) f(1-4) this] show ?thesis by simp
  next
    case (call j c rev)
    show ?thesis
    proof (cases "i = j")
      case True
      with call look have "rev = Get i a" by (auto simp: lookup_of_def)
      with call(2) have "tabs w' = upd_race i (\<lambda>t. t\<lparr>tkey := a, tpc := G_key 0\<rparr>) (tabs w)"
        by (simp split: if_splits)
      then show ?thesis by (simp add: on_course_def)
    next
      case False
      with call race_call_other have "rthr (tabs w') i = rthr (tabs w) i" by blast
      with False call(3) look late [of i] show ?thesis by (simp add: lookup_of_def looking_def)
    qed
  qed
qed

lemma published_run:
  assumes "exec_all contention_exec evs w = Some w'" and "contention_inv w" and "published_at a f v l w"
    and "\<And>i. lookup_of a i w \<Longrightarrow> on_course a f v (rthr (tabs w) i)"
  shows "contention_inv w' \<and> published_at a f v l w' \<and>
    (\<forall>i. lookup_of a i w' \<longrightarrow> on_course a f v (rthr (tabs w') i))"
  using assms
proof (induction evs arbitrary: w)
  case (Cons ev evs)
  then obtain w1 where w1: "contention_exec ev w = Some w1" "exec_all contention_exec evs w1 = Some w'"
    by (auto split: option.splits)
  from Cons.IH [OF w1(2) contention_inv_exec [OF Cons.prems(2) w1(1)]
      published_at_step [OF Cons.prems(2) w1(1) Cons.prems(3)]]
    published_step [OF Cons.prems(2) w1(1) Cons.prems(3,4)]
  show ?case by blast
qed simp

text \<open>
  C3. Safe publication: from the moment a mutex is in the table (after \<open>pthread_mutex_init\<close>, or
  after its first use has returned) with no lookup of it under way, every call on it by any
  thread, at any later time and whatever happens meanwhile, operates on the one published
  lock; and it stays published.
\<close>

theorem late_calls_use_published_lock:
  assumes "contention_reachable n w" and "published a l w" and "\<forall>i. \<not> lookup_of a i w"
    and "exec_all contention_exec evs w = Some w'"
    and "contention_exec (Launch i) w' = Some w''" and "call_key (job w' i) = a"
  shows "hand_on i (target_of (job w' i) l) (core w') = Some (core w'') \<and> published a l w''"
proof -
  have inv: "contention_inv w"
    using assms(1) unfolding contention_reachable_def by (rule contention.reachable_inv)
  obtain f v where "published_at a f v l w" using assms(2) published_iff by blast
  from published_run [OF assms(4) inv this] assms(3) have run: "contention_inv w'" "published_at a f v l w'"
    "\<And>i. lookup_of a i w' \<Longrightarrow> on_course a f v (rthr (tabs w') i)"
    by blast+
  have "published a l w''"
    using published_at_step [OF run(1) assms(5) run(2)] published_iff by blast
  moreover from assms(5) obtain u k s where u: "tpc (rthr (tabs w') i) = T_ret u" "blocks w' u = Some k"
    "hand_on i (target_of (job w' i) k) (core w') = Some s" "core w'' = s"
    by (auto simp: launch_def split: if_splits tpc.splits option.splits)
  moreover have "target_of (job w' i) k = target_of (job w' i) l"
  proof (cases "entry_of (job w' i) = By_get")
    case True
    then have "on_course a f v (rthr (tabs w') i)"
      using run(3) u(1) assms(6) by (simp add: lookup_of_def looking_def)
    then have "u = v" using u(1) by (simp add: on_course_def)
    then show ?thesis using u(2) run(2) by (simp add: published_at_def)
  next
    case False
    then show ?thesis by (cases "job w' i") auto
  qed
  ultimately show ?thesis by simp
qed

text \<open>Thread 0 initialises the mutex at 64; later thread 1 locks it.\<close>

definition initialise :: "contention_event list" where
  "initialise = [Begin 0 (Mutex_init 64), Resolve 0 4096 5] @ resolves 0 3 @ [Launch 0]"

definition lock_it :: "contention_event list" where
  "lock_it = Begin 1 (Mutex_lock 64) # resolves 1 3"

lemma initialise_result:
  "\<exists>w. exec_all contention_exec initialise two_users = Some w \<and> published 64 5 w \<and>
     (\<forall>i. \<not> lookup_of 64 i w) \<and>
     (\<exists>w'. exec_all contention_exec lock_it w = Some w' \<and> call_key (job w' 1) = 64 \<and>
        (\<exists>w''. contention_exec (Launch 1) w' = Some w''))"
  unfolding initialise_def lock_it_def numerals_3_4_11 resolves_simps
  by (simp add: contention_eval published_def lookup_of_def Let_def ran_def)

theorem late_calls_use_published_lock_witness:
  "\<exists>w' w''. contention_exec (Launch 1) w' = Some w'' \<and> call_key (job w' 1) = 64 \<and>
     hand_on 1 (target_of (job w' 1) 5) (core w') = Some (core w'') \<and> published 64 5 w''"
proof -
  obtain w w' w'' where w: "exec_all contention_exec initialise two_users = Some w" "published 64 5 w"
    "\<forall>i. \<not> lookup_of 64 i w" "exec_all contention_exec lock_it w = Some w'" "call_key (job w' 1) = 64"
    "contention_exec (Launch 1) w' = Some w''"
    using initialise_result by blast
  have "contention_reachable 2 w" by (rule contention_run [OF w(1) two_users_start])
  from late_calls_use_published_lock [OF this w(2-4,6,5)] w(5,6) show ?thesis by blast
qed

section \<open>Every block belongs to one insertion\<close>









section \<open>Refinement of the published mutexes\<close>






















end
