(* ===== verification/RealFunctions.thy ===== *)
theory RealFunctions
  imports Prelude
begin

text \<open>
  The pointers to the functions of the system: the names \<open>src/interpose.h\<close> declares, the ones
  \<open>src/interpose.c\<close> defines, and \<open>LOAD_FUNC\<close>, with which the constructor fills them. \<open>dlsym\<close> is
  a parameter: a function from names to addresses, 0 where there is no such symbol.
\<close>

section \<open>Names\<close>

definition declared_reals :: "string list" where
  "declared_reals =
    [''pthread_mutex_init'', ''pthread_mutex_destroy'', ''pthread_mutex_lock'',
     ''pthread_mutex_timedlock'', ''pthread_mutex_trylock'', ''pthread_mutex_unlock'',
     ''pthread_create'', ''pthread_cond_init'', ''pthread_cond_destroy'',
     ''pthread_cond_timedwait'', ''pthread_cond_wait'', ''pthread_cond_signal'',
     ''pthread_cond_broadcast'', ''pthread_spin_init'', ''pthread_spin_destroy'',
     ''pthread_spin_lock'', ''pthread_spin_trylock'', ''pthread_spin_unlock'',
     ''pthread_rwlock_init'', ''pthread_rwlock_destroy'', ''pthread_rwlock_rdlock'',
     ''pthread_rwlock_wrlock'', ''pthread_rwlock_timedrdlock'', ''pthread_rwlock_timedrwlock'',
     ''pthread_rwlock_tryrdlock'', ''pthread_rwlock_trywrlock'', ''pthread_rwlock_unlock'']"

definition defined_reals :: "string list" where
  "defined_reals =
    [''pthread_mutex_init'', ''pthread_mutex_destroy'', ''pthread_mutex_lock'',
     ''pthread_mutex_timedlock'', ''pthread_mutex_trylock'', ''pthread_mutex_unlock'',
     ''pthread_create'', ''pthread_cond_init'', ''pthread_cond_destroy'',
     ''pthread_cond_timedwait'', ''pthread_cond_wait'', ''pthread_cond_signal'',
     ''pthread_cond_broadcast'', ''pthread_spin_init'', ''pthread_spin_destroy'',
     ''pthread_spin_lock'', ''pthread_spin_trylock'', ''pthread_spin_unlock'',
     ''pthread_rwlock_init'', ''pthread_rwlock_destroy'', ''pthread_rwlock_rdlock'',
     ''pthread_rwlock_wrlock'', ''pthread_rwlock_timedrdlock'', ''pthread_rwlock_timedwrlock'',
     ''pthread_rwlock_tryrdlock'', ''pthread_rwlock_trywrlock'', ''pthread_rwlock_unlock'']"

text \<open>The calls of \<open>LOAD_FUNC\<close> in the constructor, in their order.\<close>

definition load_list :: "string list" where
  "load_list =
    [''pthread_mutex_init'', ''pthread_mutex_destroy'', ''pthread_mutex_lock'',
     ''pthread_mutex_timedlock'', ''pthread_mutex_trylock'', ''pthread_mutex_unlock'',
     ''pthread_cond_timedwait'', ''pthread_cond_wait'', ''pthread_cond_broadcast'',
     ''pthread_cond_destroy'', ''pthread_cond_init'', ''pthread_cond_signal'', ''pthread_create'',
     ''pthread_spin_init'', ''pthread_spin_destroy'', ''pthread_spin_lock'',
     ''pthread_spin_trylock'', ''pthread_spin_unlock'', ''pthread_rwlock_init'',
     ''pthread_rwlock_destroy'', ''pthread_rwlock_rdlock'', ''pthread_rwlock_wrlock'',
     ''pthread_rwlock_timedrdlock'', ''pthread_rwlock_timedwrlock'', ''pthread_rwlock_tryrdlock'',
     ''pthread_rwlock_trywrlock'', ''pthread_rwlock_unlock'']"

section \<open>Loading\<close>

text \<open>The pointers, and the names the warnings on \<open>stderr\<close> mention.\<close>

record reals =
  pointer :: "string \<Rightarrow> u64"
  warned :: "string list"

definition LOAD_FUNC :: "(string \<Rightarrow> u64) \<Rightarrow> string \<Rightarrow> bool \<Rightarrow> reals \<Rightarrow> reals" where
  "LOAD_FUNC dlsym name E r =
     (let r = r\<lparr>pointer := (pointer r)(name := dlsym name)\<rparr>
      in if E \<and> pointer r name = 0 then r\<lparr>warned := warned r @ [name]\<rparr> else r)"

definition no_reals :: reals where
  "no_reals = \<lparr>pointer = (\<lambda>_. 0), warned = []\<rparr>"

definition load_all :: "(string \<Rightarrow> u64) \<Rightarrow> string list \<Rightarrow> reals" where
  "load_all dlsym xs = fold (\<lambda>n. LOAD_FUNC dlsym n True) xs no_reals"

lemma load_all_Nil [simp]: "load_all dlsym [] = no_reals"
  by (simp add: load_all_def)

lemma load_all_snoc: "load_all dlsym (xs @ [n]) = LOAD_FUNC dlsym n True (load_all dlsym xs)"
  by (simp add: load_all_def)

lemma load_all_pointer: "pointer (load_all dlsym xs) n = (if n \<in> set xs then dlsym n else 0)"
  by (induction xs rule: rev_induct) (auto simp: load_all_snoc LOAD_FUNC_def Let_def no_reals_def)

lemma load_all_warned: "warned (load_all dlsym xs) = filter (\<lambda>n. dlsym n = 0) xs"
  by (induction xs rule: rev_induct) (auto simp: load_all_snoc LOAD_FUNC_def Let_def no_reals_def)

text \<open>Every pointer that is defined is loaded, once.\<close>

lemma load_list_complete: "set load_list = set defined_reals"
  unfolding load_list_def defined_reals_def by (simp add: insert_commute)

lemma load_list_distinct: "distinct load_list"
  unfolding load_list_def by simp

lemma load_list_length: "length load_list = 27"
  by (simp add: load_list_def)

text \<open>
  The declarations and the definitions differ in one name: the header declares
  \<open>real_pthread_rwlock_timedrwlock\<close>, which no file defines, for
  \<open>real_pthread_rwlock_timedwrlock\<close>, which it does not declare.
\<close>

lemma declared_not_defined:
  "filter (\<lambda>n. n \<notin> set defined_reals) declared_reals = [''pthread_rwlock_timedrwlock'']"
  "filter (\<lambda>n. n \<notin> set declared_reals) defined_reals = [''pthread_rwlock_timedwrlock'']"
  by (simp_all add: declared_reals_def defined_reals_def)

end
