(* ===== verification/Startup.thy ===== *)
theory Startup
  imports HashTable Machine RealFunctions
begin

text \<open>
  The start of the library and of its threads in \<open>src/interpose.c\<close>: the constructor
  \<open>REAL(interpose_init)\<close>, which any number of threads may enter, its three-valued guard
  \<open>init_spinlock\<close>, the numbering of threads, and \<open>lp_start_routine\<close>, in which every thread
  created through \<open>pthread_create\<close> begins. A step is one access to a shared variable. The
  parameter \<open>dl\<close> is \<open>dlsym\<close>.
\<close>

section \<open>State and steps\<close>

definition MAX_THREADS :: u32 where "MAX_THREADS = 2048"

text \<open>
  \<open>back_to\<close> is where the constructor returns to: out of the library, or into the user's function.
  \<open>B_\<close>: positions in the constructor. \<open>B_load j\<close> is before the call
  number \<open>j\<close> of \<open>LOAD_FUNC\<close>; the empty \<open>lock_application_init\<close> is part of the step before.
  \<open>R_\<close>: positions in \<open>lp_start_routine\<close>; \<open>R_run\<close> is the user's function, \<open>R_exit\<close> the empty
  \<open>lock_thread_exit\<close>.
\<close>

datatype bpc = B_out | B_cas | B_wait | B_memset | B_id | B_load nat | B_publish
  | R_id | R_start | R_run | R_exit | R_done

record bthread =
  bpc :: bpc
  back_to :: bpc
  cur_thread_id :: "u32 option"
  btls :: tls

record boot =
  init_spinlock :: u8
  last_thread_id :: u32
  btab :: table
  syms :: reals
  exited :: bool
  bthr :: "nat \<Rightarrow> bthread"

definition upd_boot :: "nat \<Rightarrow> (bthread \<Rightarrow> bthread) \<Rightarrow> boot \<Rightarrow> boot" where
  "upd_boot i f s = s\<lparr>bthr := (bthr s)(i := f (bthr s i))\<rparr>"

definition move_to :: "nat \<Rightarrow> bpc \<Rightarrow> boot \<Rightarrow> boot" where
  "move_to i p = upd_boot i (\<lambda>t. t\<lparr>bpc := p\<rparr>)"

text \<open>The return from the constructor.\<close>

definition leave_init :: "nat \<Rightarrow> boot \<Rightarrow> boot" where
  "leave_init i = upd_boot i (\<lambda>t. t\<lparr>bpc := back_to t\<rparr>)"

text \<open>The atomic increment and the test against \<open>MAX_THREADS\<close>, in both places.\<close>

definition take_id :: "nat \<Rightarrow> bpc \<Rightarrow> boot \<Rightarrow> boot" where
  "take_id i next s =
     (let n = last_thread_id s; s = s\<lparr>last_thread_id := n + 1\<rparr>;
          s = upd_boot i (\<lambda>t. t\<lparr>cur_thread_id := Some n\<rparr>) s
      in if n \<ge> MAX_THREADS then s\<lparr>exited := True\<rparr> else move_to i next s)"

definition interpose_init_step :: "(string \<Rightarrow> u64) \<Rightarrow> nat \<Rightarrow> bpc \<Rightarrow> boot \<Rightarrow> boot option" where
  "interpose_init_step dl i p s =
     (case p of
        B_cas \<Rightarrow>
          Some (let cur = init_spinlock s; s = (if cur = 0 then s\<lparr>init_spinlock := 1\<rparr> else s)
                in if cur = 1 then move_to i B_wait s else if cur = 2 then leave_init i s
                   else move_to i B_memset s)
      | B_wait \<Rightarrow> Some (if init_spinlock s = 1 then s else leave_init i s)
      | B_memset \<Rightarrow> Some (move_to i B_id (s\<lparr>btab := pthread_lock_table\<rparr>))
      | B_id \<Rightarrow> Some (take_id i (B_load 0) s)
      | B_load j \<Rightarrow>
          if j < length load_list
          then Some (move_to i (if j + 1 < length load_list then B_load (j + 1) else B_publish)
                 (s\<lparr>syms := LOAD_FUNC dl (load_list ! j) True (syms s)\<rparr>))
          else None
      | B_publish \<Rightarrow> Some (leave_init i (s\<lparr>init_spinlock := 2\<rparr>))
      | _ \<Rightarrow> None)"

definition lp_start_routine_step :: "nat \<Rightarrow> bpc \<Rightarrow> boot \<Rightarrow> boot option" where
  "lp_start_routine_step i p s =
     (case p of
        R_id \<Rightarrow> Some (take_id i R_start s)
      | R_start \<Rightarrow>
          Some (move_to i R_run (upd_boot i (\<lambda>t. t\<lparr>btls := htll_thread_start (btls t)\<rparr>) s))
      | R_run \<Rightarrow> Some (move_to i R_exit s)
      | R_exit \<Rightarrow> Some (move_to i R_done s)
      | _ \<Rightarrow> None)"

text \<open>
  The wrapper of \<open>pthread_create\<close> for the new thread \<open>i\<close>. The call of the system's function
  starts it in \<open>lp_start_routine\<close>; as long as the pointer is null it ends the process.
\<close>

definition pthread_create :: "nat \<Rightarrow> boot \<Rightarrow> boot" where
  "pthread_create i s = 
     (if pointer (syms s) ''pthread_create'' \<noteq> 0 then move_to i R_id s else s\<lparr>exited := True\<rparr>)"

text \<open>
  \<open>Enter i\<close>: a thread calls the constructor (the loader, or \<open>pthread_rwlock_init\<close> when it
  reads a guard other than 2). \<open>Spawn i\<close>: a thread calls \<open>pthread_create\<close> for thread \<open>i\<close>. \<open>Insert\<close>: a
  thread outside the constructor inserts into the table; it may do so at any time, since
  \<open>pthread_mutex_lock\<close> and the others that create a lock on its first use do not look at the guard.
\<close>

datatype boot_event = Enter nat | Spawn nat | Move nat | Insert nat u64 u64

fun boot_exec :: "(string \<Rightarrow> u64) \<Rightarrow> boot_event \<Rightarrow> boot \<Rightarrow> boot option" where
  "boot_exec dl (Enter i) s =
     (if bpc (bthr s i) = B_out \<or> bpc (bthr s i) = R_run
      then Some (upd_boot i (\<lambda>t. t\<lparr>back_to := bpc t, bpc := B_cas\<rparr>) s) else None)"
| "boot_exec dl (Spawn i) s =
     (if bpc (bthr s i) = B_out \<and> cur_thread_id (bthr s i) = None then Some (pthread_create i s) else None)"
| "boot_exec dl (Move i) s =
     (case interpose_init_step dl i (bpc (bthr s i)) s of
        Some s' \<Rightarrow> Some s'
      | None \<Rightarrow> lp_start_routine_step i (bpc (bthr s i)) s)"
| "boot_exec dl (Insert i k v) s =
     (if bpc (bthr s i) = B_out \<or> bpc (bthr s i) = R_run
      then Some (s\<lparr>btab := snd (hash_put k v (btab s))\<rparr>) else None)"

definition boot_run :: "(string \<Rightarrow> u64) \<Rightarrow> boot_event \<Rightarrow> boot \<Rightarrow> boot option" where
  "boot_run dl ev s = (if exited s then None else boot_exec dl ev s)"

definition boot_step :: "(string \<Rightarrow> u64) \<Rightarrow> boot \<Rightarrow> boot \<Rightarrow> bool" where
  "boot_step dl s s' \<longleftrightarrow> (\<exists>ev. boot_run dl ev s = Some s')"

lemma boot_runD: "boot_run dl ev s = Some s' \<Longrightarrow> boot_exec dl ev s = Some s' \<and> \<not> exited s"
  by (simp add: boot_run_def split: if_splits)

text \<open>Before the start every variable is zero and every thread-local block is the initial one.\<close>

definition boot_init :: "boot \<Rightarrow> bool" where
  "boot_init s \<longleftrightarrow> init_spinlock s = 0 \<and> last_thread_id s = 0 \<and> syms s = no_reals \<and> \<not> exited s \<and>
     (\<forall>i. bpc (bthr s i) = B_out \<and> back_to (bthr s i) = B_out \<and>
        cur_thread_id (bthr s i) = None \<and> btls (bthr s i) = fresh_tls)"

definition boot_reachable :: "(string \<Rightarrow> u64) \<Rightarrow> boot \<Rightarrow> bool" where
  "boot_reachable dl = reach boot_init (boot_step dl)"

lemma upd_boot_simps [simp]:
  "init_spinlock (upd_boot i f s) = init_spinlock s" "last_thread_id (upd_boot i f s) = last_thread_id s"
  "btab (upd_boot i f s) = btab s" "syms (upd_boot i f s) = syms s" "exited (upd_boot i f s) = exited s"
  "bthr (upd_boot i f s) j = (if j = i then f (bthr s i) else bthr s j)"
  by (simp_all add: upd_boot_def)

lemma move_to_simps [simp]:
  "init_spinlock (move_to i p s) = init_spinlock s" "last_thread_id (move_to i p s) = last_thread_id s"
  "btab (move_to i p s) = btab s" "syms (move_to i p s) = syms s" "exited (move_to i p s) = exited s"
  "bthr (move_to i p s) j = (if j = i then (bthr s i)\<lparr>bpc := p\<rparr> else bthr s j)"
  by (simp_all add: move_to_def)

lemma leave_init_simps [simp]:
  "init_spinlock (leave_init i s) = init_spinlock s" "last_thread_id (leave_init i s) = last_thread_id s"
  "btab (leave_init i s) = btab s" "syms (leave_init i s) = syms s" "exited (leave_init i s) = exited s"
  "bthr (leave_init i s) j = (if j = i then (bthr s i)\<lparr>bpc := back_to (bthr s i)\<rparr> else bthr s j)"
  by (simp_all add: leave_init_def)

lemma take_id_simps [simp]:
  "init_spinlock (take_id i p s) = init_spinlock s" "btab (take_id i p s) = btab s"
  "syms (take_id i p s) = syms s"
  "last_thread_id (take_id i p s) = last_thread_id s + 1"
  "exited (take_id i p s) \<longleftrightarrow> exited s \<or> MAX_THREADS \<le> last_thread_id s"
  "bthr (take_id i p s) j =
    (if j = i then (bthr s i)\<lparr>cur_thread_id := Some (last_thread_id s),
                             bpc := (if MAX_THREADS \<le> last_thread_id s then bpc (bthr s i) else p)\<rparr>
     else bthr s j)"
  by (auto simp: take_id_def Let_def)

lemma pthread_create_simps [simp]:
  "init_spinlock (pthread_create i s) = init_spinlock s" "last_thread_id (pthread_create i s) = last_thread_id s"
  "btab (pthread_create i s) = btab s" "syms (pthread_create i s) = syms s"
  "bthr (pthread_create i s) j = 
    (if j = i \<and> pointer (syms s) ''pthread_create'' \<noteq> 0 then (bthr s i)\<lparr>bpc := R_id\<rparr> else bthr s j)"
  by (simp_all add: pthread_create_def)

lemmas boot_steps = interpose_init_step_def lp_start_routine_step_def

section \<open>The constructor runs once\<close>

definition inside :: "bpc \<Rightarrow> bool" where
  "inside p \<longleftrightarrow> p = B_memset \<or> p = B_id \<or> (\<exists>j. p = B_load j) \<or> p = B_publish"

definition guard_inv :: "boot \<Rightarrow> bool" where
  "guard_inv s \<longleftrightarrow> init_spinlock s \<in> {0, 1, 2} \<and>
     (\<forall>i. back_to (bthr s i) = B_out \<or> back_to (bthr s i) = R_run) \<and>
     (\<forall>i. inside (bpc (bthr s i)) \<longrightarrow> init_spinlock s = 1) \<and>
     (\<forall>i. bpc (bthr s i) = B_wait \<longrightarrow> init_spinlock s \<noteq> 0) \<and>
     (\<forall>i j. inside (bpc (bthr s i)) \<longrightarrow> inside (bpc (bthr s j)) \<longrightarrow> i = j)"

lemma inside_simps [simp]:
  "inside B_memset" "inside B_id" "inside (B_load j)" "inside B_publish" "\<not> inside B_out" "\<not> inside B_cas"
  "\<not> inside B_wait" "\<not> inside R_id" "\<not> inside R_start" "\<not> inside R_run" "\<not> inside R_exit" "\<not> inside R_done"
  by (simp_all add: inside_def)

text \<open>A step of a thread that stays inside or outside and leaves the guard alone.\<close>

lemma guard_inv_quiet:
  assumes "guard_inv s" and "init_spinlock s' = init_spinlock s"
    and "\<And>j. j \<noteq> i \<Longrightarrow> bthr s' j = bthr s j"
    and "inside (bpc (bthr s' i)) \<longrightarrow> inside (bpc (bthr s i))"
    and "bpc (bthr s' i) = B_wait \<longrightarrow> init_spinlock s \<noteq> 0"
    and "back_to (bthr s' i) = B_out \<or> back_to (bthr s' i) = R_run"
  shows "guard_inv s'"
  unfolding guard_inv_def
proof (intro conjI allI impI)
  show "init_spinlock s' \<in> {0, 1, 2}" using assms(1,2) by (simp add: guard_inv_def)
  show "back_to (bthr s' j) = B_out \<or> back_to (bthr s' j) = R_run" for j
    using assms(1,3,6) by (cases "j = i") (simp_all add: guard_inv_def)
  show "init_spinlock s' \<noteq> 0" if "bpc (bthr s' j) = B_wait" for j
    using assms(1,2,3,5) that unfolding guard_inv_def by (cases "j = i") auto
  have sub: "inside (bpc (bthr s j))" if "inside (bpc (bthr s' j))" for j
    using assms(3,4) that by (cases "j = i") auto
  show "init_spinlock s' = 1" if "inside (bpc (bthr s' j))" for j
    using assms(1,2) sub [OF that] unfolding guard_inv_def by metis
  show "j = k" if "inside (bpc (bthr s' j))" "inside (bpc (bthr s' k))" for j k
    using assms(1) sub [OF that(1)] sub [OF that(2)] unfolding guard_inv_def by blast
qed

lemma guard_inv_back: "guard_inv s \<Longrightarrow> back_to (bthr s i) = B_out \<or> back_to (bthr s i) = R_run"
  by (simp add: guard_inv_def)

lemma guard_inv_move:
  assumes inv: "guard_inv s" and st: "interpose_init_step dl i p s = Some s'" and p: "bpc (bthr s i) = p"
  shows "guard_inv s'"
proof (cases p)
  case B_cas
  have nb: "\<not> inside (back_to (bthr s i))" using guard_inv_back [OF inv, of i] by auto
  show ?thesis
  proof (cases "init_spinlock s = 0")
    case True
    then have "\<not> inside (bpc (bthr s j))" for j using inv by (auto simp: guard_inv_def)
    moreover from st B_cas True have s': "s' = move_to i B_memset (s\<lparr>init_spinlock := 1\<rparr>)"
      by (simp add: boot_steps)
    ultimately have "inside (bpc (bthr s' j)) \<longleftrightarrow> j = i" for j by simp
    then show ?thesis using inv by (simp add: guard_inv_def s')
  next
    case False
    show ?thesis
      by (rule guard_inv_quiet [OF inv, of _ i])
        (use st B_cas False nb guard_inv_back [OF inv, of i] inv in
          \<open>auto simp: boot_steps Let_def guard_inv_def\<close>)
  qed
next
  case B_publish
  then have i: "inside (bpc (bthr s i))" using p by simp
  then have out: "\<not> inside (bpc (bthr s j))" if "j \<noteq> i" for j
    using inv that unfolding guard_inv_def by blast
  have s': "s' = leave_init i (s\<lparr>init_spinlock := 2\<rparr>)" using st B_publish by (simp add: boot_steps)
  have "\<not> inside (bpc (bthr s' j))" for j
    using out guard_inv_back [OF inv, of i] by (auto simp: s')
  then show ?thesis using guard_inv_back [OF inv] by (simp add: guard_inv_def s')
next
  case B_wait
  show ?thesis
    by (rule guard_inv_quiet [OF inv, of _ i])
      (use st B_wait guard_inv_back [OF inv, of i] p in \<open>auto simp: boot_steps split: if_splits\<close>)
qed (rule guard_inv_quiet [OF inv, of _ i],
    use st guard_inv_back [OF inv, of i] p in \<open>auto simp: boot_steps split: if_splits\<close>)+

lemma guard_inv_exec:
  assumes inv: "guard_inv s" and st: "boot_exec dl ev s = Some s'"
  shows "guard_inv s'"
proof (cases ev)
  case (Enter i)
  show ?thesis
    by (rule guard_inv_quiet [OF inv, of _ i]) (use st Enter in \<open>auto split: if_splits\<close>)
next
  case (Spawn i)
  show ?thesis
    by (rule guard_inv_quiet [OF inv, of _ i])
      (use st Spawn guard_inv_back [OF inv, of i] in \<open>auto split: if_splits\<close>)
next
  case (Move i)
  show ?thesis
  proof (cases "interpose_init_step dl i (bpc (bthr s i)) s")
    case None
    show ?thesis
      by (rule guard_inv_quiet [OF inv, of _ i])
        (use st Move None guard_inv_back [OF inv, of i] in
          \<open>auto simp: lp_start_routine_step_def split: bpc.splits if_splits\<close>)
  next
    case (Some s1)
    with st Move guard_inv_move [OF inv Some refl] show ?thesis by simp
  qed
next
  case (Insert i k v)
  show ?thesis
    by (rule guard_inv_quiet [OF inv, of _ i])
      (use st Insert guard_inv_back [OF inv, of i] in \<open>auto split: if_splits\<close>)
qed

interpretation guard: checked_system "boot_run dl" "boot_step dl" boot_init guard_inv for dl
proof unfold_locales
  show "boot_step dl s s' \<longleftrightarrow> (\<exists>ev. boot_run dl ev s = Some s')" for s s' by (rule boot_step_def)
  show "boot_init s \<Longrightarrow> guard_inv s" for s by (simp add: boot_init_def guard_inv_def)
qed (blast dest: boot_runD guard_inv_exec)

lemma boot_reachable_guard: "boot_reachable dl s \<Longrightarrow> guard_inv s"
  unfolding boot_reachable_def by (rule guard.reachable_inv)

text \<open>How far the pointers have been filled, by the position of the thread that fills them.\<close>

definition staged :: "(string \<Rightarrow> u64) \<Rightarrow> bpc \<Rightarrow> reals \<Rightarrow> bool" where
  "staged dl p r \<longleftrightarrow>
     (case p of
        B_memset \<Rightarrow> r = no_reals
      | B_id \<Rightarrow> r = no_reals
      | B_load j \<Rightarrow> j < length load_list \<and> r = load_all dl (take j load_list)
      | B_publish \<Rightarrow> r = load_all dl load_list
      | _ \<Rightarrow> True)"

definition loaded_inv :: "(string \<Rightarrow> u64) \<Rightarrow> boot \<Rightarrow> bool" where
  "loaded_inv dl s \<longleftrightarrow> (\<forall>i. staged dl (bpc (bthr s i)) (syms s)) \<and>
     (init_spinlock s = 0 \<longrightarrow> syms s = no_reals) \<and>
     (init_spinlock s = 2 \<longrightarrow> syms s = load_all dl load_list)"

lemma staged_outside: "\<not> inside p \<Longrightarrow> staged dl p r"
  by (auto simp: staged_def inside_def split: bpc.split)

lemma load_next:
  "j < length load_list \<Longrightarrow>
     LOAD_FUNC dl (load_list ! j) True (load_all dl (take j load_list)) = load_all dl (take (j + 1) load_list)"
  by (simp add: take_Suc_conv_app_nth load_all_snoc)

text \<open>A step that leaves the pointers and the guard alone.\<close>

lemma loaded_inv_quiet:
  assumes "loaded_inv dl s" and "syms s' = syms s" and "init_spinlock s' = init_spinlock s"
    and "\<And>j. j \<noteq> i \<Longrightarrow> bthr s' j = bthr s j" and "staged dl (bpc (bthr s' i)) (syms s)"
  shows "loaded_inv dl s'"
  using assms unfolding loaded_inv_def by metis

lemma loaded_inv_move:
  assumes guard: "guard_inv s" and inv: "loaded_inv dl s"
    and st: "interpose_init_step dl i p s = Some s'" and p: "bpc (bthr s i) = p"
  shows "loaded_inv dl s'"
proof -
  have home: "staged dl (back_to (bthr s i)) r" for r
    using guard_inv_back [OF guard, of i] by (auto intro: staged_outside)
  have here: "staged dl p (syms s)" using inv p unfolding loaded_inv_def by metis
  have others: "staged dl (bpc (bthr s j)) r" if "inside p" "j \<noteq> i" for j r
    using guard that p unfolding guard_inv_def by (blast intro: staged_outside)
  have one: "init_spinlock s = 1" if "inside p" using guard that p by (auto simp: guard_inv_def)
  show ?thesis
  proof (cases p)
    case (B_load j)
    then have j: "j < length load_list" "syms s = load_all dl (take j load_list)"
      using here by (simp_all add: staged_def)
    let ?q = "if j + 1 < length load_list then B_load (j + 1) else B_publish"
    have s': "s' = move_to i ?q (s\<lparr>syms := load_all dl (take (j + 1) load_list)\<rparr>)"
      using st j load_next [OF j(1), of dl] by (simp add: B_load interpose_init_step_def)
    show ?thesis
      using others one B_load unfolding loaded_inv_def by (simp add: s') (simp add: staged_def)
  next
    case B_cas
    show ?thesis
    proof (cases "init_spinlock s = 0")
      case True
      then have "s' = move_to i B_memset (s\<lparr>init_spinlock := 1\<rparr>)" using st by (simp add: B_cas boot_steps)
      moreover have "staged dl B_memset (syms s)" using inv True by (simp add: loaded_inv_def staged_def)
      ultimately show ?thesis using inv by (simp add: loaded_inv_def)
    next
      case False
      then have "init_spinlock s = 1 \<or> init_spinlock s = 2" using guard by (auto simp: guard_inv_def)
      then show ?thesis
        by (intro loaded_inv_quiet [OF inv, of _ i])
          (use st home in \<open>auto simp: B_cas boot_steps Let_def staged_outside\<close>)
    qed
  next
    case B_publish
    then show ?thesis
      using st here home others by (auto simp: boot_steps loaded_inv_def) (simp add: staged_def)
  next
    case B_id
    show ?thesis
      by (rule loaded_inv_quiet [OF inv, of _ i])
        (use st here p in \<open>auto simp: B_id boot_steps staged_def load_list_length\<close>)
  qed (rule loaded_inv_quiet [OF inv, of _ i],
      use st here home p in \<open>auto simp: boot_steps staged_def\<close>)+
qed

lemma loaded_inv_exec:
  assumes guard: "guard_inv s" and inv: "loaded_inv dl s" and st: "boot_exec dl ev s = Some s'"
  shows "loaded_inv dl s'"
proof (cases ev)
  case (Enter i)
  show ?thesis
    by (rule loaded_inv_quiet [OF inv, of _ i]) (use st Enter in \<open>auto simp: staged_def split: if_splits\<close>)
next
  case (Spawn i)
  show ?thesis
    by (rule loaded_inv_quiet [OF inv, of _ i]) (use st Spawn in \<open>auto simp: staged_def split: if_splits\<close>)
next
  case (Move i)
  show ?thesis
  proof (cases "interpose_init_step dl i (bpc (bthr s i)) s")
    case None
    show ?thesis
      by (rule loaded_inv_quiet [OF inv, of _ i])
        (use st Move None in \<open>auto simp: lp_start_routine_step_def staged_def split: bpc.splits if_splits\<close>)
  next
    case (Some s1)
    with st Move loaded_inv_move [OF guard inv Some refl] show ?thesis by simp
  qed
next
  case (Insert i k v)
  show ?thesis
    by (rule loaded_inv_quiet [OF inv, of _ i]) (use st Insert inv in \<open>auto simp: loaded_inv_def staged_outside split: if_splits\<close>)
qed

interpretation loaded: checked_system "boot_run dl" "boot_step dl" boot_init
    "\<lambda>s. guard_inv s \<and> loaded_inv dl s" for dl
proof unfold_locales
  show "boot_init s \<Longrightarrow> guard_inv s \<and> loaded_inv dl s" for s
    by (simp add: boot_init_def guard_inv_def loaded_inv_def staged_def)
qed (blast dest: boot_runD guard_inv_exec loaded_inv_exec)

lemma boot_reachable_loaded: "boot_reachable dl s \<Longrightarrow> loaded_inv dl s"
  unfolding boot_reachable_def by (blast dest: loaded.reachable_inv)

text \<open>
  C16. The constructor runs once. In every reachable state at most one thread executes its
  body, and nobody does once the guard is 2; from then on the guard stays 2 and no step but an
  insertion changes the table; and a step that returns from the constructor leaves the
  guard at 2, so no thread gets past the constructor before the table has been cleared.
  (A thread that does not go through the constructor can insert earlier;
  \<open>early_insertions_lost\<close> says what becomes of it.)
\<close>

theorem init_runs_once:
  assumes "boot_reachable dl s"
  shows "(\<forall>i j. inside (bpc (bthr s i)) \<and> inside (bpc (bthr s j)) \<longrightarrow> i = j) \<and>
    (init_spinlock s = 2 \<longrightarrow> (\<forall>i. \<not> inside (bpc (bthr s i)))) \<and>
    (\<forall>ev s'. boot_exec dl ev s = Some s' \<longrightarrow> init_spinlock s = 2 \<longrightarrow>
       init_spinlock s' = 2 \<and> ((\<forall>i k v. ev \<noteq> Insert i k v) \<longrightarrow> btab s' = btab s)) \<and>
    (\<forall>i s'. interpose_init_step dl i (bpc (bthr s i)) s = Some s' \<longrightarrow>
       bpc (bthr s' i) = B_out \<or> bpc (bthr s' i) = R_run \<longrightarrow> init_spinlock s' = 2)"
proof -
  have inv: "guard_inv s" using assms by (rule boot_reachable_guard)
  have once: "i = j" if "inside (bpc (bthr s i))" "inside (bpc (bthr s j))" for i j
    using inv that unfolding guard_inv_def by blast
  have out: "\<not> inside (bpc (bthr s i))" if "init_spinlock s = 2" for i
    using inv that by (auto simp: guard_inv_def)
  have three: "init_spinlock s = 0 \<or> init_spinlock s = 1 \<or> init_spinlock s = 2"
    using inv by (simp add: guard_inv_def)
  have stays: "init_spinlock s' = 2 \<and> ((\<forall>i k v. ev \<noteq> Insert i k v) \<longrightarrow> btab s' = btab s)"
    if st: "boot_exec dl ev s = Some s'" and two: "init_spinlock s = 2" for ev s'
  proof (cases ev)
    case (Move i)
    have "\<not> inside (bpc (bthr s i))" by (rule out [OF two])
    then show ?thesis
      using st two Move
      by (cases "bpc (bthr s i)") (auto simp: boot_steps Let_def)
  qed (use st two in \<open>auto split: if_splits\<close>)
  have leaves: "init_spinlock s' = 2"
    if st: "interpose_init_step dl i (bpc (bthr s i)) s = Some s'"
      and p: "bpc (bthr s' i) = B_out \<or> bpc (bthr s' i) = R_run" for i s'
  proof (cases "bpc (bthr s i)")
    case B_wait
    with st p inv three show ?thesis by (auto simp: boot_steps guard_inv_def split: if_splits)
  qed (use st p three in \<open>auto simp: boot_steps Let_def split: if_splits\<close>)
  with once out stays leaves show ?thesis by blast
qed

section \<open>Locks that are used before the constructor\<close>

text \<open>The table is still to be cleared, or empty.\<close>

definition clearing :: "boot \<Rightarrow> bool" where
  "clearing s \<longleftrightarrow> init_spinlock s = 0 \<or> (\<exists>i. bpc (bthr s i) = B_memset) \<or> btab s = pthread_lock_table"

lemma clearing_exec:
  assumes "clearing s" and "guard_inv s" and st: "boot_exec dl ev s = Some s'" and ev: "\<nexists>i k v. ev = Insert i k v"
  shows "clearing s'"
proof -
  have memset: "(\<exists>i. bpc (bthr s' i) = B_memset) \<or> btab s' = pthread_lock_table"
    if "bpc (bthr s j) = B_memset" for j
  proof (cases "ev = Move j")
    case True
    with st that show ?thesis by (auto simp: interpose_init_step_def)
  next
    case False
    have "bpc (bthr s' j) = B_memset"
    proof (cases ev)
      case (Move i)
      with False st that show ?thesis by (cases "bpc (bthr s i)") (auto simp: boot_steps Let_def split: if_splits)
    qed (use st ev that in \<open>auto split: if_splits\<close>)
    then show ?thesis by blast
  qed
  have rest: "clearing s'" if "\<nexists>i. bpc (bthr s i) = B_memset"
  proof (cases ev)
    case (Move i)
    have "init_spinlock s = 1" if "bpc (bthr s i) = B_publish"
      using assms(2) that unfolding guard_inv_def by (metis inside_simps(4))
    with Move st that assms(1) show ?thesis
      by (cases "bpc (bthr s i)") (auto simp: boot_steps Let_def clearing_def split: if_splits)
  qed (use st ev that assms(1) in \<open>auto simp: clearing_def split: if_splits\<close>)
  show ?thesis
  proof (cases "\<exists>j. bpc (bthr s j) = B_memset")
    case True
    with memset show ?thesis unfolding clearing_def by blast
  qed (rule rest)
qed

lemma clearing_run:
  assumes "exec_all (boot_run dl) evs s = Some s'" and "clearing s" and "guard_inv s" and "\<forall>i k v. Insert i k v \<notin> set evs"
  shows "clearing s'"
  using assms
proof (induction evs arbitrary: s)
  case (Cons ev evs)
  from Cons.prems(1) obtain s1 where s1: "boot_run dl ev s = Some s1" "exec_all (boot_run dl) evs s1 = Some s'"
    by (auto split: option.splits)
  have "clearing s1"
    by (rule clearing_exec [OF Cons.prems(2,3)]) (use boot_runD [OF s1(1)] Cons.prems(4) in auto)
  moreover have "guard_inv s1" using guard_inv_exec [OF Cons.prems(3)] boot_runD [OF s1(1)] by blast
  ultimately show ?case using Cons.IH [OF s1(2)] Cons.prems(4) by simp
qed simp

text \<open>
  What is inserted before the constructor is lost. A mutex may be locked while the guard is
  still 0, for example by the constructor of another library, and gets a lock in the table.
  Whatever was inserted by then, once the guard is 2, if no more was inserted meanwhile, the
  table is empty again and every address looks unused: the next call on a mutex that is
  locked at this moment creates a second lock for it.
\<close>

theorem early_insertions_lost:
  assumes "boot_reachable dl s" and "init_spinlock s = 0"
    and "exec_all (boot_run dl) evs s = Some s'" and "\<forall>i k v. Insert i k v \<notin> set evs"
    and "init_spinlock s' = 2"
  shows "btab s' = pthread_lock_table \<and> (\<forall>k. k \<noteq> 0 \<longrightarrow> hash_get k (btab s') = Some 0)"
proof -
  have "boot_reachable dl s'"
    using guard.run_reach [OF assms(3)] assms(1) unfolding boot_reachable_def by blast
  then have "guard_inv s'" by (rule boot_reachable_guard)
  have "bpc (bthr s' i) \<noteq> B_memset" for i
  proof
    assume "bpc (bthr s' i) = B_memset"
    with \<open>guard_inv s'\<close> have "init_spinlock s' = 1" unfolding guard_inv_def by (metis inside_simps(1))
    with assms(5) show False by simp
  qed
  moreover have "clearing s'"
    using assms(2,4) boot_reachable_guard [OF assms(1)]
    by (intro clearing_run [OF assms(3)]) (simp_all add: clearing_def)
  ultimately have "btab s' = pthread_lock_table" using assms(5) by (auto simp: clearing_def)
  then show ?thesis by (simp add: hash_get_initial)
qed

section \<open>Thread numbers\<close>

definition id_inv :: "boot \<Rightarrow> bool" where
  "id_inv s \<longleftrightarrow> unat (last_thread_id s) \<le> (if exited s then 2049 else 2048) \<and>
     (\<forall>i a. cur_thread_id (bthr s i) = Some a \<longrightarrow> a < last_thread_id s) \<and>
     (\<forall>i j a. cur_thread_id (bthr s i) = Some a \<longrightarrow> cur_thread_id (bthr s j) = Some a \<longrightarrow> i = j)"

lemma id_inv_same:
  assumes "id_inv s" and "last_thread_id s' = last_thread_id s" and "exited s' = exited s"
    and "\<And>j. cur_thread_id (bthr s' j) = cur_thread_id (bthr s j)"
  shows "id_inv s'"
  using assms by (simp add: id_inv_def)

lemma id_inv_take:
  assumes "id_inv s" and "\<not> exited s"
  shows "id_inv (take_id i p s)"
proof -
  let ?n = "last_thread_id s"
  have n: "unat ?n \<le> 2048" using assms by (simp add: id_inv_def)
  then have suc: "unat (?n + 1) = unat ?n + 1" by (simp add: unat_word_ariths)
  then have lt: "?n < ?n + 1" "a < ?n \<Longrightarrow> a < ?n + 1" for a by (simp_all add: word_less_nat_alt)
  have full: "MAX_THREADS \<le> ?n \<longleftrightarrow> unat ?n = 2048"
    using n by (auto simp: MAX_THREADS_def word_le_nat_alt)
  have old: "\<And>i a. cur_thread_id (bthr s i) = Some a \<Longrightarrow> a < ?n"
    "\<And>i j a. cur_thread_id (bthr s i) = Some a \<Longrightarrow> cur_thread_id (bthr s j) = Some a \<Longrightarrow> i = j"
    using assms by (auto simp: id_inv_def)
  show ?thesis
    unfolding id_inv_def
  proof (intro conjI allI impI)
    show "unat (last_thread_id (take_id i p s)) \<le> (if exited (take_id i p s) then 2049 else 2048)"
      using n suc full assms(2) by auto
  next
    fix j a assume "cur_thread_id (bthr (take_id i p s) j) = Some a"
    then show "a < last_thread_id (take_id i p s)"
      using old(1) lt by (auto split: if_splits)
  next
    fix j k a
    assume "cur_thread_id (bthr (take_id i p s) j) = Some a" "cur_thread_id (bthr (take_id i p s) k) = Some a"
    then show "j = k"
      using old less_irrefl by (auto split: if_splits)
  qed
qed

lemma id_inv_exec:
  assumes "id_inv s" and "boot_exec dl ev s = Some s'" and "\<not> exited s"
  shows "id_inv s'"
proof (cases ev)
  case (Move i)
  show ?thesis
  proof (cases "bpc (bthr s i) = B_id \<or> bpc (bthr s i) = R_id")
    case True
    with assms(2) Move id_inv_take [OF assms(1,3)] show ?thesis by (auto simp: boot_steps)
  next
    case False
    show ?thesis
      by (rule id_inv_same [OF assms(1)])
        (use assms(2) Move False in \<open>cases "bpc (bthr s i)"; auto simp: boot_steps Let_def split: if_splits\<close>)+
  qed
next
  case (Spawn i)
  then have "s' = pthread_create i s" using assms(2) by (auto split: if_splits)
  with assms(1,3) show ?thesis by (auto simp: id_inv_def pthread_create_def)
qed (rule id_inv_same [OF assms(1)], use assms(2) in \<open>auto split: if_splits\<close>)+

interpretation ids: checked_system "boot_run dl" "boot_step dl" boot_init id_inv for dl
proof unfold_locales
  show "boot_init s \<Longrightarrow> id_inv s" for s by (simp add: boot_init_def id_inv_def)
qed (blast dest: boot_runD id_inv_exec)

lemma boot_reachable_id: "boot_reachable dl s \<Longrightarrow> id_inv s"
  unfolding boot_reachable_def by (rule ids.reachable_inv)

text \<open>
  C30. Thread numbers are unique and small: as long as the process has not ended, the threads
  that have a number have different ones, all below \<open>MAX_THREADS\<close>, and a thread that would
  get the number 2048 ends the process.
\<close>

theorem thread_ids_unique:
  assumes "boot_reachable dl s" and "\<not> exited s" and "cur_thread_id (bthr s i) = Some a"
    and "cur_thread_id (bthr s j) = Some b" and "i \<noteq> j"
  shows "a \<noteq> b \<and> a < MAX_THREADS \<and> b < MAX_THREADS"
proof -
  have inv: "id_inv s" using assms(1) by (rule boot_reachable_id)
  then have "unat (last_thread_id s) \<le> 2048" "a < last_thread_id s" "b < last_thread_id s"
    using assms(2-4) by (auto simp: id_inv_def)
  moreover have "a \<noteq> b" using inv assms(3-5) unfolding id_inv_def by blast
  ultimately show ?thesis by (auto simp: MAX_THREADS_def word_less_nat_alt)
qed

text \<open>A small start: thread 0 runs the constructor, thread 1 waits for it and thread 2 is spawned.\<close>

abbreviation run_boot :: "(string \<Rightarrow> u64) \<Rightarrow> boot_event list \<Rightarrow> boot \<Rightarrow> boot option" where
  "run_boot dl \<equiv> exec_all (boot_run dl)"

definition boot_zero :: boot where
  "boot_zero = \<lparr>init_spinlock = 0, last_thread_id = 0, btab = pthread_lock_table, syms = no_reals, exited = False,
     bthr = (\<lambda>_. \<lparr>bpc = B_out, back_to = B_out, cur_thread_id = None, btls = fresh_tls\<rparr>)\<rparr>"

definition small_start :: "boot_event list" where
  "small_start = [Enter 0, Enter 1, Move 0, Move 1, Move 0, Move 0] @ replicate 26 (Move 0) @
     [Move 0, Move 0, Move 1, Spawn 2, Move 2, Move 2]"

text \<open>A system with all functions, at some address.\<close>

definition found :: "string \<Rightarrow> u64" where
  "found n = 4096"

text \<open>The loads, one after the other.\<close>

lemma load_run:
  assumes "bpc (bthr s i) = B_load j" and "syms s = load_all dl (take j load_list)"
    and "j + k < length load_list" and "\<not> exited s"
  shows "run_boot dl (replicate k (Move i)) s =
    Some (move_to i (B_load (j + k)) (s\<lparr>syms := load_all dl (take (j + k) load_list)\<rparr>))"
  using assms
proof (induction k arbitrary: j s)
  case 0
  then have "(bthr s)(i := (bthr s i)\<lparr>bpc := B_load j\<rparr>) = bthr s" by auto
  with 0 show ?case by (simp add: move_to_def upd_boot_def)
next
  case (Suc k)
  let ?s = "move_to i (B_load (j + 1)) (s\<lparr>syms := load_all dl (take (j + 1) load_list)\<rparr>)"
  have "boot_run dl (Move i) s = Some ?s"
    using Suc.prems load_next [of j dl] by (simp add: boot_run_def interpose_init_step_def)
  moreover have "move_to i (B_load (j + 1 + k)) (?s\<lparr>syms := r\<rparr>) =
      move_to i (B_load (j + 1 + k)) (s\<lparr>syms := r\<rparr>)" for r
    by (simp add: move_to_def upd_boot_def)
  ultimately show ?case using Suc.IH [of ?s "j + 1"] Suc.prems by simp
qed

lemmas boot_eval = boot_run_def boot_steps upd_boot_def move_to_def leave_init_def take_id_def
  pthread_create_def MAX_THREADS_def Let_def word_le_nat_alt

lemma small_start_run:
  "\<exists>s. run_boot found small_start (boot_zero\<lparr>btab := T\<rparr>) = Some s \<and> \<not> exited s \<and> init_spinlock s = 2 \<and> bpc (bthr s 0) = B_out \<and>
     bpc (bthr s 1) = B_out \<and> bpc (bthr s 2) = R_run \<and> cur_thread_id (bthr s 0) = Some 0 \<and>
     cur_thread_id (bthr s 2) = Some 1"
proof -
  obtain s1 where run1: "run_boot found [Enter 0, Enter 1, Move 0, Move 1, Move 0, Move 0] (boot_zero\<lparr>btab := T\<rparr>) = Some s1"
    and s1: "\<not> exited s1" "init_spinlock s1 = 1" "last_thread_id s1 = 1" "syms s1 = no_reals"
    "bpc (bthr s1 0) = B_load 0" "back_to (bthr s1 0) = B_out" "cur_thread_id (bthr s1 0) = Some 0"
    "bpc (bthr s1 1) = B_wait" "back_to (bthr s1 1) = B_out"
    "bpc (bthr s1 2) = B_out" "cur_thread_id (bthr s1 2) = None"
    by (simp add: boot_zero_def boot_eval)
  let ?s2 = "move_to 0 (B_load 26) (s1\<lparr>syms := load_all found (take 26 load_list)\<rparr>)"
  have run2: "run_boot found (replicate 26 (Move 0)) s1 = Some ?s2"
    using load_run [of s1 0 0 found 26] s1 by (simp add: load_list_length)
  have last: "LOAD_FUNC found (load_list ! 26) True (load_all found (take 26 load_list)) = load_all found load_list"
    using load_next [of 26 found] by (simp add: load_list_length)
  have create: "pointer (load_all found load_list) ''pthread_create'' = 4096"
    by (simp add: load_all_pointer found_def load_list_def)
  obtain s3 where run3: "run_boot found [Move 0, Move 0, Move 1, Spawn 2, Move 2, Move 2] ?s2 = Some s3"
    and s3: "\<not> exited s3 \<and> init_spinlock s3 = 2 \<and> bpc (bthr s3 0) = B_out \<and> bpc (bthr s3 1) = B_out \<and>
      bpc (bthr s3 2) = R_run \<and> cur_thread_id (bthr s3 0) = Some 0 \<and> cur_thread_id (bthr s3 2) = Some 1"
    using s1 create by (simp add: boot_eval last load_list_length)
  have "run_boot found small_start (boot_zero\<lparr>btab := T\<rparr>) = Some s3"
    unfolding small_start_def exec_all_append run1 option.case run2 run3 ..
  with s3 show ?thesis by blast
qed

lemma boot_zero_reachable: "boot_reachable dl boot_zero"
  unfolding boot_reachable_def by (rule reach_init) (simp add: boot_init_def boot_zero_def)

lemma run_boot_reachable: "run_boot dl evs s = Some s' \<Longrightarrow> boot_reachable dl s \<Longrightarrow> boot_reachable dl s'"
  unfolding boot_reachable_def by (rule guard.run_reach)

lemma small_start_result:
  "\<exists>s. boot_reachable found s \<and> \<not> exited s \<and> init_spinlock s = 2 \<and> bpc (bthr s 0) = B_out \<and>
     bpc (bthr s 1) = B_out \<and> bpc (bthr s 2) = R_run \<and> cur_thread_id (bthr s 0) = Some 0 \<and>
     cur_thread_id (bthr s 2) = Some 1"
proof -
  have "boot_zero\<lparr>btab := pthread_lock_table\<rparr> = boot_zero" by (simp add: boot_zero_def)
  with small_start_run [of pthread_lock_table] run_boot_reachable [OF _ boot_zero_reachable] show ?thesis
    by (metis (no_types))
qed

text \<open>Thread 1 locks the mutex at 64 before thread 0 runs the constructor.\<close>

theorem early_insertions_lost_witness:
  "\<exists>s s'. boot_reachable found s \<and> hash_get 64 (btab s) = Some 4096 \<and>
     run_boot found small_start s = Some s' \<and> init_spinlock s' = 2 \<and> hash_get 64 (btab s') = Some 0"
proof -
  let ?s = "boot_zero\<lparr>btab := snd (hash_put 64 4096 pthread_lock_table)\<rparr>"
  have "run_boot found [Insert 1 64 4096] boot_zero = Some ?s" by (simp add: boot_run_def boot_zero_def)
  then have r: "boot_reachable found ?s" using boot_zero_reachable by (rule run_boot_reachable)
  obtain s' where s': "run_boot found small_start ?s = Some s'" "init_spinlock s' = 2"
    using small_start_run by blast
  have "init_spinlock ?s = 0" by (simp add: boot_zero_def)
  moreover have "\<forall>i k v. Insert i k v \<notin> set small_start" by (auto simp: small_start_def)
  ultimately have "hash_get 64 (btab s') = Some 0" using early_insertions_lost [OF r _ s'(1) _ s'(2)] by fastforce
  moreover have "hash_get 64 (btab ?s) = Some 4096"
    by (simp add: hash_put_def hash_get_def my_hash_def pthread_lock_table_def empty_bucket)
  ultimately show ?thesis using r s' by blast
qed

text \<open>
  C29. The functions of the system are there when the constructor is over. While the guard is 2,
  every pointer \<open>interpose.c\<close> defines is what \<open>dlsym\<close> gives for its name, and there has been
  exactly one warning for each that is missing; so a \<open>pthread_create\<close> ends the process just if
  the system has none. While the guard is 0 (a constructor that runs before this one creates
  a thread) it always does.
\<close>

theorem system_functions_ready:
  assumes "boot_reachable dl s" and "\<not> exited s"
  shows "(init_spinlock s = 2 \<longrightarrow>
      (\<forall>n \<in> set defined_reals. pointer (syms s) n = dl n) \<and>
      distinct (warned (syms s)) \<and> set (warned (syms s)) = {n \<in> set defined_reals. dl n = 0} \<and>
      (exited (pthread_create i s) \<longleftrightarrow> dl ''pthread_create'' = 0)) \<and>
    (init_spinlock s = 0 \<longrightarrow> exited (pthread_create i s))"
proof -
  have inv: "loaded_inv dl s" using assms(1) by (rule boot_reachable_loaded)
  have create: "''pthread_create'' \<in> set load_list" by (simp add: load_list_def)
  have "pointer (syms s) n = dl n" if "init_spinlock s = 2" "n \<in> set defined_reals" for n
    using inv that by (simp add: loaded_inv_def load_all_pointer load_list_complete)
  moreover have "distinct (warned (syms s)) \<and> set (warned (syms s)) = {n \<in> set defined_reals. dl n = 0}"
    if "init_spinlock s = 2"
    using inv that load_list_distinct by (simp add: loaded_inv_def load_all_warned load_list_complete)
  moreover have "exited (pthread_create i s) \<longleftrightarrow> dl ''pthread_create'' = 0" if "init_spinlock s = 2"
    using inv that assms(2) create by (simp add: loaded_inv_def load_all_pointer pthread_create_def)
  moreover have "exited (pthread_create i s)" if "init_spinlock s = 0"
    using inv that by (simp add: loaded_inv_def pthread_create_def no_reals_def)
  ultimately show ?thesis by blast
qed

theorem system_functions_ready_witness:
  "\<exists>s. boot_reachable found s \<and> init_spinlock s = 2 \<and> pointer (syms s) ''pthread_mutex_lock'' = 4096 \<and>
     warned (syms s) = [] \<and> \<not> exited (pthread_create 3 s)"
proof -
  obtain s where s: "boot_reachable found s" "\<not> exited s" "init_spinlock s = 2"
    using small_start_result by blast
  have "''pthread_mutex_lock'' \<in> set defined_reals" by (simp add: defined_reals_def)
  with system_functions_ready [OF s(1,2), of 3] s show ?thesis
    by (intro exI [of _ s]) (auto simp: found_def)
qed

theorem init_runs_once_witness:
  "\<exists>s. boot_reachable found s \<and> init_spinlock s = 2 \<and> (\<forall>i. \<not> inside (bpc (bthr s i)))"
  using small_start_result init_runs_once by blast

theorem thread_ids_unique_witness:
  "\<exists>s. boot_reachable found s \<and> cur_thread_id (bthr s 0) = Some 0 \<and> cur_thread_id (bthr s 2) = Some 1 \<and>
     (0 :: u32) \<noteq> 1 \<and> (1 :: u32) < MAX_THREADS"
proof -
  obtain s where s: "boot_reachable found s" "\<not> exited s" "cur_thread_id (bthr s 0) = Some 0"
    "cur_thread_id (bthr s 2) = Some 1"
    using small_start_result by blast
  have "(0 :: u32) \<noteq> 1 \<and> (0 :: u32) < MAX_THREADS \<and> (1 :: u32) < MAX_THREADS"
    by (rule thread_ids_unique [OF s]) simp
  with s show ?thesis by blast
qed

section \<open>Who runs htll\_thread\_start\<close>

definition home :: "bthread \<Rightarrow> bpc" where
  "home t =
     (case bpc t of
        B_cas \<Rightarrow> back_to t | B_wait \<Rightarrow> back_to t | B_memset \<Rightarrow> back_to t | B_id \<Rightarrow> back_to t
      | B_load j \<Rightarrow> back_to t | B_publish \<Rightarrow> back_to t | p \<Rightarrow> p)"

definition tls_inv :: "bthread \<Rightarrow> bool" where
  "tls_inv t \<longleftrightarrow>
     btls t = (if home t \<in> {B_out, R_id, R_start} then fresh_tls else htll_thread_start fresh_tls)"

lemma home_simps [simp]:
  "bpc t = B_out \<Longrightarrow> home t = B_out" "bpc t = B_cas \<Longrightarrow> home t = back_to t"
  "bpc t = B_wait \<Longrightarrow> home t = back_to t" "bpc t = B_memset \<Longrightarrow> home t = back_to t"
  "bpc t = B_id \<Longrightarrow> home t = back_to t" "bpc t = B_load k \<Longrightarrow> home t = back_to t"
  "bpc t = B_publish \<Longrightarrow> home t = back_to t" "bpc t = R_id \<Longrightarrow> home t = R_id"
  "bpc t = R_start \<Longrightarrow> home t = R_start" "bpc t = R_run \<Longrightarrow> home t = R_run"
  "bpc t = R_exit \<Longrightarrow> home t = R_exit" "bpc t = R_done \<Longrightarrow> home t = R_done"
  by (simp_all add: home_def)

text \<open>The constructor does not change them.\<close>

lemma home_init_step:
  assumes "interpose_init_step dl j (bpc (bthr s j)) s = Some s'"
    and "back_to (bthr s j) = B_out \<or> back_to (bthr s j) = R_run"
  shows "home (bthr s' j) = home (bthr s j) \<and> btls (bthr s' j) = btls (bthr s j)"
proof -
  have leave: "home (bthr (leave_init j s1) j) = back_to (bthr s1 j)"
    if "back_to (bthr s1 j) = B_out \<or> back_to (bthr s1 j) = R_run" for s1
    using that by auto
  show ?thesis
    using assms
    by (cases "bpc (bthr s j)")
      (auto simp: interpose_init_step_def Let_def leave simp del: leave_init_simps(6) split: if_splits,
       auto)
qed

text \<open>What a step does to the place a thread belongs to and to its thread-local block.\<close>

lemma home_step:
  assumes "boot_exec dl ev s = Some s'" and "guard_inv s"
  shows "home (bthr s' j) = home (bthr s j) \<and> btls (bthr s' j) = btls (bthr s j) \<or>
    home (bthr s j) = B_out \<and> home (bthr s' j) = R_id \<and> btls (bthr s' j) = btls (bthr s j) \<or>
    home (bthr s j) = R_id \<and> home (bthr s' j) = R_start \<and> btls (bthr s' j) = btls (bthr s j) \<or>
    home (bthr s j) = R_start \<and> home (bthr s' j) = R_run \<and>
      btls (bthr s' j) = htll_thread_start (btls (bthr s j)) \<or>
    home (bthr s j) \<in> {R_run, R_exit} \<and> home (bthr s' j) \<in> {R_exit, R_done} \<and>
      btls (bthr s' j) = btls (bthr s j)"
proof -
  have b: "back_to (bthr s j) = B_out \<or> back_to (bthr s j) = R_run" by (rule guard_inv_back [OF assms(2)])
  show ?thesis
  proof (cases ev)
    case (Move i)
    show ?thesis
    proof (cases "i = j")
      case True
      show ?thesis
      proof (cases "interpose_init_step dl j (bpc (bthr s j)) s")
        case None
        with assms(1) Move True show ?thesis
          by (cases "bpc (bthr s j)"; cases "MAX_THREADS \<le> last_thread_id s")
            (auto simp: lp_start_routine_step_def)
      next
        case (Some s1)
        with assms(1) Move True home_init_step [OF Some b] show ?thesis by simp
      qed
    next
      case False
      then have "bthr s' j = bthr s j"
        using assms(1) Move
        by (cases "bpc (bthr s i)") (auto simp: boot_steps Let_def split: if_splits)
      then show ?thesis by simp
    qed
  next
    case (Enter i)
    then have s': "s' = upd_boot i (\<lambda>t. t\<lparr>back_to := bpc t, bpc := B_cas\<rparr>) s"
      and p: "bpc (bthr s i) = B_out \<or> bpc (bthr s i) = R_run"
      using assms(1) by (auto split: if_splits)
    have "home (bthr s' j) = home (bthr s j) \<and> btls (bthr s' j) = btls (bthr s j)"
      using p by (cases "i = j") (auto simp: s')
    then show ?thesis by blast
  next
    case (Spawn i)
    then have s': "s' = pthread_create i s" and p: "bpc (bthr s i) = B_out"
      using assms(1) by (auto split: if_splits)
    then show ?thesis by (cases "i = j \<and> pointer (syms s) ''pthread_create'' \<noteq> 0") auto
  next
    case (Insert i k v)
    then have "bthr s' = bthr s" using assms(1) by (auto split: if_splits)
    then show ?thesis by simp
  qed
qed

lemma tls_inv_exec:
  assumes "tls_inv (bthr s j)" and "boot_exec dl ev s = Some s'" and "guard_inv s"
  shows "tls_inv (bthr s' j)"
  using home_step [OF assms(2,3), of j] assms(1)
  unfolding tls_inv_def by (elim disjE conjE insertE emptyE) simp_all

lemma boot_reachable_tls: "boot_reachable dl s \<Longrightarrow> guard_inv s \<and> (\<forall>i. tls_inv (bthr s i))"
  unfolding boot_reachable_def
proof (erule reach_invariant)
  show "guard_inv s \<and> (\<forall>i. tls_inv (bthr s i))" if "boot_init s" for s
    using that by (simp add: boot_init_def tls_inv_def home_def guard_inv_def)
  show "guard_inv s' \<and> (\<forall>i. tls_inv (bthr s' i))"
    if "guard_inv s \<and> (\<forall>i. tls_inv (bthr s i))" "boot_step dl s s'" for s s'
    using that by (auto simp: boot_step_def dest!: boot_runD intro: guard_inv_exec tls_inv_exec)
qed

lemma first_segment_timeout:
  assumes "tls_ok t" and "stack_pos t = -1"
  shows "\<exists>t'. segment_start 0 now t = Inr (0, t') \<and>
    segment_timeout t' = Some (0, sint (wait_time (segment t ! 0)))"
proof -
  have len: "length (segment t) = nat MAX_SEGMENT" using assms(1) by (simp add: tls_ok_def)
  show ?thesis
    using segment_start_ok [OF assms(1), of 0 now] assms(2) len
    by (simp add: segment_timeout_alt seg_consts)
qed

text \<open>
  Only threads made by \<open>pthread_create\<close> get the default reorder window. A thread that is in
  the user's function under \<open>lp_start_routine\<close> waits up to 10000 ns in its first segment; a
  thread that is not (the main thread: the constructor never calls \<open>htll_thread_start\<close>) has
  the zero window, its waits in a segment time out at once.
\<close>

theorem first_window:
  assumes "boot_reachable dl s"
  shows "(bpc (bthr s i) = R_run \<longrightarrow>
      (\<exists>t. segment_start 0 now (btls (bthr s i)) = Inr (0, t) \<and> segment_timeout t = Some (0, 10000))) \<and>
    (bpc (bthr s i) = B_out \<longrightarrow>
      (\<exists>t. segment_start 0 now (btls (bthr s i)) = Inr (0, t) \<and> segment_timeout t = Some (0, 0)))"
proof -
  have inv: "tls_inv (bthr s i)" using boot_reachable_tls [OF assms] by blast
  have len: "length (segment fresh_tls) = nat MAX_SEGMENT" by (simp add: fresh_tls_def)
  have fresh: "stack_pos fresh_tls = -1" "wait_time (segment fresh_tls ! 0) = 0"
    by (simp_all add: fresh_tls_def seg_consts zero_segment_def)
  have started: "stack_pos (htll_thread_start fresh_tls) = -1"
    "wait_time (segment (htll_thread_start fresh_tls) ! 0) = DEFAULT_REORDER"
    by (simp_all add: htll_thread_start_map [OF len] fresh) (simp add: len seg_consts)
  show ?thesis
    using inv first_segment_timeout [OF tls_ok_fresh fresh(1), of now]
      first_segment_timeout [OF htll_thread_start_ok(1) [OF tls_ok_fresh] started(1), of now]
    by (auto simp: tls_inv_def home_def fresh started DEFAULT_REORDER_def)
qed

theorem first_window_witness:
  "\<exists>s. boot_reachable found s \<and> bpc (bthr s 2) = R_run \<and> bpc (bthr s 0) = B_out \<and>
     (\<exists>t. segment_start 0 7 (btls (bthr s 2)) = Inr (0, t) \<and> segment_timeout t = Some (0, 10000)) \<and>
     (\<exists>t. segment_start 0 7 (btls (bthr s 0)) = Inr (0, t) \<and> segment_timeout t = Some (0, 0))"
proof -
  obtain s where s: "boot_reachable found s" "bpc (bthr s 2) = R_run" "bpc (bthr s 0) = B_out"
    using small_start_result by blast
  with first_window [OF s(1), of 2 7] first_window [OF s(1), of 0 7] show ?thesis by blast
qed

end
