(* ===== verification/WaitingPolicy.thy ===== *)
theory WaitingPolicy
  imports Prelude
begin

text \<open>
  The generic waiting policies of \<open>src/waiting_policy.h\<close>: one thread waits in
  \<open>waiting_policy_sleep\<close> for the variable \<open>*var\<close> to become \<open>UNLOCKED\<close> (1), another sets it in
  \<open>waiting_policy_wake\<close> and wakes the first if it is parked. The four variants of the header
  are the four values of \<open>policy\<close>; steps are the accesses to \<open>*var\<close> and the system calls. The
  kernel may end a blocked wait at any time with 0 or with \<open>EINTR\<close>.
\<close>

section \<open>State\<close>

datatype policy = Spinlock | Spinlock_atomic | Spin_then_park | Park

definition SPINNING_THRESHOLD :: nat where "SPINNING_THRESHOLD = 4000"

text \<open>\<open>LOCKED\<close> and \<open>UNLOCKED\<close> of this header.\<close>

definition P_LOCKED :: int where "P_LOCKED = 0"
definition P_UNLOCKED :: int where "P_UNLOCKED = 1"

lemmas policy_consts = P_LOCKED_def P_UNLOCKED_def SPINNING_THRESHOLD_def

text \<open>Positions of the waiter and of the waker; \<open>K_fail\<close> is the failed assertion.\<close>

datatype spc = S_enter | S_spin nat | S_check | S_futex | S_blocked | S_final | S_done
datatype kpc = K_idle | K_test | K_store | K_futex | K_done | K_fail

record wstate =
  var :: int
  spc :: spc
  kpc :: kpc
  spin_cnt :: int
  park_cnt :: int
  wake_cnt :: int

section \<open>waiting\_policy\_sleep\<close>

text \<open>
  One function per policy, as the preprocessor selects them; \<open>S_final\<close> is the loop at the
  end (for the spinlocks the only one).
\<close>

definition spinlock_sleep :: "wstate \<Rightarrow> wstate option" where
  "spinlock_sleep s =
     (case spc s of
        S_enter \<Rightarrow> Some (s\<lparr>spc := S_final\<rparr>)
      | S_final \<Rightarrow> Some (if var s = P_LOCKED then s else s\<lparr>spc := S_done\<rparr>)
      | _ \<Rightarrow> None)"

definition atomic_sleep :: "wstate \<Rightarrow> wstate option" where
  "atomic_sleep s =
     (case spc s of
        S_enter \<Rightarrow> Some (s\<lparr>spc := S_final\<rparr>)
      | S_final \<Rightarrow>
          Some (let old = var s; s = (if old = P_UNLOCKED then s\<lparr>var := P_LOCKED\<rparr> else s)
                in if old = P_LOCKED then s else s\<lparr>spc := S_done\<rparr>)
      | _ \<Rightarrow> None)"

definition spin_park_sleep :: "wstate \<Rightarrow> wstate option" where
  "spin_park_sleep s =
     (case spc s of
        S_enter \<Rightarrow> Some (s\<lparr>spc := S_spin 0\<rparr>)
      | S_spin i \<Rightarrow>
          Some (if i < SPINNING_THRESHOLD \<and> var s \<noteq> P_UNLOCKED then s\<lparr>spc := S_spin (i + 1)\<rparr>
                else s\<lparr>spc := S_check\<rparr>)
      | S_check \<Rightarrow>
          Some (if var s = P_UNLOCKED then s\<lparr>spin_cnt := spin_cnt s + 1, spc := S_done\<rparr>
                else s\<lparr>spc := S_futex\<rparr>)
      | S_futex \<Rightarrow>
          Some (if var s = P_LOCKED then s\<lparr>spc := S_blocked\<rparr>
                else s\<lparr>spin_cnt := spin_cnt s + 1, park_cnt := park_cnt s + 1, spc := S_final\<rparr>)
      | S_final \<Rightarrow> Some (if var s \<noteq> P_UNLOCKED then s else s\<lparr>spc := S_done\<rparr>)
      | _ \<Rightarrow> None)"

definition park_sleep :: "wstate \<Rightarrow> wstate option" where
  "park_sleep s =
     (case spc s of
        S_enter \<Rightarrow> Some (s\<lparr>spc := S_futex\<rparr>)
      | S_futex \<Rightarrow> Some (if var s = P_LOCKED then s\<lparr>spc := S_blocked\<rparr> else s\<lparr>spc := S_final\<rparr>)
      | S_final \<Rightarrow> Some (if var s \<noteq> P_UNLOCKED then s else s\<lparr>spc := S_done\<rparr>)
      | _ \<Rightarrow> None)"

definition sleep_step :: "policy \<Rightarrow> wstate \<Rightarrow> wstate option" where
  "sleep_step P =
     (case P of
        Spinlock \<Rightarrow> spinlock_sleep
      | Spinlock_atomic \<Rightarrow> atomic_sleep
      | Spin_then_park \<Rightarrow> spin_park_sleep
      | Park \<Rightarrow> park_sleep)"

lemmas sleep_defs = sleep_step_def spinlock_sleep_def atomic_sleep_def spin_park_sleep_def
  park_sleep_def

text \<open>
  The return of a blocked call: 0 leaves the loop, \<open>EINTR\<close> (the flag) calls again. The counter
  is only in the variant that spins first.
\<close>

definition unblock :: "policy \<Rightarrow> bool \<Rightarrow> wstate \<Rightarrow> wstate" where
  "unblock P eintr s =
     (let s = (if P = Spin_then_park then s\<lparr>park_cnt := park_cnt s + 1\<rparr> else s)
      in if eintr then s\<lparr>spc := S_futex\<rparr> else s\<lparr>spc := S_final\<rparr>)"

section \<open>waiting\_policy\_wake\<close>

definition spinlock_wake :: "wstate \<Rightarrow> wstate option" where
  "spinlock_wake s =
     (case kpc s of
        K_idle \<Rightarrow> Some (s\<lparr>kpc := K_store\<rparr>)
      | K_store \<Rightarrow> Some (s\<lparr>var := P_UNLOCKED, kpc := K_done\<rparr>)
      | _ \<Rightarrow> None)"

text \<open>\<open>K_fail\<close> is the failed assertion.\<close>

definition atomic_wake :: "wstate \<Rightarrow> wstate option" where
  "atomic_wake s =
     (case kpc s of
        K_idle \<Rightarrow> Some (s\<lparr>kpc := K_store\<rparr>)
      | K_store \<Rightarrow>
          Some (let old = var s; s = (if old = P_LOCKED then s\<lparr>var := P_UNLOCKED\<rparr> else s)
                in if old = 0 then s\<lparr>kpc := K_done\<rparr> else s\<lparr>kpc := K_fail\<rparr>)
      | _ \<Rightarrow> None)"

text \<open>\<open>FUTEX_WAKE\<close> of one thread: the only waiter returns from its blocked call.\<close>

definition futex_wake_waiter :: "policy \<Rightarrow> wstate \<Rightarrow> wstate" where
  "futex_wake_waiter P s = (if spc s = S_blocked then unblock P False s else s)"

definition spin_park_wake :: "wstate \<Rightarrow> wstate option" where
  "spin_park_wake s =
     (case kpc s of
        K_idle \<Rightarrow> Some (s\<lparr>kpc := K_test\<rparr>)
      | K_test \<Rightarrow>
          Some (if var s = 0 then s\<lparr>wake_cnt := wake_cnt s + 1, kpc := K_store\<rparr> else s\<lparr>kpc := K_store\<rparr>)
      | K_store \<Rightarrow> Some (s\<lparr>var := 1, kpc := K_futex\<rparr>)
      | K_futex \<Rightarrow> Some ((futex_wake_waiter Spin_then_park s)\<lparr>kpc := K_done\<rparr>)
      | _ \<Rightarrow> None)"

definition park_wake :: "wstate \<Rightarrow> wstate option" where
  "park_wake s =
     (case kpc s of
        K_idle \<Rightarrow> Some (s\<lparr>kpc := K_store\<rparr>)
      | K_store \<Rightarrow> Some (s\<lparr>var := 1, kpc := K_futex\<rparr>)
      | K_futex \<Rightarrow> Some ((futex_wake_waiter Park s)\<lparr>kpc := K_done\<rparr>)
      | _ \<Rightarrow> None)"

definition wake_step :: "policy \<Rightarrow> wstate \<Rightarrow> wstate option" where
  "wake_step P =
     (case P of
        Spinlock \<Rightarrow> spinlock_wake
      | Spinlock_atomic \<Rightarrow> atomic_wake
      | Spin_then_park \<Rightarrow> spin_park_wake
      | Park \<Rightarrow> park_wake)"

lemmas wake_defs = wake_step_def spinlock_wake_def atomic_wake_def spin_park_wake_def park_wake_def
  futex_wake_waiter_def

section \<open>The protocol\<close>

inductive wait_sys :: "policy \<Rightarrow> wstate \<Rightarrow> wstate \<Rightarrow> bool" for P where
  waiter: "sleep_step P s = Some s' \<Longrightarrow> wait_sys P s s'"
| waker: "wake_step P s = Some s' \<Longrightarrow> wait_sys P s s'"
| kernel: "spc s = S_blocked \<Longrightarrow> wait_sys P s (unblock P eintr s)"

inductive_cases wait_sysE: "wait_sys P s s'"

datatype wait_event = Waiter | Waker | Kernel bool

fun wait_exec :: "policy \<Rightarrow> wait_event \<Rightarrow> wstate \<Rightarrow> wstate option" where
  "wait_exec P Waiter s = sleep_step P s"
| "wait_exec P Waker s = wake_step P s"
| "wait_exec P (Kernel eintr) s = (if spc s = S_blocked then Some (unblock P eintr s) else None)"

lemma wait_sys_exec: "wait_sys P s s' \<longleftrightarrow> (\<exists>ev. wait_exec P ev s = Some s')"
proof
  show "\<exists>ev. wait_exec P ev s = Some s'" if "wait_sys P s s'"
    using that by (rule wait_sysE) (metis wait_exec.simps)+
  show "wait_sys P s s'" if e: "\<exists>ev. wait_exec P ev s = Some s'"
  proof -
    from e obtain ev where "wait_exec P ev s = Some s'" by blast
    then show ?thesis by (cases ev) (auto intro: wait_sys.intros split: if_splits)
  qed
qed

definition wait_init :: "wstate \<Rightarrow> bool" where
  "wait_init s \<longleftrightarrow> var s = P_LOCKED \<and> spc s = S_enter \<and> kpc s = K_idle"

definition wait_reachable :: "policy \<Rightarrow> wstate \<Rightarrow> bool" where
  "wait_reachable P = reach wait_init (wait_sys P)"

definition released :: "kpc \<Rightarrow> bool" where
  "released k \<longleftrightarrow> k = K_futex \<or> k = K_done"

text \<open>
  The variable is set exactly from the store of the waker on; in the atomic variant the
  waiter takes it back when it leaves.
\<close>

definition wait_inv :: "policy \<Rightarrow> wstate \<Rightarrow> bool" where
  "wait_inv P s \<longleftrightarrow>
     var s = (if released (kpc s) \<and> (P = Spinlock_atomic \<longrightarrow> spc s \<noteq> S_done) then P_UNLOCKED else P_LOCKED) \<and>
     (spc s = S_done \<longrightarrow> released (kpc s)) \<and>
     (spc s = S_blocked \<longrightarrow> kpc s \<noteq> K_done) \<and>
     kpc s \<noteq> K_fail \<and>
     (P = Spinlock \<or> P = Spinlock_atomic \<longrightarrow> spc s = S_enter \<or> spc s = S_final \<or> spc s = S_done) \<and>
     (P = Park \<longrightarrow> spc s \<noteq> S_check \<and> (\<forall>i. spc s \<noteq> S_spin i))"

lemma sleep_step_inv: "wait_inv P s \<Longrightarrow> sleep_step P s = Some s' \<Longrightarrow> wait_inv P s'"
  by (cases "spc s"; cases P)
    (auto simp: wait_inv_def sleep_defs policy_consts released_def split: if_splits)

lemma unblock_inv:
  "wait_inv P s \<Longrightarrow> spc s = S_blocked \<Longrightarrow> wait_inv P (unblock P eintr s)"
  by (auto simp: wait_inv_def unblock_def Let_def)

lemma wake_step_inv: "wait_inv P s \<Longrightarrow> wake_step P s = Some s' \<Longrightarrow> wait_inv P s'"
  by (cases "kpc s"; cases P)
    (auto simp: wait_inv_def wake_defs policy_consts released_def unblock_def Let_def
      split: if_splits)

lemma wait_exec_inv:
  assumes "wait_inv P s" and "wait_exec P ev s = Some s'"
  shows "wait_inv P s'"
proof (cases ev)
  case (Kernel eintr)
  with assms show ?thesis by (auto intro: unblock_inv split: if_splits)
qed (use assms in \<open>auto intro: sleep_step_inv wake_step_inv\<close>)

interpretation wait: checked_system "wait_exec P" "wait_sys P" wait_init "wait_inv P" for P
proof unfold_locales
  show "wait_sys P s s' \<longleftrightarrow> (\<exists>ev. wait_exec P ev s = Some s')" for s s' by (rule wait_sys_exec)
  show "wait_init s \<Longrightarrow> wait_inv P s" for s by (simp add: wait_init_def wait_inv_def released_def)
qed (rule wait_exec_inv)

lemma wait_reachable_inv: "wait_reachable P s \<Longrightarrow> wait_inv P s"
  unfolding wait_reachable_def by (rule wait.reachable_inv)

section \<open>The progress of the waker\<close>

text \<open>The positions of the waker in the order in which it passes them.\<close>

primrec kpc_rank :: "kpc \<Rightarrow> nat" where
  "kpc_rank K_idle = 0"
| "kpc_rank K_test = 1"
| "kpc_rank K_store = 2"
| "kpc_rank K_futex = 3"
| "kpc_rank K_done = 4"
| "kpc_rank K_fail = 5"

lemma kpc_rank_inj: "kpc_rank k = kpc_rank l \<longleftrightarrow> k = l"
  by (cases k; cases l) simp_all

instantiation kpc :: linorder
begin

definition less_eq_kpc :: "kpc \<Rightarrow> kpc \<Rightarrow> bool" where
  "less_eq_kpc k l \<longleftrightarrow> kpc_rank k \<le> kpc_rank l"

definition less_kpc :: "kpc \<Rightarrow> kpc \<Rightarrow> bool" where
  "less_kpc k l \<longleftrightarrow> kpc_rank k < kpc_rank l"

instance
  by intro_classes (auto simp: less_eq_kpc_def less_kpc_def kpc_rank_inj [symmetric])

end

text \<open>Every step of the waker takes it forward, and nothing else moves it: it makes at most five.\<close>

lemma waker_advances: "wake_step P s = Some s' \<Longrightarrow> kpc s < kpc s'"
  by (cases "kpc s"; cases P)
    (auto simp: wake_defs less_kpc_def unblock_def Let_def split: if_splits)

lemma kpc_others:
  "sleep_step P s = Some s' \<Longrightarrow> kpc s' = kpc s" "kpc (unblock P e s) = kpc s"
  by (cases P; cases "spc s"; auto simp: sleep_defs Let_def split: if_splits)
    (simp add: unblock_def Let_def)

lemma waker_steps:
  "exec_all (wait_exec P) evs s = Some s' \<Longrightarrow>
   count_list evs Waker + kpc_rank (kpc s) \<le> kpc_rank (kpc s')"
proof (induction evs arbitrary: s)
  case (Cons ev evs)
  then obtain s1 where s1: "wait_exec P ev s = Some s1" "exec_all (wait_exec P) evs s1 = Some s'"
    by (auto split: option.splits)
  have "(if ev = Waker then 1 else 0) + kpc_rank (kpc s) \<le> kpc_rank (kpc s1)"
    using s1(1) waker_advances [of P s s1]
    by (cases ev) (auto simp: less_kpc_def kpc_others split: if_splits)
  with Cons.IH [OF s1(2)] show ?case by (cases "ev = Waker") simp_all
qed simp

lemma waker_bounded: "exec_all (wait_exec P) evs s = Some s' \<Longrightarrow> count_list evs Waker \<le> 5"
  using waker_steps [of P evs s s'] by (cases "kpc s'") simp_all

section \<open>The contract of the policies\<close>

text \<open>
  C31. Safety of every policy, for one waiter and one waker: the waiter returns only after the
  waker has set the variable; the assertion of the atomic variant never fails; and a
  waiter that is blocked in the kernel while the variable is already set will be woken: the
  waker has not yet made its wake-up call.
\<close>

theorem wait_returns_after_wake:
  assumes "wait_reachable P s"
  shows "kpc s \<noteq> K_fail \<and>
    (spc s = S_done \<longrightarrow> released (kpc s) \<and> (P \<noteq> Spinlock_atomic \<longrightarrow> var s = P_UNLOCKED)) \<and>
    (spc s = S_blocked \<longrightarrow> var s = P_UNLOCKED \<longrightarrow> kpc s = K_futex)"
  using wait_reachable_inv [OF assms]
  by (auto simp: wait_inv_def released_def policy_consts split: if_splits)

fun sleep_steps :: "policy \<Rightarrow> nat \<Rightarrow> wstate \<Rightarrow> wstate option" where
  "sleep_steps P 0 s = Some s"
| "sleep_steps P (Suc n) s = (case sleep_step P s of None \<Rightarrow> None | Some s' \<Rightarrow> sleep_steps P n s')"

text \<open>
  C32. Liveness of every policy: once the waker has returned, the waiter is not blocked, and
  at most three of its own steps bring it to its return.
\<close>

theorem waiter_finishes:
  assumes "wait_reachable P s" and "kpc s = K_done"
  shows "\<exists>k\<le>3. \<exists>s'. sleep_steps P k s = Some s' \<and> spc s' = S_done"
proof -
  have inv: "wait_inv P s" by (rule wait_reachable_inv [OF assms(1)])
  then have v: "spc s \<noteq> S_done \<Longrightarrow> var s = P_UNLOCKED" and nb: "spc s \<noteq> S_blocked"
    and simple: "P \<noteq> Spin_then_park \<Longrightarrow> spc s \<noteq> S_check \<and> (\<forall>i. spc s \<noteq> S_spin i)"
    and spin: "P \<noteq> Spin_then_park \<Longrightarrow> P \<noteq> Park \<Longrightarrow> spc s \<noteq> S_futex"
    using assms(2) by (cases P; auto simp: wait_inv_def released_def)+
  note step = sleep_defs policy_consts Let_def
  consider "spc s = S_done" | "spc s = S_final" | "spc s = S_check" | i where "spc s = S_spin i"
    | "spc s = S_futex" | "spc s = S_enter"
    using nb by (cases "spc s") auto
  then show ?thesis
  proof cases
    case 1
    then show ?thesis by (intro exI [of _ 0]) simp
  next
    case 2
    then show ?thesis using v by (intro exI [of _ 1]) (cases P; simp add: step)
  next
    case 3
    then have "P = Spin_then_park" using simple by blast
    then show ?thesis using v 3 by (intro exI [of _ 1]) (simp add: step)
  next
    case 4
    then have "P = Spin_then_park" using simple by blast
    then show ?thesis using v 4 by (intro exI [of _ 2]) (simp add: step numeral_2_eq_2)
  next
    case 5
    then show ?thesis
      using v spin by (intro exI [of _ 2]) (cases P; simp add: step numeral_2_eq_2)
  next
    case 6
    consider "P = Spinlock \<or> P = Spinlock_atomic" | "P = Spin_then_park \<or> P = Park" by (cases P) auto
    then show ?thesis
    proof cases
      case 1
      then show ?thesis using v 6 by (intro exI [of _ 2]) (auto simp: step numeral_2_eq_2)
    next
      case 2
      then show ?thesis using v 6 by (intro exI [of _ 3]) (auto simp: step numeral_3_eq_3)
    qed
  qed
qed

text \<open>A run of the parking policy: the waiter parks, the waker sets the variable and wakes it.\<close>

definition wait_zero :: wstate where
  "wait_zero = \<lparr>var = 0, spc = S_enter, kpc = K_idle, spin_cnt = 0, park_cnt = 0, wake_cnt = 0\<rparr>"

lemma parked_run:
  "wait_reachable Park (wait_zero\<lparr>var := 1, spc := S_blocked, kpc := K_futex\<rparr>)"
  "wait_reachable Park (wait_zero\<lparr>var := 1, spc := S_final, kpc := K_done\<rparr>)"
proof -
  have 0: "wait_reachable Park wait_zero"
    unfolding wait_reachable_def by (rule reach_init) (simp add: wait_init_def wait_zero_def P_LOCKED_def)
  note run = wait.run_reach [OF _ 0 [unfolded wait_reachable_def], folded wait_reachable_def]
  note eval = sleep_defs wake_defs wait_zero_def unblock_def P_LOCKED_def
  show "wait_reachable Park (wait_zero\<lparr>var := 1, spc := S_blocked, kpc := K_futex\<rparr>)"
    by (rule run [where evs = "[Waiter, Waiter, Waker, Waker]"]) (simp add: eval)
  show "wait_reachable Park (wait_zero\<lparr>var := 1, spc := S_final, kpc := K_done\<rparr>)"
    by (rule run [where evs = "[Waiter, Waiter, Waker, Waker, Waker]"]) (simp add: eval)
qed

theorem wait_returns_after_wake_witness:
  "let s = wait_zero\<lparr>var := 1, spc := S_blocked, kpc := K_futex\<rparr>
   in wait_reachable Park s \<and> spc s = S_blocked \<and> var s = P_UNLOCKED \<and> kpc s = K_futex"
  using parked_run(1) wait_returns_after_wake [OF parked_run(1)]
  by (simp add: Let_def P_UNLOCKED_def)

theorem waiter_finishes_witness:
  "let s = wait_zero\<lparr>var := 1, spc := S_final, kpc := K_done\<rparr>
   in wait_reachable Park s \<and> (\<exists>k\<le>3. \<exists>s'. sleep_steps Park k s = Some s' \<and> spc s' = S_done)"
  using parked_run(2) waiter_finishes [OF parked_run(2)] by (simp add: Let_def)

end
