(* ===== verification/PthreadInterpose.thy ===== *)
theory PthreadInterpose
  imports Machine
begin

text \<open>
  The second lock of the library, \<open>src/pthreadinterpose.c\<close>: a wrapper around the mutexes and
  condition variables of the system's pthread library. Built with \<open>COND_VAR\<close> (the flag \<open>cv\<close>)
  each lock is a pair of mutexes, \<open>lock\<close> for mutual exclusion and \<open>posix_lock\<close> for the
  condition waits. The system's functions, which the code reaches through \<open>REAL\<close>, are
  a parameter; a step is one call of one of them.
\<close>

section \<open>The system's pthread functions\<close>

text \<open>The address of one of the two mutexes in the block at \<open>m\<close>.\<close>

datatype raddr = Lock_of maddr | Posix_lock maddr

text \<open>
  \<open>'w\<close> is the state of the pthread library. A call that would block now is \<open>None\<close>. A wait on a
  condition has two halves: it returns an error at once (\<open>Inl\<close>) or releases the mutex and
  blocks (\<open>Inr\<close>); it ends, with its result, when it has the mutex again. A mutex has the type
  its attributes give it, \<open>Normal\<close> without any.
\<close>

datatype mtype = Normal | Errorcheck | Recursive

record 'w posix =
  real_init :: "raddr \<Rightarrow> mtype \<Rightarrow> 'w \<Rightarrow> int \<times> 'w"
  real_destroy :: "raddr \<Rightarrow> 'w \<Rightarrow> int \<times> 'w"
  real_lock :: "tid \<Rightarrow> raddr \<Rightarrow> 'w \<Rightarrow> (int \<times> 'w) option"
  real_trylock :: "tid \<Rightarrow> raddr \<Rightarrow> 'w \<Rightarrow> int \<times> 'w"
  real_unlock :: "tid \<Rightarrow> raddr \<Rightarrow> 'w \<Rightarrow> int \<times> 'w"
  real_wait_begin :: "tid \<Rightarrow> caddr \<Rightarrow> raddr \<Rightarrow> deadline \<Rightarrow> 'w \<Rightarrow> int + 'w"
  real_wait_end :: "tid \<Rightarrow> caddr \<Rightarrow> raddr \<Rightarrow> deadline \<Rightarrow> 'w \<Rightarrow> (int \<times> 'w) option"
  real_cond_init :: "caddr \<Rightarrow> 'w \<Rightarrow> int \<times> 'w"
  real_cond_destroy :: "caddr \<Rightarrow> 'w \<Rightarrow> int \<times> 'w"
  real_cond_signal :: "caddr \<Rightarrow> 'w \<Rightarrow> int \<times> 'w"
  real_cond_broadcast :: "caddr \<Rightarrow> 'w \<Rightarrow> int \<times> 'w"

text \<open>An absolute deadline the system accepts.\<close>

fun deadline_valid :: "deadline \<Rightarrow> bool" where
  "deadline_valid None \<longleftrightarrow> True"
| "deadline_valid (Some ts) \<longleftrightarrow> 0 \<le> snd ts \<and> snd ts < 1000000000"

text \<open>
  What the program has set up: who has a mutex, and how often it has locked it again since
  (\<open>holder\<close>); the type of the two mutexes of each lock, which get the same attributes; how often
  a recursive mutex can be locked again; and the one mutex every condition is used with.
\<close>

record 'w usage =
  holder :: "'w \<Rightarrow> raddr \<Rightarrow> (tid \<times> nat) option"
  kind :: "maddr \<Rightarrow> mtype"
  rec_max :: nat
  cond_mutex :: "caddr \<Rightarrow> raddr"

fun block :: "raddr \<Rightarrow> maddr" where
  "block (Lock_of m) = m"
| "block (Posix_lock m) = m"

text \<open>
  What pthread\_mutex\_lock(3p) and pthread\_mutex\_trylock(3p) document for a mutex that is not
  robust and has no priority ceiling: the result and the new holder, \<open>None\<close> if the call blocks.
\<close>

definition lock_spec :: "'w usage \<Rightarrow> tid \<Rightarrow> raddr \<Rightarrow> (tid \<times> nat) option \<Rightarrow> (int \<times> (tid \<times> nat) option) option" where
  "lock_spec U i a h =
     (case h of
        None \<Rightarrow> Some (0, Some (i, 0))
      | Some (j, n) \<Rightarrow>
          if j \<noteq> i then None
          else (case kind U (block a) of
                  Normal \<Rightarrow> None
                | Errorcheck \<Rightarrow> Some (EDEADLK, h)
                | Recursive \<Rightarrow> Some (if n < rec_max U then (0, Some (i, n + 1)) else (EAGAIN, h))))"

definition trylock_spec :: "'w usage \<Rightarrow> tid \<Rightarrow> raddr \<Rightarrow> (tid \<times> nat) option \<Rightarrow> int \<times> (tid \<times> nat) option" where
  "trylock_spec U i a h =
     (case h of
        None \<Rightarrow> (0, Some (i, 0))
      | Some (j, n) \<Rightarrow>
          if j = i \<and> kind U (block a) = Recursive
          then if n < rec_max U then (0, Some (i, n + 1)) else (EAGAIN, h)
          else (EBUSY, h))"

definition unlock_spec :: "(tid \<times> nat) option \<Rightarrow> (tid \<times> nat) option" where
  "unlock_spec h = (case h of Some (j, Suc n) \<Rightarrow> Some (j, n) | _ \<Rightarrow> None)"

text \<open>
  The documented behaviour: locks and try-locks as above; the holder's unlock succeeds; a wait
  on a condition with its mutex, held once, releases the mutex, and ends with 0 or \<open>ETIMEDOUT\<close>
  as its holder; a deadline with bad nanoseconds is \<open>EINVAL\<close> and changes nothing; signals do not
  touch mutexes. Nothing is said of an unlock or a wait by another thread, of a wait with a
  mutex held more than once, or of a condition that is used with two mutexes.
\<close>

definition posix_ok :: "'w posix \<Rightarrow> 'w usage \<Rightarrow> bool" where
  "posix_ok R U \<longleftrightarrow>
     (\<forall>i a w. case lock_spec U i a (holder U w a) of
        None \<Rightarrow> real_lock R i a w = None
      | Some (r, h) \<Rightarrow> \<exists>w'. real_lock R i a w = Some (r, w') \<and> holder U w' = (holder U w)(a := h)) \<and>
     (\<forall>i a w. \<exists>w'. real_trylock R i a w = (fst (trylock_spec U i a (holder U w a)), w') \<and>
        holder U w' = (holder U w)(a := snd (trylock_spec U i a (holder U w a)))) \<and>
     (\<forall>i a w n. holder U w a = Some (i, n) \<longrightarrow>
        (\<exists>w'. real_unlock R i a w = (0, w') \<and> holder U w' = (holder U w)(a := unlock_spec (Some (i, n))))) \<and>
     (\<forall>i c d w. holder U w (cond_mutex U c) = Some (i, 0) \<longrightarrow> deadline_valid d \<longrightarrow>
        (\<exists>w'. real_wait_begin R i c (cond_mutex U c) d w = Inr w' \<and>
          holder U w' = (holder U w)(cond_mutex U c := None))) \<and>
     (\<forall>i c d w. holder U w (cond_mutex U c) = Some (i, 0) \<longrightarrow> \<not> deadline_valid d \<longrightarrow>
        real_wait_begin R i c (cond_mutex U c) d w = Inl EINVAL) \<and>
     (\<forall>i c d w r w'. real_wait_end R i c (cond_mutex U c) d w = Some (r, w') \<longrightarrow>
        holder U w (cond_mutex U c) = None \<and> holder U w' = (holder U w)(cond_mutex U c \<mapsto> (i, 0)) \<and>
        (r = 0 \<or> d \<noteq> None \<and> r = ETIMEDOUT)) \<and>
     (\<forall>c w. holder U (snd (real_cond_signal R c w)) = holder U w) \<and>
     (\<forall>c w. holder U (snd (real_cond_broadcast R c w)) = holder U w)"

text \<open>How often a thread has a mutex.\<close>

fun depth :: "tid \<Rightarrow> (tid \<times> nat) option \<Rightarrow> nat" where
  "depth i None = 0"
| "depth i (Some (j, n)) = (if j = i then n + 1 else 0)"

section \<open>The wrapper\<close>

text \<open>The positions of a thread: the next call of a system function it makes.\<close>

datatype ppc = P_idle
  | P_lock maddr | P_lock2 maddr
  | P_try maddr | P_try2 maddr
  | P_unlock2 maddr | P_unlock maddr
  | P_wunlock caddr maddr deadline | P_wbegin caddr maddr deadline | P_wend caddr maddr deadline
  | P_wcheck maddr int | P_wunlock2 maddr int | P_wlock maddr int | P_wlock2 maddr int
  | P_signal caddr | P_broadcast caddr

record pthr =
  ppc :: ppc
  pret :: int

text \<open>\<open>dead\<close>: an assertion failed, which ends the process.\<close>

record 'w pstate =
  world :: 'w
  pthr :: "tid \<Rightarrow> pthr"
  dead :: bool

definition at :: "tid \<Rightarrow> ppc \<Rightarrow> 'w pstate \<Rightarrow> 'w \<Rightarrow> 'w pstate" where
  "at i p s w = s\<lparr>world := w, pthr := (pthr s)(i := (pthr s i)\<lparr>ppc := p\<rparr>)\<rparr>"

definition give :: "tid \<Rightarrow> int \<Rightarrow> 'w pstate \<Rightarrow> 'w \<Rightarrow> 'w pstate" where
  "give i r s w = s\<lparr>world := w, pthr := (pthr s)(i := \<lparr>ppc = P_idle, pret = r\<rparr>)\<rparr>"

definition check :: "bool \<Rightarrow> 'w pstate \<Rightarrow> 'w pstate" where
  "check b s = (if b then s else s\<lparr>dead := True\<rparr>)"

text \<open>Creation and destruction; the results of the system calls are ignored.\<close>

definition pthread_interpose_mutex_create ::
  "'w posix \<Rightarrow> bool \<Rightarrow> maddr \<Rightarrow> mtype \<Rightarrow> 'w \<Rightarrow> maddr \<times> 'w" where
  "pthread_interpose_mutex_create R cv m attr w =
     (let w = snd (real_init R (Lock_of m) attr w)
      in (m, if cv then snd (real_init R (Posix_lock m) attr w) else w))"

definition pthread_interpose_mutex_destroy :: "'w posix \<Rightarrow> bool \<Rightarrow> maddr \<Rightarrow> 'w \<Rightarrow> int \<times> 'w" where
  "pthread_interpose_mutex_destroy R cv m w =
     (let w = (if cv then snd (real_destroy R (Posix_lock m) w) else w)
      in (0, snd (real_destroy R (Lock_of m) w)))"

fun pthread_interpose_mutex_lock ::
  "'w posix \<Rightarrow> bool \<Rightarrow> tid \<Rightarrow> ppc \<Rightarrow> 'w pstate \<Rightarrow> 'w pstate option" where
  "pthread_interpose_mutex_lock R cv i (P_lock m) s =
     (case real_lock R i (Lock_of m) (world s) of
        None \<Rightarrow> None
      | Some (r, w) \<Rightarrow> Some (if cv then at i (P_lock2 m) s w else check (r = 0) (give i 0 s w)))"
| "pthread_interpose_mutex_lock R cv i (P_lock2 m) s =
     (case real_lock R i (Posix_lock m) (world s) of
        None \<Rightarrow> None
      | Some (r, w) \<Rightarrow> Some (check (r = 0) (give i 0 s w)))"
| "pthread_interpose_mutex_lock R cv i _ s = None"

fun pthread_interpose_mutex_trylock ::
  "'w posix \<Rightarrow> bool \<Rightarrow> tid \<Rightarrow> ppc \<Rightarrow> 'w pstate \<Rightarrow> 'w pstate option" where
  "pthread_interpose_mutex_trylock R cv i (P_try m) s =
     (case real_trylock R i (Lock_of m) (world s) of
        (r, w) \<Rightarrow> Some (if r \<noteq> EBUSY then (if cv then at i (P_try2 m) s w else give i 0 s w)
                       else give i EBUSY s w))"
| "pthread_interpose_mutex_trylock R cv i (P_try2 m) s =
     (case real_trylock R i (Posix_lock m) (world s) of
        (r, w) \<Rightarrow> Some (if r = EBUSY then at i (P_try2 m) s w else check (r = 0) (give i 0 s w)))"
| "pthread_interpose_mutex_trylock R cv i _ s = None"

fun pthread_interpose_mutex_unlock ::
  "'w posix \<Rightarrow> bool \<Rightarrow> tid \<Rightarrow> ppc \<Rightarrow> 'w pstate \<Rightarrow> 'w pstate option" where
  "pthread_interpose_mutex_unlock R cv i (P_unlock2 m) s =
     (case real_unlock R i (Posix_lock m) (world s) of
        (r, w) \<Rightarrow> Some (check (r = 0) (at i (P_unlock m) s w)))"
| "pthread_interpose_mutex_unlock R cv i (P_unlock m) s =
     (case real_unlock R i (Lock_of m) (world s) of (r, w) \<Rightarrow> Some (give i 0 s w))"
| "pthread_interpose_mutex_unlock R cv i _ s = None"

text \<open>\<open>pthread_interpose_cond_wait\<close> is the call without a deadline.\<close>

fun pthread_interpose_cond_timedwait ::
  "'w posix \<Rightarrow> bool \<Rightarrow> tid \<Rightarrow> ppc \<Rightarrow> 'w pstate \<Rightarrow> 'w pstate option" where
  "pthread_interpose_cond_timedwait R cv i (P_wunlock c m d) s =
     (case real_unlock R i (Lock_of m) (world s) of (r, w) \<Rightarrow> Some (at i (P_wbegin c m d) s w))"
| "pthread_interpose_cond_timedwait R cv i (P_wbegin c m d) s =
     (case real_wait_begin R i c (if cv then Posix_lock m else Lock_of m) d (world s) of
        Inl res \<Rightarrow> Some (if cv then at i (P_wcheck m res) s (world s) else give i res s (world s))
      | Inr w \<Rightarrow> Some (at i (P_wend c m d) s w))"
| "pthread_interpose_cond_timedwait R cv i (P_wend c m d) s =
     (case real_wait_end R i c (if cv then Posix_lock m else Lock_of m) d (world s) of
        None \<Rightarrow> None
      | Some (res, w) \<Rightarrow> Some (if cv then at i (P_wcheck m res) s w else give i res s w))"
| "pthread_interpose_cond_timedwait R cv i (P_wcheck m res) s =
     Some (check (\<not> (res \<noteq> 0 \<and> res \<noteq> ETIMEDOUT)) (at i (P_wunlock2 m res) s (world s)))"
| "pthread_interpose_cond_timedwait R cv i (P_wunlock2 m res) s =
     (case real_unlock R i (Posix_lock m) (world s) of
        (r, w) \<Rightarrow> Some (check (r = 0) (at i (P_wlock m res) s w)))"
| "pthread_interpose_cond_timedwait R cv i (P_wlock m res) s =
     (case real_lock R i (Lock_of m) (world s) of
        None \<Rightarrow> None | Some (r, w) \<Rightarrow> Some (at i (P_wlock2 m res) s w))"
| "pthread_interpose_cond_timedwait R cv i (P_wlock2 m res) s =
     (case real_lock R i (Posix_lock m) (world s) of
        None \<Rightarrow> None | Some (r, w) \<Rightarrow> Some (give i res s w))"
| "pthread_interpose_cond_timedwait R cv i _ s = None"

definition pthread_interpose_cond_signal :: "'w posix \<Rightarrow> tid \<Rightarrow> caddr \<Rightarrow> 'w pstate \<Rightarrow> 'w pstate" where
  "pthread_interpose_cond_signal R i c s =
     (case real_cond_signal R c (world s) of (r, w) \<Rightarrow> give i r s w)"

definition pthread_interpose_cond_broadcast :: "'w posix \<Rightarrow> tid \<Rightarrow> caddr \<Rightarrow> 'w pstate \<Rightarrow> 'w pstate" where
  "pthread_interpose_cond_broadcast R i c s =
     (case real_cond_broadcast R c (world s) of (r, w) \<Rightarrow> give i r s w)"

definition pthread_interpose_cond_init :: "'w posix \<Rightarrow> caddr \<Rightarrow> 'w \<Rightarrow> int \<times> 'w" where
  "pthread_interpose_cond_init R c w = real_cond_init R c w"

definition pthread_interpose_cond_destroy :: "'w posix \<Rightarrow> caddr \<Rightarrow> 'w \<Rightarrow> int \<times> 'w" where
  "pthread_interpose_cond_destroy R c w = real_cond_destroy R c w"

section \<open>The machine\<close>

definition pthread_step :: "'w posix \<Rightarrow> bool \<Rightarrow> tid \<Rightarrow> 'w pstate \<Rightarrow> 'w pstate option" where
  "pthread_step R cv i s =
     (let p = ppc (pthr s i) in
      case p of
        P_idle \<Rightarrow> None
      | P_lock m \<Rightarrow> pthread_interpose_mutex_lock R cv i p s
      | P_lock2 m \<Rightarrow> pthread_interpose_mutex_lock R cv i p s
      | P_try m \<Rightarrow> pthread_interpose_mutex_trylock R cv i p s
      | P_try2 m \<Rightarrow> pthread_interpose_mutex_trylock R cv i p s
      | P_unlock2 m \<Rightarrow> pthread_interpose_mutex_unlock R cv i p s
      | P_unlock m \<Rightarrow> pthread_interpose_mutex_unlock R cv i p s
      | P_signal c \<Rightarrow> Some (pthread_interpose_cond_signal R i c s)
      | P_broadcast c \<Rightarrow> Some (pthread_interpose_cond_broadcast R i c s)
      | _ \<Rightarrow> pthread_interpose_cond_timedwait R cv i p s)"

datatype pop = Do_lock maddr | Do_trylock maddr | Do_unlock maddr | Do_wait caddr maddr deadline
  | Do_signal caddr | Do_broadcast caddr

fun entry :: "bool \<Rightarrow> pop \<Rightarrow> ppc" where
  "entry cv (Do_lock m) = P_lock m"
| "entry cv (Do_trylock m) = P_try m"
| "entry cv (Do_unlock m) = (if cv then P_unlock2 m else P_unlock m)"
| "entry cv (Do_wait c m d) = (if cv then P_wunlock c m d else P_wbegin c m d)"
| "entry cv (Do_signal c) = P_signal c"
| "entry cv (Do_broadcast c) = P_broadcast c"

text \<open>
  What the program has to keep to. Only a holder unlocks; it waits only with a lock it has
  once, on a condition that is used with no other, and with a well-formed deadline. Nobody
  locks an error-checking lock it has, and nobody locks or tries a recursive lock beyond its
  limit. The mutex of a wait is the second one of the pair if there is one.
\<close>

definition wait_mutex :: "bool \<Rightarrow> maddr \<Rightarrow> raddr" where
  "wait_mutex cv m = (if cv then Posix_lock m else Lock_of m)"

definition within_limit :: "'w usage \<Rightarrow> maddr \<Rightarrow> nat \<Rightarrow> bool" where
  "within_limit U m n \<longleftrightarrow> (kind U m = Recursive \<longrightarrow> n \<le> rec_max U)"

definition may_lock :: "'w usage \<Rightarrow> maddr \<Rightarrow> nat \<Rightarrow> bool" where
  "may_lock U m n \<longleftrightarrow> (kind U m = Errorcheck \<longrightarrow> n = 0) \<and> within_limit U m n"

fun permitted :: "bool \<Rightarrow> 'w usage \<Rightarrow> tid \<Rightarrow> pop \<Rightarrow> 'w \<Rightarrow> bool" where
  "permitted cv U i (Do_lock m) w \<longleftrightarrow> may_lock U m (depth i (holder U w (Lock_of m)))"
| "permitted cv U i (Do_trylock m) w \<longleftrightarrow> within_limit U m (depth i (holder U w (Lock_of m)))"
| "permitted cv U i (Do_unlock m) w \<longleftrightarrow> 0 < depth i (holder U w (Lock_of m))"
| "permitted cv U i (Do_wait c m d) w \<longleftrightarrow> depth i (holder U w (Lock_of m)) = 1 \<and> deadline_valid d \<and>
     cond_mutex U c = wait_mutex cv m"
| "permitted cv U i _ w \<longleftrightarrow> True"

inductive pair_step ::
  "'w posix \<Rightarrow> bool \<Rightarrow> 'w usage \<Rightarrow> 'w pstate \<Rightarrow> 'w pstate \<Rightarrow> bool"
  for R cv U where
  pair_call: "\<not> dead s \<Longrightarrow> ppc (pthr s i) = P_idle \<Longrightarrow> permitted cv U i x (world s) \<Longrightarrow>
     pair_step R cv U s (at i (entry cv x) s (world s))"
| pair_run: "\<not> dead s \<Longrightarrow> pthread_step R cv i s = Some s' \<Longrightarrow> pair_step R cv U s s'"

inductive_cases pair_stepE: "pair_step R cv U s s'"

text \<open>The same as a function of events.\<close>

datatype pair_event = PCall tid pop | PRun tid

fun pair_exec ::
  "'w posix \<Rightarrow> bool \<Rightarrow> 'w usage \<Rightarrow> pair_event \<Rightarrow> 'w pstate \<Rightarrow> 'w pstate option" where
  "pair_exec R cv U (PCall i x) s =
     (if \<not> dead s \<and> ppc (pthr s i) = P_idle \<and> permitted cv U i x (world s)
      then Some (at i (entry cv x) s (world s)) else None)"
| "pair_exec R cv U (PRun i) s = (if dead s then None else pthread_step R cv i s)"

lemma pair_exec_step: "pair_exec R cv U ev s = Some s' \<Longrightarrow> pair_step R cv U s s'"
  by (cases ev) (auto intro: pair_step.intros split: if_splits)

lemma pair_step_exec: "pair_step R cv U s s' \<Longrightarrow> \<exists>ev. pair_exec R cv U ev s = Some s'"
proof (erule pair_stepE)
  fix i x assume "s' = at i (entry cv x) s (world s)" "\<not> dead s" "ppc (pthr s i) = P_idle"
    "permitted cv U i x (world s)"
  then show ?thesis by (intro exI [of _ "PCall i x"]) simp
next
  fix i assume "\<not> dead s" "pthread_step R cv i s = Some s'"
  then show ?thesis by (intro exI [of _ "PRun i"]) simp
qed

interpretation pair: event_system "pair_exec R cv U" "pair_step R cv U" for R cv U
  by unfold_locales (blast intro: pair_exec_step pair_step_exec)

definition pair_init :: "'w usage \<Rightarrow> 'w pstate \<Rightarrow> bool" where
  "pair_init U s \<longleftrightarrow> \<not> dead s \<and> (\<forall>i. ppc (pthr s i) = P_idle) \<and> (\<forall>a. holder U (world s) a = None)"

definition pair_reachable ::
  "'w posix \<Rightarrow> bool \<Rightarrow> 'w usage \<Rightarrow> 'w pstate \<Rightarrow> bool" where
  "pair_reachable R cv U = reach (pair_init U) (pair_step R cv U)"

section \<open>The laws as rules\<close>

definition takable :: "'w usage \<Rightarrow> maddr \<Rightarrow> nat \<Rightarrow> bool" where
  "takable U m n \<longleftrightarrow> may_lock U m n \<and> (kind U m = Normal \<longrightarrow> n = 0)"

lemmas usage_defs = takable_def may_lock_def within_limit_def

lemma zero_allowed [simp]: "may_lock U m 0" "within_limit U m 0" "takable U m 0"
  by (simp_all add: usage_defs)

text \<open>Thread \<open>i\<close> has the mutex once more, and nobody else is affected.\<close>

definition once_more :: "tid \<Rightarrow> (tid \<times> nat) option \<Rightarrow> (tid \<times> nat) option \<Rightarrow> bool" where
  "once_more i h h' \<longleftrightarrow> depth i h' = Suc (depth i h) \<and> (\<forall>j. j \<noteq> i \<longrightarrow> depth j h' = depth j h)"

lemma once_more_take: "once_more i None (Some (i, 0))" "once_more i (Some (i, n)) (Some (i, Suc n))"
  by (simp_all add: once_more_def)

lemma once_more_give: "once_more i (unlock_spec (Some (i, n))) (Some (i, n))"
  by (cases n) (simp_all add: once_more_def unlock_spec_def)

lemma depth_pos: "0 < depth i h \<longleftrightarrow> (\<exists>n. h = Some (i, n))" "depth i h = 1 \<longleftrightarrow> h = Some (i, 0)"
  by (cases "(i, h)" rule: depth.cases; auto)+

lemma posix_okD:
  assumes "posix_ok R U"
  shows "case lock_spec U i a (holder U w a) of
      None \<Rightarrow> real_lock R i a w = None
    | Some (r, h) \<Rightarrow> \<exists>w'. real_lock R i a w = Some (r, w') \<and> holder U w' = (holder U w)(a := h)"
    and "\<exists>w'. real_trylock R i a w = (fst (trylock_spec U i a (holder U w a)), w') \<and>
      holder U w' = (holder U w)(a := snd (trylock_spec U i a (holder U w a)))"
    and "holder U w a = Some (i, n) \<Longrightarrow>
      \<exists>w'. real_unlock R i a w = (0, w') \<and> holder U w' = (holder U w)(a := unlock_spec (Some (i, n)))"
    and "holder U w (cond_mutex U c) = Some (i, 0) \<Longrightarrow> deadline_valid d \<Longrightarrow>
      \<exists>w'. real_wait_begin R i c (cond_mutex U c) d w = Inr w' \<and>
        holder U w' = (holder U w)(cond_mutex U c := None)"
    and "holder U w (cond_mutex U c) = Some (i, 0) \<Longrightarrow> \<not> deadline_valid d \<Longrightarrow>
      real_wait_begin R i c (cond_mutex U c) d w = Inl EINVAL"
    and "real_wait_end R i c (cond_mutex U c) d w = Some (r, w') \<Longrightarrow>
      holder U w (cond_mutex U c) = None \<and> holder U w' = (holder U w)(cond_mutex U c \<mapsto> (i, 0)) \<and>
      (r = 0 \<or> d \<noteq> None \<and> r = ETIMEDOUT)"
    and "holder U (snd (real_cond_signal R c w)) = holder U w"
    and "holder U (snd (real_cond_broadcast R c w)) = holder U w"
proof -
  note laws = assms [unfolded posix_ok_def]
  note rest = laws [THEN conjunct2, THEN conjunct2]
  show "case lock_spec U i a (holder U w a) of
      None \<Rightarrow> real_lock R i a w = None
    | Some (r, h) \<Rightarrow> \<exists>w'. real_lock R i a w = Some (r, w') \<and> holder U w' = (holder U w)(a := h)"
    by (rule laws [THEN conjunct1, THEN spec, THEN spec, THEN spec])
  show "\<exists>w'. real_trylock R i a w = (fst (trylock_spec U i a (holder U w a)), w') \<and>
      holder U w' = (holder U w)(a := snd (trylock_spec U i a (holder U w a)))"
    by (rule laws [THEN conjunct2, THEN conjunct1, THEN spec, THEN spec, THEN spec])
  show "holder U w a = Some (i, n) \<Longrightarrow>
      \<exists>w'. real_unlock R i a w = (0, w') \<and> holder U w' = (holder U w)(a := unlock_spec (Some (i, n)))"
    by (rule rest [THEN conjunct1, rule_format])
  show "holder U w (cond_mutex U c) = Some (i, 0) \<Longrightarrow> deadline_valid d \<Longrightarrow>
      \<exists>w'. real_wait_begin R i c (cond_mutex U c) d w = Inr w' \<and>
        holder U w' = (holder U w)(cond_mutex U c := None)"
    by (rule rest [THEN conjunct2, THEN conjunct1, rule_format])
  show "holder U w (cond_mutex U c) = Some (i, 0) \<Longrightarrow> \<not> deadline_valid d \<Longrightarrow>
      real_wait_begin R i c (cond_mutex U c) d w = Inl EINVAL"
    by (rule rest [THEN conjunct2, THEN conjunct2, THEN conjunct1, rule_format])
qed (use assms [unfolded posix_ok_def, THEN conjunct2, THEN conjunct2, THEN conjunct2, THEN conjunct2,
    THEN conjunct2] in blast)+

lemma real_lock_SomeD:
  assumes "posix_ok R U" and "real_lock R i a w = Some (r, w')"
    and "may_lock U (block a) (depth i (holder U w a))"
  obtains h where "r = 0" "holder U w' = (holder U w)(a := h)" "once_more i (holder U w a) h"
    "takable U (block a) (depth i (holder U w a))"
proof -
  from assms(1) have law: "case lock_spec U i a (holder U w a) of
      None \<Rightarrow> real_lock R i a w = None
    | Some (r, h) \<Rightarrow> \<exists>w'. real_lock R i a w = Some (r, w') \<and> holder U w' = (holder U w)(a := h)"
    by (rule posix_okD(1))
  show ?thesis
  proof (cases "holder U w a")
    case None
    with law assms(2) that [of "Some (i, 0)"] show ?thesis by (auto simp: lock_spec_def once_more_take)
  next
    case (Some x)
    then obtain j n where x: "holder U w a = Some (j, n)" by (cases x) simp
    with law assms(2,3) that [of "Some (i, Suc n)"] show ?thesis
      by (cases "kind U (block a)") (auto simp: lock_spec_def once_more_take usage_defs split: if_splits)
  qed
qed

lemma real_lock_free:
  "posix_ok R U \<Longrightarrow> holder U w a = None \<Longrightarrow> \<exists>w'. real_lock R i a w = Some (0, w')"
  by (drule posix_okD(1) [of R U i a w]) (auto simp: lock_spec_def)

lemma real_trylock_cases [consumes 3, case_names busy taken]:
  assumes "posix_ok R U" and "real_trylock R i a w = (r, w')"
    and "within_limit U (block a) (depth i (holder U w a))"
  obtains (busy) "r = EBUSY" "holder U w' = holder U w"
  | (taken) h where "r = 0" "holder U w' = (holder U w)(a := h)" "once_more i (holder U w a) h"
      "takable U (block a) (depth i (holder U w a))"
proof -
  from assms(1) have law: "\<exists>w'. real_trylock R i a w = (fst (trylock_spec U i a (holder U w a)), w') \<and>
      holder U w' = (holder U w)(a := snd (trylock_spec U i a (holder U w a)))"
    by (rule posix_okD(2))
  show ?thesis
  proof (cases "holder U w a")
    case None
    with law assms(2) taken [of "Some (i, 0)"] show ?thesis by (auto simp: trylock_spec_def once_more_take)
  next
    case (Some x)
    then obtain j n where x: "holder U w a = Some (j, n)" by (cases x) simp
    show ?thesis
    proof (cases "j = i \<and> kind U (block a) = Recursive")
      case True
      with x law assms(2,3) taken [of "Some (i, Suc n)"] show ?thesis
        by (auto simp: trylock_spec_def once_more_take usage_defs split: if_splits)
    next
      case False
      with x law assms(2) busy show ?thesis by (auto simp: trylock_spec_def fun_upd_idem_iff)
    qed
  qed
qed

lemma real_unlock_own:
  assumes "posix_ok R U" and "0 < depth i (holder U w a)" and "real_unlock R i a w = (r, w')"
  obtains h where "r = 0" "holder U w' = (holder U w)(a := h)" "once_more i h (holder U w a)"
proof -
  obtain n where n: "holder U w a = Some (i, n)" using assms(2) by (auto simp: depth_pos)
  moreover obtain w'' where "real_unlock R i a w = (0, w'')"
    "holder U w'' = (holder U w)(a := unlock_spec (Some (i, n)))"
    using posix_okD(3) [OF assms(1) n] by blast
  ultimately show ?thesis using assms(3) that once_more_give [of i n] by simp
qed

lemma real_wait_begin_own:
  assumes "posix_ok R U" and "depth i (holder U w a) = 1" and "deadline_valid d" and "cond_mutex U c = a"
  obtains w' where "real_wait_begin R i c a d w = Inr w'" "holder U w' = (holder U w)(a := None)"
    "once_more i None (holder U w a)"
proof -
  have h: "holder U w (cond_mutex U c) = Some (i, 0)" using assms(2,4) by (simp only: depth_pos(2))
  from posix_okD(4) [OF assms(1) this assms(3)]
  obtain w' where "real_wait_begin R i c (cond_mutex U c) d w = Inr w'"
    "holder U w' = (holder U w)(cond_mutex U c := None)" by blast
  with h that assms(4) show ?thesis by (simp add: once_more_take)
qed

lemma real_wait_begin_invalid:
  "posix_ok R U \<Longrightarrow> holder U w a = Some (i, 0) \<Longrightarrow> \<not> deadline_valid d \<Longrightarrow> cond_mutex U c = a \<Longrightarrow>
   real_wait_begin R i c a d w = Inl EINVAL"
  using posix_okD(5) [of R U w c i d] by simp

lemma real_wait_end_SomeD:
  assumes "posix_ok R U" and "real_wait_end R i c a d w = Some (r, w')" and "cond_mutex U c = a"
  shows "holder U w' = (holder U w)(a := Some (i, 0))" "once_more i (holder U w a) (Some (i, 0))"
    "r = 0 \<or> r = ETIMEDOUT"
proof -
  from assms have "holder U w a = None \<and> holder U w' = (holder U w)(a \<mapsto> (i, 0)) \<and> (r = 0 \<or> r = ETIMEDOUT)"
    using posix_okD(6) [of R U i c d w r w'] by auto
  then show "holder U w' = (holder U w)(a := Some (i, 0))" "once_more i (holder U w a) (Some (i, 0))"
    "r = 0 \<or> r = ETIMEDOUT"
    by (simp_all add: once_more_take)
qed

lemma real_signal_holder:
  assumes "posix_ok R U"
  shows "real_cond_signal R c w = (r, w') \<Longrightarrow> holder U w' = holder U w"
    "real_cond_broadcast R c w = (r, w') \<Longrightarrow> holder U w' = holder U w"
  using posix_okD(7,8) [OF assms] by (metis snd_conv)+

section \<open>The invariant of the pair\<close>

text \<open>
  How often, at each position, a thread has the two mutexes of the lock \<open>k\<close>: \<open>l\<close> times the first
  and \<open>q\<close> times the second, equally often unless the position says otherwise; and the values
  kept in a position.
\<close>

fun place :: "bool \<Rightarrow> 'w usage \<Rightarrow> ppc \<Rightarrow> maddr \<Rightarrow> nat \<Rightarrow> nat \<Rightarrow> bool" where
  "place cv U (P_lock m) k l q \<longleftrightarrow> (cv \<longrightarrow> l = q) \<and> (k = m \<longrightarrow> may_lock U m l)"
| "place cv U (P_lock2 m) k l q \<longleftrightarrow> cv \<and> (if k = m then l = Suc q \<and> takable U m q else l = q)"
| "place cv U (P_try m) k l q \<longleftrightarrow> (cv \<longrightarrow> l = q) \<and> (k = m \<longrightarrow> within_limit U m l)"
| "place cv U (P_try2 m) k l q \<longleftrightarrow> cv \<and> (if k = m then l = Suc q \<and> takable U m q else l = q)"
| "place cv U (P_unlock2 m) k l q \<longleftrightarrow> cv \<and> l = q \<and> (k = m \<longrightarrow> 0 < q)"
| "place cv U (P_unlock m) k l q \<longleftrightarrow> (k = m \<longrightarrow> 0 < l) \<and> (cv \<longrightarrow> l = (if k = m then Suc q else q))"
| "place cv U (P_wunlock c m d) k l q \<longleftrightarrow> cv \<and> l = q \<and> (k = m \<longrightarrow> q = 1) \<and>
     deadline_valid d \<and> cond_mutex U c = wait_mutex cv m"
| "place cv U (P_wbegin c m d) k l q \<longleftrightarrow> (if k = m then (if cv then l = 0 \<and> q = 1 else l = 1) else cv \<longrightarrow> l = q) \<and>
     deadline_valid d \<and> cond_mutex U c = wait_mutex cv m"
| "place cv U (P_wend c m d) k l q \<longleftrightarrow> (cv \<longrightarrow> l = q \<and> (k = m \<longrightarrow> q = 0)) \<and> cond_mutex U c = wait_mutex cv m"
| "place cv U (P_wcheck m r) k l q \<longleftrightarrow> cv \<and> (if k = m then l = 0 \<and> q = 1 else l = q) \<and> (r = 0 \<or> r = ETIMEDOUT)"
| "place cv U (P_wunlock2 m r) k l q \<longleftrightarrow> cv \<and> (if k = m then l = 0 \<and> q = 1 else l = q)"
| "place cv U (P_wlock m r) k l q \<longleftrightarrow> cv \<and> l = q \<and> (k = m \<longrightarrow> q = 0)"
| "place cv U (P_wlock2 m r) k l q \<longleftrightarrow> cv \<and> (if k = m then l = 1 \<and> q = 0 else l = q)"
| "place cv U _ k l q \<longleftrightarrow> (cv \<longrightarrow> l = q)"

definition stands :: "bool \<Rightarrow> 'w usage \<Rightarrow> tid \<Rightarrow> ppc \<Rightarrow> (raddr \<Rightarrow> (tid \<times> nat) option) \<Rightarrow> bool" where
  "stands cv U i p own \<longleftrightarrow> (\<forall>k. place cv U p k (depth i (own (Lock_of k))) (depth i (own (Posix_lock k))))"

definition pair_inv :: "bool \<Rightarrow> 'w usage \<Rightarrow> 'w pstate \<Rightarrow> bool" where
  "pair_inv cv U s \<longleftrightarrow> \<not> dead s \<and> (\<forall>i. stands cv U i (ppc (pthr s i)) (holder U (world s)))"

lemma pair_invD:
  assumes "pair_inv cv U s"
  shows "\<not> dead s" "stands cv U i (ppc (pthr s i)) (holder U (world s))"
    "place cv U (ppc (pthr s i)) k (depth i (holder U (world s) (Lock_of k))) (depth i (holder U (world s) (Posix_lock k)))"
  using assms by (auto simp: pair_inv_def stands_def)

lemma depth_upd: "depth i ((own(a := h)) b) = (if b = a then depth i h else depth i (own b))"
  by simp

text \<open>A thread that takes or gives back a mutex does not move the others.\<close>

lemma stands_other:
  assumes "stands cv U j p own" and "depth j h = depth j (own a)"
  shows "stands cv U j p (own(a := h))"
proof -
  have eq: "depth j ((own(a := h)) b) = depth j (own b)" for b using assms(2) by simp
  show ?thesis unfolding stands_def eq by (rule assms(1) [unfolded stands_def])
qed

lemma pair_inv_moved:
  assumes "pair_inv cv U s" and "pthr s' = (pthr s)(i := t)" and "\<not> dead s'"
    and "holder U (world s') = (holder U (world s))(a := h)"
    and "once_more i (holder U (world s) a) h \<or> once_more i h (holder U (world s) a)"
    and "stands cv U i (ppc t) (holder U (world s'))"
  shows "pair_inv cv U s'"
proof -
  have "stands cv U j (ppc (pthr s j)) (holder U (world s'))" if "j \<noteq> i" for j
    unfolding assms(4) using that assms(5)
    by (intro stands_other pair_invD(2) [OF assms(1)]) (auto simp: once_more_def)
  then show ?thesis using assms(2,3,6) by (auto simp: pair_inv_def)
qed

lemma pair_inv_stayed:
  assumes "pair_inv cv U s" and "pthr s' = (pthr s)(i := t)" and "\<not> dead s'"
    and "holder U (world s') = holder U (world s)" and "stands cv U i (ppc t) (holder U (world s))"
  shows "pair_inv cv U s'"
  using assms(2,3,5) pair_invD [OF assms(1)] by (auto simp: pair_inv_def assms(4))

lemma at_simps [simp]:
  "world (at i p s w) = w" "dead (at i p s w) = dead s"
  "pthr (at i p s w) = (pthr s)(i := (pthr s i)\<lparr>ppc := p\<rparr>)"
  by (simp_all add: at_def)

lemma give_simps [simp]:
  "world (give i r s w) = w" "dead (give i r s w) = dead s"
  "pthr (give i r s w) = (pthr s)(i := \<lparr>ppc = P_idle, pret = r\<rparr>)"
  by (simp_all add: give_def)

lemma check_simps [simp]: "check True s = s" "dead (check False s)"
  by (simp_all add: check_def)

lemmas stance = stands_def depth_upd once_more_def wait_mutex_def

lemma lock_keeps:
  assumes ok: "posix_ok R U" and inv: "pair_inv cv U s"
    and step: "pthread_interpose_mutex_lock R cv i (ppc (pthr s i)) s = Some s'"
  shows "pair_inv cv U s'"
proof -
  note D = pair_invD [OF inv]
  show ?thesis
  proof (cases "ppc (pthr s i)")
    case (P_lock m)
    have p: "place cv U (P_lock m) k (depth i (holder U (world s) (Lock_of k)))
        (depth i (holder U (world s) (Posix_lock k)))" for k
      using D(3) [of i k] unfolding P_lock .
    obtain r w where l: "real_lock R i (Lock_of m) (world s) = Some (r, w)"
      and s': "s' = (if cv then at i (P_lock2 m) s w else check (r = 0) (give i 0 s w))"
      using step P_lock by (auto split: option.splits)
    have "may_lock U (block (Lock_of m)) (depth i (holder U (world s) (Lock_of m)))" using p [of m] by simp
    from real_lock_SomeD [OF ok l this] obtain h where L: "r = 0" "holder U w = (holder U (world s))(Lock_of m := h)"
      "once_more i (holder U (world s) (Lock_of m)) h" "takable U m (depth i (holder U (world s) (Lock_of m)))"
      by auto
    show ?thesis
      by (rule pair_inv_moved [OF inv, where a = "Lock_of m" and h = h
            and t = "if cv then (pthr s i)\<lparr>ppc := P_lock2 m\<rparr> else \<lparr>ppc = P_idle, pret = 0\<rparr>"])
        (use s' L D(1) p in \<open>auto simp: stance\<close>)
  next
    case (P_lock2 m)
    have p: "place cv U (P_lock2 m) k (depth i (holder U (world s) (Lock_of k)))
        (depth i (holder U (world s) (Posix_lock k)))" for k
      using D(3) [of i k] unfolding P_lock2 .
    obtain r w where l: "real_lock R i (Posix_lock m) (world s) = Some (r, w)"
      and s': "s' = check (r = 0) (give i 0 s w)"
      using step P_lock2 by (auto split: option.splits)
    have "may_lock U (block (Posix_lock m)) (depth i (holder U (world s) (Posix_lock m)))"
      using p [of m] by (simp add: takable_def)
    from real_lock_SomeD [OF ok l this] obtain h where L: "r = 0" "holder U w = (holder U (world s))(Posix_lock m := h)"
      "once_more i (holder U (world s) (Posix_lock m)) h"
      by auto
    show ?thesis
      by (rule pair_inv_moved [OF inv, where a = "Posix_lock m" and h = h])
        (use s' L D(1) p in \<open>auto simp: stance split: if_splits\<close>)
  qed (use step in simp_all)
qed

lemma trylock_keeps:
  assumes ok: "posix_ok R U" and inv: "pair_inv cv U s"
    and step: "pthread_interpose_mutex_trylock R cv i (ppc (pthr s i)) s = Some s'"
  shows "pair_inv cv U s'"
proof -
  note D = pair_invD [OF inv]
  show ?thesis
  proof (cases "ppc (pthr s i)")
    case (P_try m)
    have p: "place cv U (P_try m) k (depth i (holder U (world s) (Lock_of k)))
        (depth i (holder U (world s) (Posix_lock k)))" for k
      using D(3) [of i k] unfolding P_try .
    obtain r w where l: "real_trylock R i (Lock_of m) (world s) = (r, w)" by fastforce
    with P_try step have s': "s' = (if r \<noteq> EBUSY then (if cv then at i (P_try2 m) s w else give i 0 s w)
        else give i EBUSY s w)"
      by simp
    have "within_limit U (block (Lock_of m)) (depth i (holder U (world s) (Lock_of m)))" using p [of m] by simp
    from ok l this show ?thesis
    proof (cases rule: real_trylock_cases)
      case busy
      show ?thesis
        by (rule pair_inv_stayed [OF inv, where i = i and t = "\<lparr>ppc = P_idle, pret = EBUSY\<rparr>"])
          (use s' busy D(1) p in \<open>auto simp: stance\<close>)
    next
      case (taken h)
      show ?thesis
        by (rule pair_inv_moved [OF inv, where a = "Lock_of m" and h = h
              and t = "if cv then (pthr s i)\<lparr>ppc := P_try2 m\<rparr> else \<lparr>ppc = P_idle, pret = 0\<rparr>"])
          (use s' taken D(1) p in \<open>auto simp: stance\<close>)
    qed
  next
    case (P_try2 m)
    have p: "place cv U (P_try2 m) k (depth i (holder U (world s) (Lock_of k)))
        (depth i (holder U (world s) (Posix_lock k)))" for k
      using D(3) [of i k] unfolding P_try2 .
    obtain r w where l: "real_trylock R i (Posix_lock m) (world s) = (r, w)" by fastforce
    with P_try2 step
    have s': "s' = (if r = EBUSY then at i (P_try2 m) s w else check (r = 0) (give i 0 s w))" by simp
    have "within_limit U (block (Posix_lock m)) (depth i (holder U (world s) (Posix_lock m)))"
      using p [of m] by (simp add: usage_defs)
    from ok l this show ?thesis
    proof (cases rule: real_trylock_cases)
      case busy
      show ?thesis
        by (rule pair_inv_stayed [OF inv, where i = i and t = "(pthr s i)\<lparr>ppc := P_try2 m\<rparr>"])
          (use s' busy D(1) p in \<open>auto simp: stance\<close>)
    next
      case (taken h)
      show ?thesis
        by (rule pair_inv_moved [OF inv, where a = "Posix_lock m" and h = h
              and t = "\<lparr>ppc = P_idle, pret = 0\<rparr>"])
          (use s' taken D(1) p in \<open>auto simp: stance split: if_splits\<close>)
    qed
  qed (use step in simp_all)
qed

lemma unlock_keeps:
  assumes ok: "posix_ok R U" and inv: "pair_inv cv U s"
    and step: "pthread_interpose_mutex_unlock R cv i (ppc (pthr s i)) s = Some s'"
  shows "pair_inv cv U s'"
proof -
  note D = pair_invD [OF inv]
  show ?thesis
  proof (cases "ppc (pthr s i)")
    case (P_unlock2 m)
    have p: "place cv U (P_unlock2 m) k (depth i (holder U (world s) (Lock_of k)))
        (depth i (holder U (world s) (Posix_lock k)))" for k
      using D(3) [of i k] unfolding P_unlock2 .
    obtain r w where l: "real_unlock R i (Posix_lock m) (world s) = (r, w)" by fastforce
    have "0 < depth i (holder U (world s) (Posix_lock m))" using p [of m] by simp
    from real_unlock_own [OF ok this l] obtain h where L: "r = 0"
      "holder U w = (holder U (world s))(Posix_lock m := h)" "once_more i h (holder U (world s) (Posix_lock m))" .
    show ?thesis
      by (rule pair_inv_moved [OF inv, where a = "Posix_lock m" and h = h and i = i
            and t = "(pthr s i)\<lparr>ppc := P_unlock m\<rparr>"])
        (use step L l D(1) p P_unlock2 in \<open>auto simp: stance\<close>)
  next
    case (P_unlock m)
    have p: "place cv U (P_unlock m) k (depth i (holder U (world s) (Lock_of k)))
        (depth i (holder U (world s) (Posix_lock k)))" for k
      using D(3) [of i k] unfolding P_unlock .
    obtain r w where l: "real_unlock R i (Lock_of m) (world s) = (r, w)" by fastforce
    have "0 < depth i (holder U (world s) (Lock_of m))" using p [of m] by simp
    from real_unlock_own [OF ok this l] obtain h where L: "r = 0"
      "holder U w = (holder U (world s))(Lock_of m := h)" "once_more i h (holder U (world s) (Lock_of m))" .
    show ?thesis
      by (rule pair_inv_moved [OF inv, where a = "Lock_of m" and h = h and i = i
            and t = "\<lparr>ppc = P_idle, pret = 0\<rparr>"])
        (use step L l D(1) p P_unlock in \<open>auto simp: stance split: if_splits\<close>)
  qed (use step in simp_all)
qed

lemma wait_keeps_first:
  assumes ok: "posix_ok R U" and inv: "pair_inv cv U s"
    and step: "pthread_interpose_cond_timedwait R cv i (ppc (pthr s i)) s = Some s'"
    and P: "ppc (pthr s i) = P_wunlock c m d \<or> ppc (pthr s i) = P_wbegin c m d \<or>
      ppc (pthr s i) = P_wend c m d"
  shows "pair_inv cv U s'"
  using P
proof (elim disjE)
  note D = pair_invD [OF inv]
  let ?l = "\<lambda>k. depth i (holder U (world s) (Lock_of k))"
  let ?q = "\<lambda>k. depth i (holder U (world s) (Posix_lock k))"
  { assume P: "ppc (pthr s i) = P_wunlock c m d"
    have p: "place cv U (P_wunlock c m d) k (?l k) (?q k)" for k
      using D(3) [of i k] unfolding P .
    obtain r w where l: "real_unlock R i (Lock_of m) (world s) = (r, w)" by fastforce
    have "0 < ?l m" using p [of m] by simp
    from real_unlock_own [OF ok this l] obtain h where L: "holder U w = (holder U (world s))(Lock_of m := h)"
      "once_more i h (holder U (world s) (Lock_of m))" .
    show ?thesis
      by (rule pair_inv_moved [OF inv, where a = "Lock_of m" and h = h and i = i
            and t = "(pthr s i)\<lparr>ppc := P_wbegin c m d\<rparr>"])
        (use step L l D(1) p P in \<open>auto simp: stance\<close>) }
  { assume P: "ppc (pthr s i) = P_wbegin c m d"
    have p: "place cv U (P_wbegin c m d) k (?l k) (?q k)" for k
      using D(3) [of i k] unfolding P .
    let ?a = "wait_mutex cv m"
    have o: "depth i (holder U (world s) ?a) = 1" "deadline_valid d" "cond_mutex U c = ?a"
      using p [of m] by (simp_all add: wait_mutex_def split: if_splits)
    obtain w where L: "real_wait_begin R i c ?a d (world s) = Inr w"
      "holder U w = (holder U (world s))(?a := None)" "once_more i None (holder U (world s) ?a)"
      by (rule real_wait_begin_own [OF ok o])
    show ?thesis
      by (rule pair_inv_moved [OF inv, where a = ?a and h = None and i = i
            and t = "(pthr s i)\<lparr>ppc := P_wend c m d\<rparr>"])
        (use step L o D(1) p P in \<open>auto simp: stance split: if_splits\<close>) }
  { assume P: "ppc (pthr s i) = P_wend c m d"
    have p: "place cv U (P_wend c m d) k (?l k) (?q k)" for k
      using D(3) [of i k] unfolding P .
    let ?a = "wait_mutex cv m"
    obtain r w where l: "real_wait_end R i c ?a d (world s) = Some (r, w)"
      and s': "s' = (if cv then at i (P_wcheck m r) s w else give i r s w)"
      using step P by (auto simp: wait_mutex_def split: option.splits)
    have c: "cond_mutex U c = ?a" using p [of m] by simp
    note L = real_wait_end_SomeD [OF ok l c]
    show ?thesis
      by (rule pair_inv_moved [OF inv, where a = ?a and h = "Some (i, 0)" and i = i
            and t = "if cv then (pthr s i)\<lparr>ppc := P_wcheck m r\<rparr> else \<lparr>ppc = P_idle, pret = r\<rparr>"])
        (use s' L D(1) p in \<open>auto simp: stance split: if_splits\<close>) }
qed

lemma wait_keeps_second:
  assumes ok: "posix_ok R U" and inv: "pair_inv cv U s"
    and step: "pthread_interpose_cond_timedwait R cv i (ppc (pthr s i)) s = Some s'"
    and P: "ppc (pthr s i) = P_wcheck m q \<or> ppc (pthr s i) = P_wunlock2 m q \<or>
      ppc (pthr s i) = P_wlock m q \<or> ppc (pthr s i) = P_wlock2 m q"
  shows "pair_inv cv U s'"
  using P
proof (elim disjE)
  note D = pair_invD [OF inv]
  let ?l = "\<lambda>k. depth i (holder U (world s) (Lock_of k))"
  let ?q = "\<lambda>k. depth i (holder U (world s) (Posix_lock k))"
  { assume P: "ppc (pthr s i) = P_wcheck m q"
    have p: "place cv U (P_wcheck m q) k (?l k) (?q k)" for k
      using D(3) [of i k] unfolding P .
    from p [of m] have "q = 0 \<or> q = ETIMEDOUT" by simp
    then have s': "s' = at i (P_wunlock2 m q) s (world s)" using step P by auto
    show ?thesis
      by (rule pair_inv_stayed [OF inv, where i = i and t = "(pthr s i)\<lparr>ppc := P_wunlock2 m q\<rparr>"])
        (use s' D(1) p in \<open>auto simp: stance\<close>) }
  { assume P: "ppc (pthr s i) = P_wunlock2 m q"
    have p: "place cv U (P_wunlock2 m q) k (?l k) (?q k)" for k
      using D(3) [of i k] unfolding P .
    obtain r w where l: "real_unlock R i (Posix_lock m) (world s) = (r, w)" by fastforce
    have "0 < ?q m" using p [of m] by simp
    from real_unlock_own [OF ok this l] obtain h where L: "r = 0"
      "holder U w = (holder U (world s))(Posix_lock m := h)" "once_more i h (holder U (world s) (Posix_lock m))" .
    show ?thesis
      by (rule pair_inv_moved [OF inv, where a = "Posix_lock m" and h = h and i = i
            and t = "(pthr s i)\<lparr>ppc := P_wlock m q\<rparr>"])
        (use step L l D(1) p P in \<open>auto simp: stance split: if_splits\<close>) }
  { assume P: "ppc (pthr s i) = P_wlock m q"
    have p: "place cv U (P_wlock m q) k (?l k) (?q k)" for k
      using D(3) [of i k] unfolding P .
    obtain r w where l: "real_lock R i (Lock_of m) (world s) = Some (r, w)"
      and s': "s' = at i (P_wlock2 m q) s w"
      using step P by (auto split: option.splits)
    have "may_lock U (block (Lock_of m)) (?l m)" using p [of m] by simp
    from real_lock_SomeD [OF ok l this] obtain h where L: "holder U w = (holder U (world s))(Lock_of m := h)"
      "once_more i (holder U (world s) (Lock_of m)) h" by auto
    show ?thesis
      by (rule pair_inv_moved [OF inv, where a = "Lock_of m" and h = h and i = i
            and t = "(pthr s i)\<lparr>ppc := P_wlock2 m q\<rparr>"])
        (use s' L D(1) p in \<open>auto simp: stance\<close>) }
  { assume P: "ppc (pthr s i) = P_wlock2 m q"
    have p: "place cv U (P_wlock2 m q) k (?l k) (?q k)" for k
      using D(3) [of i k] unfolding P .
    obtain r w where l: "real_lock R i (Posix_lock m) (world s) = Some (r, w)"
      and s': "s' = give i q s w"
      using step P by (auto split: option.splits)
    have "may_lock U (block (Posix_lock m)) (?q m)" using p [of m] by simp
    from real_lock_SomeD [OF ok l this] obtain h where L: "holder U w = (holder U (world s))(Posix_lock m := h)"
      "once_more i (holder U (world s) (Posix_lock m)) h" by auto
    show ?thesis
      by (rule pair_inv_moved [OF inv, where a = "Posix_lock m" and h = h and i = i
            and t = "\<lparr>ppc = P_idle, pret = q\<rparr>"])
        (use s' L D(1) p in \<open>auto simp: stance split: if_splits\<close>) }
qed

lemma pair_keeps:
  assumes ok: "posix_ok R U" and inv: "pair_inv cv U s"
    and step: "pthread_step R cv i s = Some s'"
  shows "pair_inv cv U s'"
proof (cases "ppc (pthr s i)")
  note D = pair_invD [OF inv]
  case (P_signal c)
  obtain r w where l: "real_cond_signal R c (world s) = (r, w)" by fastforce
  show ?thesis
    by (rule pair_inv_stayed [OF inv, where i = i and t = "\<lparr>ppc = P_idle, pret = r\<rparr>"])
      (use step l real_signal_holder(1) [OF ok l] D(1) D(3) [of i] P_signal in
        \<open>auto simp: stands_def pthread_step_def pthread_interpose_cond_signal_def\<close>)
next
  note D = pair_invD [OF inv]
  case (P_broadcast c)
  obtain r w where l: "real_cond_broadcast R c (world s) = (r, w)" by fastforce
  show ?thesis
    by (rule pair_inv_stayed [OF inv, where i = i and t = "\<lparr>ppc = P_idle, pret = r\<rparr>"])
      (use step l real_signal_holder(2) [OF ok l] D(1) D(3) [of i] P_broadcast in
        \<open>auto simp: stands_def pthread_step_def pthread_interpose_cond_broadcast_def\<close>)
qed (use step lock_keeps [OF ok inv, of i s'] trylock_keeps [OF ok inv, of i s']
    unlock_keeps [OF ok inv, of i s'] wait_keeps_first [OF ok inv, of i s']
    wait_keeps_second [OF ok inv, of i s'] in \<open>simp_all add: pthread_step_def\<close>)

lemma call_keeps:
  assumes "pair_inv cv U s" and idle: "ppc (pthr s i) = P_idle"
    and "permitted cv U i x (world s)"
  shows "pair_inv cv U (at i (entry cv x) s (world s))"
proof -
  note D = pair_invD [OF assms(1)]
  have p: "cv \<longrightarrow> depth i (holder U (world s) (Lock_of k)) = depth i (holder U (world s) (Posix_lock k))" for k
    using D(3) [of i k] idle by simp
  have "stands cv U i (entry cv x) (holder U (world s))"
    using assms(3) p by (cases x) (auto simp: stands_def)
  then show ?thesis
    by (intro pair_inv_stayed [OF assms(1), where i = i and t = "(pthr s i)\<lparr>ppc := entry cv x\<rparr>"])
      (use D(1) in auto)
qed

lemma pair_step_keeps:
  assumes "posix_ok R U" and "pair_inv cv U s" and "pair_step R cv U s s'"
  shows "pair_inv cv U s'"
  using assms(3)
proof (rule pair_stepE)
  fix i x assume "s' = at i (entry cv x) s (world s)" "ppc (pthr s i) = P_idle"
    "permitted cv U i x (world s)"
  then show ?thesis using call_keeps [OF assms(2)] by simp
qed (rule pair_keeps [OF assms(1,2)])

lemma pair_reachable_inv:
  assumes "posix_ok R U" and "pair_reachable R cv U s"
  shows "pair_inv cv U s"
  using assms(2) unfolding pair_reachable_def
proof (rule reach_invariant)
  show "pair_inv cv U s" if "pair_init U s" for s
    using that by (auto simp: pair_init_def pair_inv_def stands_def)
qed (rule pair_step_keeps [OF assms(1)])

section \<open>What the pair guarantees\<close>

text \<open>
  C17. With mutexes that behave as POSIX documents, normal, error-checking or recursive ones,
  and with callers that keep to \<open>permitted\<close> (only a holder unlocks; it waits with a lock it has
  once, on a condition that goes with that lock, with a well-formed deadline; nobody locks an
  error-checking lock it has or exceeds the limit of a recursive one), no assertion of the
  wrapper ever fails, in either build; and with \<open>COND_VAR\<close> the two mutexes of a lock are held
  together: between its calls a thread has both equally often, so when a lock, a successful
  try-lock or a condition wait returns it has both, and after its last unlock none.
\<close>

theorem pair_held_together:
  assumes "posix_ok R U" and "pair_reachable R cv U s"
  shows "\<not> dead s \<and>
    (cv \<longrightarrow> ppc (pthr s i) = P_idle \<longrightarrow>
      depth i (holder U (world s) (Lock_of m)) = depth i (holder U (world s) (Posix_lock m)))"
  using pair_invD(1) [OF pair_reachable_inv [OF assms]]
    pair_invD(3) [OF pair_reachable_inv [OF assms], of i m]
  by auto

text \<open>\<open>n\<close> steps of one thread alone.\<close>

fun alone :: "'w posix \<Rightarrow> bool \<Rightarrow> tid \<Rightarrow> nat \<Rightarrow> 'w pstate \<Rightarrow> 'w pstate option" where
  "alone R cv j 0 s = Some s"
| "alone R cv j (Suc n) s =
     (case pthread_step R cv j s of None \<Rightarrow> None | Some s' \<Rightarrow> alone R cv j n s')"

lemma second_without_first:
  "place True U p m 0 (Suc n) \<Longrightarrow>
   (\<exists>c d. p = P_wbegin c m d) \<or> (\<exists>q. p = P_wcheck m q \<or> p = P_wunlock2 m q)"
  by (cases p) (auto split: if_splits)

text \<open>
  The second mutex of the pair is only ever waited for shortly, which is why the wrapper may
  spin on it: a thread that has the first mutex of a lock and needs the second (in a lock, a
  try-lock or at the end of a wait) finds it taken by another only when that is just entering or
  just leaving a condition wait; that thread is not blocked, and at most two of its own steps
  give the mutex back.
\<close>

theorem second_mutex_soon_free:
  assumes ok: "posix_ok R U" and "pair_reachable R True U s"
    and i: "ppc (pthr s i) = P_lock2 m \<or> ppc (pthr s i) = P_try2 m \<or> (\<exists>q. ppc (pthr s i) = P_wlock2 m q)"
    and j: "holder U (world s) (Posix_lock m) = Some (j, n)" "j \<noteq> i"
  shows "\<exists>k s'. 1 \<le> k \<and> k \<le> 2 \<and> alone R True j k s = Some s' \<and>
    holder U (world s') (Posix_lock m) = None"
proof -
  let ?w = "world s"
  note D = pair_invD [OF pair_reachable_inv [OF assms(1,2)]]
  have "0 < depth i (holder U ?w (Lock_of m))" using D(3) [of i m] i by auto
  then have l: "depth j (holder U ?w (Lock_of m)) = 0" using j(2) by (auto simp: depth_pos)
  have q: "depth j (holder U ?w (Posix_lock m)) = Suc n" using j(1) by simp
  obtain r w where u: "real_unlock R j (Posix_lock m) ?w = (r, w)" by fastforce
  have U: "r = 0 \<and> holder U w (Posix_lock m) = None" if "n = 0"
  proof -
    obtain w' where "real_unlock R j (Posix_lock m) ?w = (0, w')"
      "holder U w' = (holder U ?w)(Posix_lock m := unlock_spec (Some (j, n)))"
      using posix_okD(3) [OF ok j(1)] by blast
    with u that show ?thesis by (simp add: unlock_spec_def)
  qed
  have "(\<exists>c d. ppc (pthr s j) = P_wbegin c m d) \<or> (\<exists>q. ppc (pthr s j) = P_wcheck m q \<or> ppc (pthr s j) = P_wunlock2 m q)"
    using D(3) [of j m] unfolding l q by (rule second_without_first)
  then show ?thesis
  proof (elim disjE exE)
    fix c d assume p: "ppc (pthr s j) = P_wbegin c m d"
    with D(3) [of j m] have "depth j (holder U ?w (Posix_lock m)) = 1" "deadline_valid d"
      "cond_mutex U c = Posix_lock m" by (simp_all add: wait_mutex_def)
    from real_wait_begin_own [OF ok this] obtain w' where
      "real_wait_begin R j c (Posix_lock m) d ?w = Inr w'"
      "holder U w' = (holder U ?w)(Posix_lock m := None)" by blast
    with p show ?thesis by (intro exI [of _ 1]) (simp add: pthread_step_def)
  next
    fix q' assume p: "ppc (pthr s j) = P_wcheck m q'"
    with D(3) [of j m] q have "q' = 0 \<or> q' = ETIMEDOUT" "n = 0" by auto
    with p u U show ?thesis
      by (intro exI [of _ 2]) (auto simp: pthread_step_def numeral_2_eq_2)
  next
    fix q' assume p: "ppc (pthr s j) = P_wunlock2 m q'"
    with D(3) [of j m] q have "n = 0" by simp
    with p u U show ?thesis by (intro exI [of _ 1]) (simp add: pthread_step_def)
  qed
qed

section \<open>Documented errors the wrapper does not pass on\<close>

text \<open>
  Two errors that POSIX documents, and that a program may count on, end the process instead.
  A wait with a malformed deadline by a thread that has the lock once: with \<open>COND_VAR\<close> the
  first mutex is already free when the system answers \<open>EINVAL\<close>, and the wrapper's assertion
  fails at the third step; without it the thread gets \<open>EINVAL\<close> and still has the lock. A lock of
  an error-checking lock by the thread that has it: the system answers \<open>EDEADLK\<close>, and the
  assertion fails in either build.
\<close>

theorem documented_errors_abort:
  assumes ok: "posix_ok R U" and "pair_reachable R cv U s" and idle: "ppc (pthr s i) = P_idle"
    and own: "holder U (world s) (Lock_of m) = Some (i, 0)"
  shows "(\<not> deadline_valid d \<longrightarrow> cond_mutex U c = wait_mutex cv m \<longrightarrow>
      (\<exists>s'. alone R cv i (if cv then 3 else 1) (at i (entry cv (Do_wait c m d)) s (world s)) = Some s' \<and>
        (if cv then dead s'
         else \<not> dead s' \<and> ppc (pthr s' i) = P_idle \<and> pret (pthr s' i) = EINVAL \<and>
           holder U (world s') = holder U (world s)))) \<and>
    (kind U m = Errorcheck \<longrightarrow>
      (\<exists>s'. alone R cv i (if cv then 2 else 1) (at i (entry cv (Do_lock m)) s (world s)) = Some s' \<and> dead s'))"
proof -
  let ?w = "world s"
  note D = pair_invD [OF pair_reachable_inv [OF ok assms(2)]]
  have own2: "holder U ?w (Posix_lock m) = Some (i, 0)" if cv
  proof -
    have "depth i (holder U ?w (Posix_lock m)) = 1" using D(3) [of i m] idle own that by simp
    then show ?thesis by (simp only: depth_pos(2))
  qed
  have "\<exists>s'. alone R cv i (if cv then 3 else 1) (at i (entry cv (Do_wait c m d)) s ?w) = Some s' \<and>
        (if cv then dead s'
         else \<not> dead s' \<and> ppc (pthr s' i) = P_idle \<and> pret (pthr s' i) = EINVAL \<and>
           holder U (world s') = holder U ?w)"
    if d: "\<not> deadline_valid d" "cond_mutex U c = wait_mutex cv m"
  proof (cases cv)
    case True
    obtain r w where u: "real_unlock R i (Lock_of m) ?w = (r, w)" by fastforce
    have "0 < depth i (holder U ?w (Lock_of m))" using own by simp
    from real_unlock_own [OF ok this u] obtain h where h: "holder U w = (holder U ?w)(Lock_of m := h)" .
    have "real_wait_begin R i c (Posix_lock m) d w = Inl EINVAL"
      by (rule real_wait_begin_invalid [OF ok]) (use own2 h d True in \<open>simp_all add: wait_mutex_def\<close>)
    with u True show ?thesis by (simp add: pthread_step_def numeral_3_eq_3)
  next
    case False
    have "real_wait_begin R i c (Lock_of m) d ?w = Inl EINVAL"
      by (rule real_wait_begin_invalid [OF ok]) (use own d False in \<open>simp_all add: wait_mutex_def\<close>)
    with False D(1) show ?thesis by (simp add: pthread_step_def)
  qed
  moreover have "\<exists>s'. alone R cv i (if cv then 2 else 1) (at i (entry cv (Do_lock m)) s ?w) = Some s' \<and> dead s'"
    if e: "kind U m = Errorcheck"
  proof -
    have dl: "\<exists>w'. real_lock R i a w = Some (EDEADLK, w') \<and> holder U w' = holder U w"
      if "holder U w a = Some (i, 0)" "block a = m" for a w
    proof -
      have "case lock_spec U i a (holder U w a) of
          None \<Rightarrow> real_lock R i a w = None
        | Some (r, h) \<Rightarrow> \<exists>w'. real_lock R i a w = Some (r, w') \<and> holder U w' = (holder U w)(a := h)"
        by (rule posix_okD(1) [OF ok])
      with that e show ?thesis by (simp add: lock_spec_def fun_upd_idem)
    qed
    obtain w where w: "real_lock R i (Lock_of m) ?w = Some (EDEADLK, w)" "holder U w = holder U ?w"
      using dl [OF own] by auto
    show ?thesis
    proof (cases cv)
      case True
      then obtain w' where "real_lock R i (Posix_lock m) w = Some (EDEADLK, w')"
        using dl [of w "Posix_lock m"] own2 w(2) by auto
      with w True show ?thesis by (simp add: pthread_step_def numeral_2_eq_2)
    next
      case False
      with w show ?thesis by (simp add: pthread_step_def)
    qed
  qed
  ultimately show ?thesis by blast
qed

section \<open>An instance\<close>

text \<open>
  Mutexes given by their holders, and waits that may end as soon as the mutex is free: a library
  that behaves as documented. Lock 9 is error-checking, lock 11 recursive; conditions go with
  lock 7.
\<close>

type_synonym holders = "raddr \<Rightarrow> (tid \<times> nat) option"

definition owners_usage :: "bool \<Rightarrow> holders usage" where
  "owners_usage cv = \<lparr>holder = (\<lambda>w. w), kind = (\<lambda>_. Normal)(9 := Errorcheck, 11 := Recursive), rec_max = 3,
     cond_mutex = (\<lambda>c. wait_mutex cv (if c = 3 then 7 else 9))\<rparr>"

definition owners_posix :: "bool \<Rightarrow> holders posix" where
  "owners_posix cv =
     \<lparr>real_init = (\<lambda>a attr w. (0, w)), real_destroy = (\<lambda>a w. (0, w)),
      real_lock = (\<lambda>i a w. map_option (\<lambda>(r, h). (r, w(a := h))) (lock_spec (owners_usage cv) i a (w a))),
      real_trylock = (\<lambda>i a w. case trylock_spec (owners_usage cv) i a (w a) of (r, h) \<Rightarrow> (r, w(a := h))),
      real_unlock = (\<lambda>i a w. if 0 < depth i (w a) then (0, w(a := unlock_spec (w a))) else (EPERM, w)),
      real_wait_begin = (\<lambda>i c a d w. if deadline_valid d then Inr (w(a := None)) else Inl EINVAL),
      real_wait_end = (\<lambda>i c a d w. if w a = None then Some (0, w(a \<mapsto> (i, 0))) else None),
      real_cond_init = (\<lambda>c w. (0, w)), real_cond_destroy = (\<lambda>c w. (0, w)),
      real_cond_signal = (\<lambda>c w. (0, w)), real_cond_broadcast = (\<lambda>c w. (0, w))\<rparr>"

lemmas owners_defs = owners_posix_def owners_usage_def

lemma owners_posix_ok: "posix_ok (owners_posix cv) (owners_usage cv)"
  unfolding posix_ok_def
  by (simp add: owners_posix_def split: option.split prod.split) (auto simp: owners_usage_def)

abbreviation run_pair :: "bool \<Rightarrow> pair_event list \<Rightarrow> holders pstate \<Rightarrow> holders pstate option" where
  "run_pair cv \<equiv> exec_all (pair_exec (owners_posix cv) cv (owners_usage cv))"

definition pair_start :: "holders pstate" where
  "pair_start = \<lparr>world = (\<lambda>_. None), pthr = (\<lambda>_. \<lparr>ppc = P_idle, pret = 0\<rparr>), dead = False\<rparr>"

lemma run_pair_reachable:
  "run_pair cv evs pair_start = Some s \<Longrightarrow> pair_reachable (owners_posix cv) cv (owners_usage cv) s"
  unfolding pair_reachable_def
  by (erule pair.run_reach, rule reach_init) (simp add: pair_init_def pair_start_def owners_usage_def)

lemmas pair_eval = pair_start_def pthread_step_def owners_defs lock_spec_def trylock_spec_def unlock_spec_def
  usage_defs wait_mutex_def Let_def

text \<open>Thread 0 takes lock 7 and is about to wait; thread 1 has the first mutex.\<close>

definition wait_overlap :: "pair_event list" where
  "wait_overlap = [PCall 0 (Do_lock 7), PRun 0, PRun 0, PCall 0 (Do_wait 3 7 None), PRun 0,
     PCall 1 (Do_lock 7), PRun 1]"

lemma wait_overlap_result:
  "\<exists>s. run_pair True wait_overlap pair_start = Some s \<and> ppc (pthr s 1) = P_lock2 7 \<and>
     world s (Posix_lock 7) = Some (0, 0) \<and> world s (Lock_of 7) = Some (1, 0)"
  by (simp add: wait_overlap_def pair_eval)

text \<open>Thread 0 has the recursive lock 11 twice.\<close>

theorem pair_held_together_witness:
  "\<exists>s. pair_reachable (owners_posix True) True (owners_usage True) s \<and> \<not> dead s \<and> ppc (pthr s 0) = P_idle \<and>
     world s (Lock_of 11) = Some (0, 1) \<and> depth 0 (world s (Posix_lock 11)) = 2"
proof -
  have "\<exists>s. run_pair True [PCall 0 (Do_lock 11), PRun 0, PRun 0, PCall 0 (Do_trylock 11), PRun 0, PRun 0]
       pair_start = Some s \<and> ppc (pthr s 0) = P_idle \<and> world s (Lock_of 11) = Some (0, 1)"
    by (simp add: pair_eval)
  then obtain s where s: "pair_reachable (owners_posix True) True (owners_usage True) s" "ppc (pthr s 0) = P_idle"
    "world s (Lock_of 11) = Some (0, 1)"
    using run_pair_reachable by blast
  have "holder (owners_usage True) = (\<lambda>w. w)" by (simp add: owners_usage_def)
  with s pair_held_together [OF owners_posix_ok s(1), of 0 11] show ?thesis by auto
qed

theorem documented_errors_abort_witness:
  "\<exists>s s1 s2. pair_reachable (owners_posix True) True (owners_usage True) s \<and> world s (Lock_of 9) = Some (0, 0) \<and>
     alone (owners_posix True) True 0 3 (at 0 (P_wunlock 5 9 (Some (1, -1))) s (world s)) = Some s1 \<and> dead s1 \<and>
     alone (owners_posix True) True 0 2 (at 0 (P_lock 9) s (world s)) = Some s2 \<and> dead s2"
proof -
  have "\<exists>s. run_pair True [PCall 0 (Do_lock 9), PRun 0, PRun 0] pair_start = Some s \<and>
     ppc (pthr s 0) = P_idle \<and> world s (Lock_of 9) = Some (0, 0)"
    by (simp add: pair_eval)
  then obtain s where s: "pair_reachable (owners_posix True) True (owners_usage True) s" "ppc (pthr s 0) = P_idle"
    "world s (Lock_of 9) = Some (0, 0)"
    using run_pair_reachable by blast
  have "holder (owners_usage True) (world s) (Lock_of 9) = Some (0, 0)" "kind (owners_usage True) 9 = Errorcheck"
    "cond_mutex (owners_usage True) 5 = wait_mutex True 9"
    using s(3) by (simp_all add: owners_usage_def)
  with documented_errors_abort [OF owners_posix_ok s(1,2), of 9] s(1,3) show ?thesis
    by fastforce
qed

lemma second_mutex_soon_free_witness:
  "\<exists>s n s'. pair_reachable (owners_posix True) True (owners_usage True) s \<and> ppc (pthr s 1) = P_lock2 7 \<and>
     world s (Posix_lock 7) = Some (0, 0) \<and> 1 \<le> n \<and> n \<le> 2 \<and>
     alone (owners_posix True) True 0 n s = Some s' \<and> world s' (Posix_lock 7) = None"
proof -
  obtain s where s: "pair_reachable (owners_posix True) True (owners_usage True) s" "ppc (pthr s 1) = P_lock2 7"
    "world s (Posix_lock 7) = Some (0, 0)"
    using wait_overlap_result run_pair_reachable by blast
  have "holder (owners_usage True) = (\<lambda>w. w)" by (simp add: owners_usage_def)
  with s second_mutex_soon_free [OF owners_posix_ok s(1), of 1 7 0 0] show ?thesis by auto
qed

end
