(* ===== verification/AtomicOps.thy ===== *)
theory AtomicOps
  imports Prelude
begin

text \<open>
  \<open>include/atomic_ops.h\<close>: one interface to atomic operations, \<open>CAS_U8\<close> to \<open>TAS_U8\<close>, written
  three times, for SPARC, Tilera and x86. An operation takes the contents of its cell to a
  result and new contents; the width of the cell is the type of the word. The builtins of the
  compiler and the instructions are modelled; the functions of Solaris (\<open>atomic.h\<close>) and Tilera
  (\<open>arch/atomic.h\<close>) behind the macros are parameters.
\<close>

section \<open>Operations and C arithmetic\<close>

datatype 'w atomic_op = Cas 'w 'w | Swap 'w | Fai | Fad | Iaf | Daf

text \<open>
  The value of \<open>v + k\<close> in C for an unsigned \<open>v\<close>: narrower types than \<open>int\<close> are promoted to
  \<open>int\<close>, where the sum does not wrap; the others wrap at their width.
\<close>

definition c_add :: "'a::len word \<Rightarrow> int \<Rightarrow> int" where
  "c_add v k = (if LENGTH('a) < 32 then uint v + k else uint (v + word_of_int k))"

section \<open>x86\<close>

text \<open>\<open>xchg\<close>, for the pointer and the four widths: the old contents and the new ones.\<close>

definition x86_swap :: "'a::len word \<Rightarrow> 'a word \<Rightarrow> 'a word \<times> 'a word" where
  "x86_swap target x = (target, x)"

definition x86_tas :: "u8 \<Rightarrow> u8 \<times> u8" where
  "x86_tas addr = x86_swap addr 255"

fun x86_op :: "'a::len word atomic_op \<Rightarrow> 'a word \<Rightarrow> int \<times> 'a word" where
  "x86_op (Cas b c) a = (uint a, if a = b then c else a)"
| "x86_op (Swap b) a = (case x86_swap a b of (v, a') \<Rightarrow> (uint v, a'))"
| "x86_op Fai a = (uint a, a + 1)"
| "x86_op Fad a = (uint a, a - 1)"
| "x86_op Iaf a = (uint (a + 1), a + 1)"
| "x86_op Daf a = (uint (a - 1), a - 1)"

section \<open>SPARC\<close>

text \<open>\<open>ldstub\<close> loads a byte and sets it to all ones.\<close>

definition sparc_tas :: "u8 \<Rightarrow> u8 \<times> u8" where
  "sparc_tas addr = (addr, 255)"

text \<open>
  \<open>xchg32\<close> and \<open>xchg64\<close> are loops around a compare-and-swap instruction. \<open>X_load\<close>: before
  \<open>lduw\<close> (\<open>ldx\<close>), after the first \<open>mov\<close>; \<open>X_cas\<close>: before \<open>cas\<close>, which compares the cell with
  \<open>tmp2\<close>, exchanges it with \<open>val\<close> if they are equal and loads it into \<open>val\<close> if not. The branch is
  annulled: its delay slot, which restores \<open>val\<close>, is executed only when it is taken.
\<close>

datatype xpc = X_load | X_cas | X_done

record 'w xchg =
  cell :: 'w
  xpc :: xpc
  val :: 'w
  tmp1 :: 'w
  tmp2 :: 'w

definition xchg_enter :: "'w \<Rightarrow> 'w \<Rightarrow> 'w xchg" where
  "xchg_enter m v = \<lparr>cell = m, xpc = X_load, val = v, tmp1 = v, tmp2 = v\<rparr>"

definition xchg_step :: "'w xchg \<Rightarrow> 'w xchg option" where
  "xchg_step s =
     (case xpc s of
        X_load \<Rightarrow> Some (s\<lparr>tmp2 := cell s, xpc := X_cas\<rparr>)
      | X_cas \<Rightarrow>
          let old = cell s;
              s = (if old = tmp2 s then s\<lparr>cell := val s, val := old\<rparr> else s\<lparr>val := old\<rparr>)
          in Some (if tmp2 s = val s then s\<lparr>xpc := X_done\<rparr> else s\<lparr>val := tmp1 s, xpc := X_load\<rparr>)
      | X_done \<Rightarrow> None)"

text \<open>The exchange of a thread that nobody disturbs: its two steps.\<close>

definition xchg_alone :: "'w \<Rightarrow> 'w \<Rightarrow> ('w \<times> 'w) option" where
  "xchg_alone m v =
     map_option (\<lambda>s. (val s, cell s)) (Option.bind (xchg_step (xchg_enter m v)) xchg_step)"

text \<open>
  The functions of Solaris, at one width. \<open>SWAP_U32\<close> is \<open>xchg32\<close>; \<open>FAD_U8\<close> has an empty second
  argument and does not compile.
\<close>

record 'w solaris =
  atomic_cas :: "'w \<Rightarrow> 'w \<Rightarrow> 'w \<Rightarrow> 'w \<times> 'w"
  atomic_swap :: "'w \<Rightarrow> 'w \<Rightarrow> 'w \<times> 'w"
  atomic_inc_nv :: "'w \<Rightarrow> 'w \<times> 'w"
  atomic_dec_nv :: "'w \<Rightarrow> 'w \<times> 'w"

definition value_of :: "'a::len word \<times> 'a word \<Rightarrow> int \<times> 'a word" where
  "value_of r = (case r of (v, a) \<Rightarrow> (uint v, a))"

definition plus_of :: "int \<Rightarrow> 'a::len word \<times> 'a word \<Rightarrow> int \<times> 'a word" where
  "plus_of k r = (case r of (v, a) \<Rightarrow> (c_add v k, a))"

fun sparc_op :: "'a::len word solaris \<Rightarrow> 'a word atomic_op \<Rightarrow> 'a word \<Rightarrow> (int \<times> 'a word) option" where
  "sparc_op L (Cas b c) a = Some (value_of (atomic_cas L a b c))"
| "sparc_op L (Swap b) a =
     (if LENGTH('a) = 32 then map_option value_of (xchg_alone a b) else Some (value_of (atomic_swap L a b)))"
| "sparc_op L Fai a = Some (plus_of (-1) (atomic_inc_nv L a))"
| "sparc_op L Fad a = (if LENGTH('a) = 8 then None else Some (plus_of 1 (atomic_dec_nv L a)))"
| "sparc_op L Iaf a = Some (value_of (atomic_inc_nv L a))"
| "sparc_op L Daf a = Some (value_of (atomic_dec_nv L a))"

text \<open>Their documented behaviour: \<open>_nv\<close> returns the new value, the others the old one.\<close>

definition solaris_ok :: "'a::len word solaris \<Rightarrow> bool" where
  "solaris_ok L \<longleftrightarrow>
     (\<forall>a b c. atomic_cas L a b c = (a, if a = b then c else a)) \<and>
     (\<forall>a b. atomic_swap L a b = (a, b)) \<and>
     (\<forall>a. atomic_inc_nv L a = (a + 1, a + 1)) \<and> (\<forall>a. atomic_dec_nv L a = (a - 1, a - 1))"

section \<open>Tilera\<close>

text \<open>
  The macros of Tilera take cells of any type but need not have code for every width;
  \<open>handles\<close> says whether they do for this one. If not, the use of the macro does not compile.
\<close>

record 'w tilera =
  handles :: bool
  arch_cas :: "'w \<Rightarrow> 'w \<Rightarrow> 'w \<Rightarrow> 'w \<times> 'w"
  arch_exchange :: "'w \<Rightarrow> 'w \<Rightarrow> 'w \<times> 'w"
  arch_increment :: "'w \<Rightarrow> 'w \<times> 'w"
  arch_decrement :: "'w \<Rightarrow> 'w \<times> 'w"

definition if_handled :: "'w tilera \<Rightarrow> 'r \<Rightarrow> 'r option" where
  "if_handled T r = (if handles T then Some r else None)"

fun tile_op :: "'a::len word tilera \<Rightarrow> 'a word atomic_op \<Rightarrow> 'a word \<Rightarrow> (int \<times> 'a word) option" where
  "tile_op T (Cas b c) a = if_handled T (value_of (arch_cas T a b c))"
| "tile_op T (Swap b) a = if_handled T (value_of (arch_exchange T a b))"
| "tile_op T Fai a = if_handled T (value_of (arch_increment T a))"
| "tile_op T Fad a = if_handled T (value_of (arch_decrement T a))"
| "tile_op T Iaf a = if_handled T (plus_of 1 (arch_increment T a))"
| "tile_op T Daf a = if_handled T (plus_of (-1) (arch_decrement T a))"

definition tile_tas :: "u8 tilera \<Rightarrow> u8 \<Rightarrow> (u8 \<times> u8) option" where
  "tile_tas T a = if_handled T (arch_cas T a 0 255)"

text \<open>Documented, for the widths that are handled: all four return the old value.\<close>

definition tilera_ok :: "'a::len word tilera \<Rightarrow> bool" where
  "tilera_ok T \<longleftrightarrow> (handles T \<longrightarrow>
     (\<forall>a b c. arch_cas T a b c = (a, if a = b then c else a)) \<and>
     (\<forall>a b. arch_exchange T a b = (a, b)) \<and>
     (\<forall>a. arch_increment T a = (a, a + 1)) \<and> (\<forall>a. arch_decrement T a = (a, a - 1)))"

section \<open>The loop of xchg under interference\<close>

text \<open>Between two steps of the loop other threads may write any value into the cell.\<close>

datatype 'w xchg_event = Run | Write 'w

fun xchg_exec :: "'w xchg_event \<Rightarrow> 'w xchg \<Rightarrow> 'w xchg option" where
  "xchg_exec Run s = xchg_step s"
| "xchg_exec (Write m) s = Some (s\<lparr>cell := m\<rparr>)"

definition xchg_trans :: "'w xchg \<Rightarrow> 'w xchg \<Rightarrow> bool" where
  "xchg_trans s s' \<longleftrightarrow> (\<exists>ev. xchg_exec ev s = Some s')"

definition xchg_start :: "'w \<Rightarrow> 'w xchg \<Rightarrow> bool" where
  "xchg_start v s \<longleftrightarrow> (\<exists>m. s = xchg_enter m v)"

definition xchg_inv :: "'w \<Rightarrow> 'w xchg \<Rightarrow> bool" where
  "xchg_inv v s \<longleftrightarrow> (xpc s \<noteq> X_done \<longrightarrow> val s = v \<and> tmp1 s = v)"

lemma xchg_inv_exec: "xchg_inv v s \<Longrightarrow> xchg_exec ev s = Some s' \<Longrightarrow> xchg_inv v s'"
  by (cases ev) (auto simp: xchg_inv_def xchg_step_def Let_def split: xpc.splits if_splits)

lemma xchg_inv_start: "xchg_start v s \<Longrightarrow> xchg_inv v s"
  by (auto simp: xchg_start_def xchg_enter_def xchg_inv_def)

interpretation xchg: checked_system xchg_exec xchg_trans "xchg_start v" "xchg_inv v" for v
  by unfold_locales (auto simp: xchg_trans_def intro: xchg_inv_start xchg_inv_exec)

text \<open>
  C40. The exchange loop of SPARC is atomic: whatever other threads write between its steps, a
  step of the loop either leaves the cell alone and does not end the loop, or ends it, and
  then it puts the argument into the cell and returns what the cell held at that moment. A loop
  whose last two steps are not disturbed ends.
\<close>

theorem xchg_loop_atomic:
  assumes "reach (xchg_start v) xchg_trans s" and "xchg_step s = Some s'"
  shows "(xpc s' \<noteq> X_done \<and> cell s' = cell s \<or> xpc s' = X_done \<and> cell s' = v \<and> val s' = cell s) \<and>
    (xpc s = X_load \<longrightarrow> (\<exists>s''. xchg_step s' = Some s'' \<and> xpc s'' = X_done))"
proof -
  have "xchg_inv v s" using assms(1) by (rule xchg.reachable_inv)
  then show ?thesis
    using assms(2)
    by (cases "xpc s") (auto simp: xchg_step_def xchg_inv_def Let_def split: if_splits)
qed

theorem xchg_loop_atomic_witness:
  "\<exists>s s'. reach (xchg_start (7 :: u32)) xchg_trans s \<and> xchg_step s = Some s' \<and>
     xpc s' = X_done \<and> cell s' = 7 \<and> val s' = cell s \<and> cell s = 5"
proof -
  let ?evs = "[Run, Write 4, Run, Write 5, Run] :: u32 xchg_event list"
  have "\<exists>s. exec_all xchg_exec ?evs (xchg_enter 3 7) = Some s \<and> xpc s = X_cas \<and> cell s = 5 \<and>
      (\<exists>s'. xchg_step s = Some s' \<and> xpc s' = X_done)"
    by (simp add: xchg_enter_def xchg_step_def)
  then obtain s s' where s: "exec_all xchg_exec ?evs (xchg_enter 3 7) = Some s" "cell s = 5"
    "xchg_step s = Some s'" "xpc s' = X_done"
    by blast
  have "reach (xchg_start 7) xchg_trans s"
    by (rule xchg.run_reach [OF s(1)], rule reach_init) (auto simp: xchg_start_def)
  from xchg_loop_atomic [OF this s(3)] this s show ?thesis by blast
qed

section \<open>The three versions agree\<close>

lemma xchg_alone_eq: "xchg_alone m v = Some (m, v)"
  by (simp add: xchg_alone_def xchg_step_def xchg_enter_def)

lemma c_add_wide: "\<not> LENGTH('a) < 32 \<Longrightarrow> c_add (v :: 'a::len word) k = uint (v + word_of_int k)"
  by (simp add: c_add_def)

text \<open>The neighbours of a value, as integers.\<close>

lemma uint_next:
  "uint (a + 1) = (if a = -1 then 0 else uint a + 1)"
  "uint (a - 1) = (if a = 0 then 2 ^ LENGTH('a) - 1 else uint a - 1)"
  for a :: "'a::len word"
proof -
  have top: "a = -1 \<longleftrightarrow> uint a = 2 ^ LENGTH('a) - 1"
    by (simp add: word_uint_eq_iff unsigned_minus_1_eq_mask mask_eq_exp_minus_1)
  have range: "0 \<le> uint a" "uint a < 2 ^ LENGTH('a)" by (simp_all add: uint_lt2p)
  show "uint (a + 1) = (if a = -1 then 0 else uint a + 1)"
  proof (cases "a = -1")
    case False
    with top have "uint a \<noteq> 2 ^ LENGTH('a) - 1" by blast
    then have "uint a + 1 < 2 ^ LENGTH('a)" using range(2) by linarith
    with False range show ?thesis by (simp add: uint_word_ariths mod_pos_pos_trivial)
  qed simp
  show "uint (a - 1) = (if a = 0 then 2 ^ LENGTH('a) - 1 else uint a - 1)"
  proof (cases "a = 0")
    case True
    then show ?thesis by (simp add: unsigned_minus_1_eq_mask mask_eq_exp_minus_1)
  next
    case False
    then have "uint a \<noteq> 0" by (simp add: word_uint_eq_iff)
    then have "0 \<le> uint a - 1" "uint a - 1 < 2 ^ LENGTH('a)" using range by linarith+
    with False show ?thesis by (simp add: uint_word_ariths mod_pos_pos_trivial)
  qed
qed

text \<open>The old value computed from the new one and the other way round.\<close>

lemma c_add_back:
  "c_add (a + 1) (-1) = uint a \<longleftrightarrow> \<not> (LENGTH('a) < 32 \<and> a = -1)"
  "c_add (a - 1) 1 = uint a \<longleftrightarrow> \<not> (LENGTH('a) < 32 \<and> a = 0)"
  "c_add a 1 = uint (a + 1) \<longleftrightarrow> \<not> (LENGTH('a) < 32 \<and> a = -1)"
  "c_add a (-1) = uint (a - 1) \<longleftrightarrow> \<not> (LENGTH('a) < 32 \<and> a = 0)"
  for a :: "'a::len word"
proof -
  have "uint (-1 :: 'a word) = 2 ^ LENGTH('a) - 1" "0 < (2 :: int) ^ LENGTH('a)"
    by (simp_all add: unsigned_minus_1_eq_mask mask_eq_exp_minus_1)
  moreover from this have "uint (-1 :: 'a word) \<noteq> -1" "uint (-1 :: 'a word) + 1 \<noteq> 0" by simp_all
  ultimately show "c_add (a + 1) (-1) = uint a \<longleftrightarrow> \<not> (LENGTH('a) < 32 \<and> a = -1)"
    "c_add (a - 1) 1 = uint a \<longleftrightarrow> \<not> (LENGTH('a) < 32 \<and> a = 0)"
    "c_add a 1 = uint (a + 1) \<longleftrightarrow> \<not> (LENGTH('a) < 32 \<and> a = -1)"
    "c_add a (-1) = uint (a - 1) \<longleftrightarrow> \<not> (LENGTH('a) < 32 \<and> a = 0)"
    by (auto simp: c_add_def uint_next)
qed

lemma tas_versions:
  "x86_tas b = (b, 255)" "sparc_tas b = x86_tas b"
  "tilera_ok T \<Longrightarrow> tile_tas T b = Some (x86_tas b) \<longleftrightarrow> handles T \<and> (b = 0 \<or> b = 255)"
  by (auto simp: x86_tas_def x86_swap_def sparc_tas_def tile_tas_def if_handled_def tilera_ok_def)

text \<open>
  C39. Where the three versions of the interface agree. With the functions of Solaris and of
  Tilera as documented, an operation gives the same result and leaves the same value in the
  cell as on x86 with exactly these exceptions. SPARC: \<open>FAD_U8\<close>, which does not compile; and
  fetch-and-increment of the greatest and fetch-and-decrement of the least value of a narrow
  cell, since they are computed from the new value in \<open>int\<close>, which does not wrap (255 gives -1).
  Tilera: everything at a width its macros do not handle; and for the same reason
  increment-and-fetch of the greatest and decrement-and-fetch of the least value of a narrow
  cell. Test-and-set is the same on SPARC; on Tilera, where it is a compare-and-swap with 0, it
  is the same only for a byte that is 0 or 255, and only if bytes are handled.
\<close>

theorem platforms_agree:
  fixes a :: "'a::len word"
  assumes "solaris_ok L" and "tilera_ok T" and "tilera_ok T8"
  shows "(sparc_op L x a = Some (x86_op x a) \<longleftrightarrow>
      \<not> (LENGTH('a) < 32 \<and> (x = Fai \<and> a = -1 \<or> x = Fad \<and> a = 0) \<or> LENGTH('a) = 8 \<and> x = Fad)) \<and>
    (tile_op T x a = Some (x86_op x a) \<longleftrightarrow>
      handles T \<and> \<not> (LENGTH('a) < 32 \<and> (x = Iaf \<and> a = -1 \<or> x = Daf \<and> a = 0))) \<and>
    sparc_tas b = x86_tas b \<and>
    (tile_tas T8 b = Some (x86_tas b) \<longleftrightarrow> handles T8 \<and> (b = 0 \<or> b = 255))"
proof -
  have "sparc_op L x a = Some (x86_op x a) \<longleftrightarrow>
      \<not> (LENGTH('a) < 32 \<and> (x = Fai \<and> a = -1 \<or> x = Fad \<and> a = 0) \<or> LENGTH('a) = 8 \<and> x = Fad)"
    using assms(1)
    by (cases x) (auto simp: solaris_ok_def value_of_def plus_of_def x86_swap_def xchg_alone_eq c_add_back)
  moreover have "tile_op T x a = Some (x86_op x a) \<longleftrightarrow>
      handles T \<and> \<not> (LENGTH('a) < 32 \<and> (x = Iaf \<and> a = -1 \<or> x = Daf \<and> a = 0))"
    using assms(2)
    by (cases x) (auto simp: tilera_ok_def if_handled_def value_of_def plus_of_def x86_swap_def c_add_back)
  ultimately show ?thesis using tas_versions(2,3) assms(3) by blast
qed

text \<open>Systems that behave as documented; \<open>w\<close> says whether this width is handled.\<close>

definition plain_solaris :: "'a::len word solaris" where
  "plain_solaris = \<lparr>atomic_cas = (\<lambda>a b c. (a, if a = b then c else a)), atomic_swap = Pair,
     atomic_inc_nv = (\<lambda>a. (a + 1, a + 1)), atomic_dec_nv = (\<lambda>a. (a - 1, a - 1))\<rparr>"

definition plain_tilera :: "bool \<Rightarrow> 'a::len word tilera" where
  "plain_tilera w = \<lparr>handles = w, arch_cas = (\<lambda>a b c. (a, if a = b then c else a)), arch_exchange = Pair,
     arch_increment = (\<lambda>a. (a, a + 1)), arch_decrement = (\<lambda>a. (a, a - 1))\<rparr>"

lemma plain_ok: "solaris_ok plain_solaris" "tilera_ok (plain_tilera w)"
  by (simp_all add: solaris_ok_def plain_solaris_def tilera_ok_def plain_tilera_def)

theorem platforms_agree_witness:
  "sparc_op plain_solaris Fai (4294967295 :: u32) = Some (4294967295, 0) \<and>
   tile_op (plain_tilera True) Iaf (4294967295 :: u32) = Some (0, 0) \<and>
   sparc_op plain_solaris Fai (255 :: u8) = Some (-1, 0) \<and> x86_op Fai (255 :: u8) = (255, 0) \<and>
   tile_op (plain_tilera False) Fai (3 :: u8) \<noteq> Some (x86_op Fai 3) \<and>
   tile_tas (plain_tilera True) 1 \<noteq> Some (x86_tas 1)"
  using platforms_agree [OF plain_ok(1) plain_ok(2) [of True] plain_ok(2) [of True], of Fai "4294967295 :: u32" 1]
    platforms_agree [OF plain_ok(1) plain_ok(2) [of True] plain_ok(2) [of True], of Iaf "4294967295 :: u32" 1]
    platforms_agree [OF plain_ok(1) plain_ok(2) [of False] plain_ok(2) [of True], of Fai "3 :: u8" 1]
  by (simp add: plain_solaris_def plain_tilera_def plus_of_def c_add_def)

end
