(* ===== verification/Utils.thy ===== *)
theory Utils
  imports LockWord "HOL-Library.Signed_Division"
begin

text \<open>
  The helpers of \<open>src/utils.c\<close>, \<open>src/utils.h\<close>, \<open>include/padding.h\<close> and \<open>include/utils.h\<close>: which
  kind of core a thread runs on, with the cached answer; cache-line arithmetic and the
  aligned allocation every lock goes through; the power-of-two rounding; the two generators.
  The system's \<open>sched_getcpu\<close> and \<open>posix_memalign\<close> and the cache line size of the generated
  \<open>topology.h\<close> are arguments.
\<close>

unbundle bit_operations_syntax

section \<open>The kind of core\<close>

definition LAZY_CHECK_THRESHOLD :: int where "LAZY_CHECK_THRESHOLD = 10"

record core_cache =
  core_type :: int
  lazy_cnt :: int

definition fresh_cache :: core_cache where
  "fresh_cache = \<lparr>core_type = -1, lazy_cnt = 0\<rparr>"

definition judge_big_core :: "int \<Rightarrow> int" where
  "judge_big_core core_id = (if core_id < 16 then 1 else 0)"

text \<open>\<open>cpu\<close> is what \<open>sched_getcpu\<close> returns, if the call reads it.\<close>

definition is_big_core :: "int \<Rightarrow> core_cache \<Rightarrow> int \<times> core_cache" where
  "is_big_core cpu t =
     (let t = (if core_type t = -1 then t\<lparr>core_type := judge_big_core cpu\<rparr>
               else if lazy_cnt t \<ge> LAZY_CHECK_THRESHOLD
               then t\<lparr>lazy_cnt := 0, core_type := judge_big_core cpu\<rparr>
               else t\<lparr>lazy_cnt := lazy_cnt t + 1\<rparr>)
      in (core_type t, t))"

definition update_core_type :: "int \<Rightarrow> core_cache \<Rightarrow> int \<times> core_cache" where
  "update_core_type cpu t =
     (let t = t\<lparr>lazy_cnt := 0, core_type := cpu smod 4\<rparr> in (core_type t, t))"

text \<open>A sequence of calls, one for every element of the list of current processors.\<close>

fun core_calls :: "int list \<Rightarrow> core_cache \<Rightarrow> int list" where
  "core_calls [] t = []"
| "core_calls (cpu # cpus) t = (let (r, t) = is_big_core cpu t in r # core_calls cpus t)"

lemma judge_range: "judge_big_core c \<noteq> -1"
  by (simp add: judge_big_core_def)

lemma cached_calls:
  assumes "core_type t = judge_big_core c" and "lazy_cnt t = 10 - int k" and "k \<le> 10"
    and "n < length cpus"
  shows "core_calls cpus t ! n =
    (if n < k then judge_big_core c else judge_big_core (cpus ! (n - (n - k) mod 11)))"
  using assms
proof (induction cpus arbitrary: t c k n)
  case Nil
  then show ?case by simp
next
  case (Cons cpu cpus)
  show ?case
  proof (cases k)
    case 0
    let ?t = "t\<lparr>lazy_cnt := 0, core_type := judge_big_core cpu\<rparr>"
    have now: "is_big_core cpu t = (judge_big_core cpu, ?t)"
      using Cons.prems(1,2) 0 judge_range [of c]
      by (simp add: is_big_core_def LAZY_CHECK_THRESHOLD_def)
    show ?thesis
    proof (cases n)
      case (Suc j)
      have "core_calls cpus ?t ! j =
          (if j < 10 then judge_big_core cpu else judge_big_core (cpus ! (j - (j - 10) mod 11)))"
        using Cons.IH [of ?t cpu 10 j] Cons.prems(4) Suc by simp
      moreover have "(Suc j - Suc j mod 11) = (if j < 10 then 0 else Suc (j - (j - 10) mod 11))"
      proof (cases "j < 10")
        case False
        then obtain d where d: "j = 10 + d" by (metis le_add_diff_inverse not_less)
        have "Suc j = d + 11" using d by simp
        then have "Suc j mod 11 = d mod 11" by (simp only: mod_add_self2)
        moreover have "d mod 11 \<le> d" by simp
        ultimately show ?thesis using d by (simp add: Suc_diff_le)
      qed simp
      ultimately show ?thesis using Suc 0 now by simp
    qed (use 0 now in simp)
  next
    case (Suc j)
    let ?t = "t\<lparr>lazy_cnt := lazy_cnt t + 1\<rparr>"
    have now: "is_big_core cpu t = (judge_big_core c, ?t)"
      using Cons.prems(1-3) Suc judge_range [of c]
      by (simp add: is_big_core_def LAZY_CHECK_THRESHOLD_def)
    show ?thesis
    proof (cases n)
      case (Suc i)
      have "core_calls cpus ?t ! i =
          (if i < j then judge_big_core c else judge_big_core (cpus ! (i - (i - j) mod 11)))"
        using Cons.IH [of ?t c j i] Cons.prems Suc \<open>k = Suc j\<close> by simp
      moreover have "Suc i - (i - j) mod 11 = Suc (i - (i - j) mod 11)" if "j \<le> i"
        by (meson Suc_diff_le diff_le_self le_trans mod_less_eq_dividend)
      ultimately show ?thesis using Suc \<open>k = Suc j\<close> now by simp
    qed (use now \<open>k = Suc j\<close> in simp)
  qed
qed

text \<open>
  The cached core type is refreshed every eleventh call: from the initial state, the answer
  of the \<open>n\<close>-th call (from 0) is the one for the processor the thread was on at the last call
  whose number is a multiple of 11. A thread that migrates is told a stale type for at most ten
  calls.
\<close>

theorem core_type_refresh:
  assumes "n < length cpus"
  shows "core_calls cpus fresh_cache ! n = judge_big_core (cpus ! (n - n mod 11))"
proof (cases cpus)
  case (Cons cpu cs)
  let ?t = "\<lparr>core_type = judge_big_core cpu, lazy_cnt = 0\<rparr>"
  have now: "is_big_core cpu fresh_cache = (judge_big_core cpu, ?t)"
    by (simp add: is_big_core_def fresh_cache_def)
  have "core_calls cpus \<lparr>core_type = judge_big_core 0, lazy_cnt = 10\<rparr> ! n =
      judge_big_core (cpus ! (n - n mod 11))"
    using cached_calls [of "\<lparr>core_type = judge_big_core 0, lazy_cnt = 10\<rparr>" 0 0 n cpus] assms by simp
  moreover have "core_calls cpus \<lparr>core_type = judge_big_core 0, lazy_cnt = 10\<rparr> = core_calls cpus fresh_cache"
    using now Cons judge_range [of 0]
    by (simp add: is_big_core_def LAZY_CHECK_THRESHOLD_def)
  ultimately show ?thesis by simp
qed (use assms in simp)

lemma core_type_refresh_witness:
  "core_calls (3 # replicate 11 20) fresh_cache ! 10 = 1 \<and>
   core_calls (3 # replicate 11 20) fresh_cache ! 11 = 0"
  using core_type_refresh [of 10 "3 # replicate 11 20"] core_type_refresh [of 11 "3 # replicate 11 20"]
  by (simp add: judge_big_core_def)

text \<open>
  \<open>update_core_type\<close> stores the number of the processor modulo 4 where \<open>is_big_core\<close> stores its
  judgement: on processor 4 it makes the next ten calls say 0, on processor 18 they say 2.
\<close>

lemma update_core_type_diverges:
  "fst (is_big_core 4 (snd (update_core_type 4 t))) = 0 \<and> judge_big_core 4 = 1 \<and>
   fst (is_big_core 18 (snd (update_core_type 18 t))) = 2 \<and> judge_big_core 18 = 0"
  by (simp add: is_big_core_def update_core_type_def judge_big_core_def LAZY_CHECK_THRESHOLD_def
      signed_modulo_int_def)

section \<open>Cache lines and the allocation of locks\<close>

definition r_align :: "u64 \<Rightarrow> u64 \<Rightarrow> u64" where
  "r_align n r = (n + r - 1) AND (- r)"

definition cache_align :: "u64 \<Rightarrow> u64 \<Rightarrow> u64" where
  "cache_align line n = r_align n line"

definition pad_to_cache_line :: "u64 \<Rightarrow> u64 \<Rightarrow> u64" where
  "pad_to_cache_line line n = cache_align line n - n"

text \<open>
  \<open>memalign\<close> takes the alignment and the size and gives the return code and the pointer stored in
  \<open>res\<close> (which the code has set to 0); the message and \<open>exit(-1)\<close> are \<open>None\<close>.
\<close>

definition alloc_cache_align :: "(u64 \<Rightarrow> u64 \<Rightarrow> int \<times> u64) \<Rightarrow> u64 \<Rightarrow> u64 \<Rightarrow> u64 option" where
  "alloc_cache_align memalign line n =
     (let (rc, res) = memalign line (cache_align line n)
      in if rc < 0 \<or> res = 0 then None else Some res)"

lemma unat_push_drop:
  "unat (push_bit k (drop_bit k (w :: u64))) = unat w div 2 ^ k * 2 ^ k"
proof -
  have "unat w div 2 ^ k * 2 ^ k \<le> unat w" by simp
  also have "unat w < 2 ^ 64" by (rule order_less_le_trans [OF unsigned_less]) simp
  finally have "unat w div 2 ^ k * 2 ^ k < 2 ^ 64" .
  moreover have "unat (push_bit k (drop_bit k w)) = take_bit 64 (push_bit k (unat (drop_bit k w)))"
    by (subst unsigned_push_bit_eq) simp
  moreover have "push_bit k (unat (drop_bit k w)) = unat w div 2 ^ k * 2 ^ k"
    by (subst unat_drop_bit_eq) (simp only: push_bit_eq_mult drop_bit_eq_div)
  ultimately show ?thesis by (simp only: take_bit_nat_eq_self)
qed

lemma and_minus_exp: "(w :: u64) AND (- (2 ^ k)) = push_bit k (drop_bit k w)"
  unfolding minus_exp_eq_not_mask
  by (rule bit_word_eqI) (auto simp: bit_simps)

text \<open>
  The alignment, for a power of two and without overflow: the least multiple of the line that
  is not smaller.
\<close>

lemma cache_align_least:
  assumes "k < 64" and "line = 2 ^ k" and "unat n + 2 ^ k \<le> 2 ^ 64"
  shows "unat (cache_align line n) = (unat n + 2 ^ k - 1) div 2 ^ k * 2 ^ k"
proof -
  have "unat (n + line - 1) = unat n + 2 ^ k - 1"
  proof -
    have "n + line - 1 = of_nat (unat n + 2 ^ k - 1)"
    proof (subst of_nat_diff)
      show "1 \<le> unat n + 2 ^ k" by (rule trans_le_add2) simp
    qed (simp add: assms(2))
    moreover have "unat n + 2 ^ k - 1 < 2 ^ 64"
      using assms(3) zero_less_power [of "2 :: nat" k] by linarith
    ultimately show ?thesis by (simp add: unsigned_of_nat take_bit_nat_eq_self)
  qed
  then show ?thesis
    by (simp add: cache_align_def r_align_def assms(2) and_minus_exp unat_push_drop)
qed

text \<open>
  \<open>posix_memalign\<close> reports an error with a positive number, so the test for a negative one never
  decides; the allocation fails only through the null pointer.
\<close>

lemma alloc_cache_align_result:
  assumes "\<And>a n. 0 \<le> fst (memalign a n)"
  shows "alloc_cache_align memalign line n =
    (if snd (memalign line (cache_align line n)) = 0 then None
     else Some (snd (memalign line (cache_align line n))))"
  using assms by (auto simp: alloc_cache_align_def not_less split: prod.split) (metis fst_conv leD)

section \<open>Rounding up to a power of two\<close>

definition pow2roundup :: "u32 \<Rightarrow> u32" where
  "pow2roundup x =
     (if x = 0 then 1
      else let x = x - 1;
               x = x OR drop_bit 1 x;
               x = x OR drop_bit 2 x;
               x = x OR drop_bit 4 x;
               x = x OR drop_bit 8 x;
               x = x OR drop_bit 16 x
           in x + 1)"

text \<open>The reference: double 1 until it is large enough.\<close>

function pow2_from :: "nat \<Rightarrow> nat \<Rightarrow> nat" where
  "pow2_from p n = (if n \<le> p \<or> p = 0 then p else pow2_from (2 * p) n)"
  by auto
termination by (relation "measure (\<lambda>(p, n). n - p)") auto

declare pow2_from.simps [simp del]

lemma pow2_from_exp:
  "j \<le> k \<Longrightarrow> n \<le> 2 ^ k \<Longrightarrow> k = j \<or> 2 ^ (k - 1) < n \<Longrightarrow> pow2_from (2 ^ j) n = 2 ^ k"
proof (induction "k - j" arbitrary: j)
  case 0
  then show ?case by (simp add: pow2_from.simps)
next
  case (Suc d)
  then have "j \<le> k - 1" "2 ^ (k - 1) < n" by auto
  moreover from this have "(2 :: nat) ^ j \<le> 2 ^ (k - 1)" by simp
  ultimately have "\<not> n \<le> 2 ^ j" by linarith
  moreover have "pow2_from (2 ^ Suc j) n = 2 ^ k"
    using Suc by (intro Suc.hyps) auto
  ultimately show ?case by (simp add: pow2_from.simps [of "2 ^ j"])
qed

text \<open>A word all of whose bits from \<open>h\<close> down are set, as a smearing step extends it.\<close>

lemma smear_step:
  fixes w x :: u32
  assumes "\<And>n. bit x n \<longleftrightarrow> (\<exists>m < s. bit w (n + m))"
  shows "bit (x OR drop_bit s x) n \<longleftrightarrow> (\<exists>m < 2 * s. bit w (n + m))"
proof
  assume "bit (x OR drop_bit s x) n"
  then have "bit x n \<or> bit x (s + n)" by (simp add: bit_or_iff bit_drop_bit_eq)
  then show "\<exists>m < 2 * s. bit w (n + m)"
  proof
    assume "bit x (s + n)"
    then obtain m where "m < s" "bit w (s + n + m)" by (auto simp: assms)
    then show ?thesis by (intro exI [of _ "s + m"]) (simp add: ac_simps)
  next
    assume "bit x n"
    then obtain m where "m < s" "bit w (n + m)" by (auto simp: assms)
    then show ?thesis by (intro exI [of _ m]) simp
  qed
next
  assume "\<exists>m < 2 * s. bit w (n + m)"
  then obtain m where m: "m < 2 * s" "bit w (n + m)" by blast
  show "bit (x OR drop_bit s x) n"
  proof (cases "m < s")
    case False
    then have "m - s < s" "bit w (s + n + (m - s))" using m by (simp_all add: ac_simps)
    then have "bit x (s + n)" by (auto simp: assms)
    then show ?thesis by (simp add: bit_or_iff bit_drop_bit_eq)
  qed (use m in \<open>auto simp: bit_or_iff assms\<close>)
qed

lemma smeared:
  fixes w :: u32
  defines "a \<equiv> w OR drop_bit 1 w"
  defines "b \<equiv> a OR drop_bit 2 a"
  defines "c \<equiv> b OR drop_bit 4 b"
  defines "d \<equiv> c OR drop_bit 8 c"
  shows "bit (d OR drop_bit 16 d) n \<longleftrightarrow> (\<exists>m < 32. bit w (n + m))"
proof -
  have 0: "bit w n \<longleftrightarrow> (\<exists>m < 1. bit w (n + m))" for n by simp
  have 1: "bit a n \<longleftrightarrow> (\<exists>m < 2. bit w (n + m))" for n
    unfolding a_def using smear_step [of w 1 w n, OF 0] by simp
  have 2: "bit b n \<longleftrightarrow> (\<exists>m < 4. bit w (n + m))" for n
    unfolding b_def using smear_step [of a 2 w n, OF 1] by simp
  have 3: "bit c n \<longleftrightarrow> (\<exists>m < 8. bit w (n + m))" for n
    unfolding c_def using smear_step [of b 4 w n, OF 2] by simp
  have 4: "bit d n \<longleftrightarrow> (\<exists>m < 16. bit w (n + m))" for n
    unfolding d_def using smear_step [of c 8 w n, OF 3] by simp
  show ?thesis using smear_step [of d 16 w n, OF 4] by simp
qed

text \<open>With \<open>h\<close> the highest bit of a number, the smeared number is all ones up to \<open>h\<close>.\<close>

lemma smeared_mask:
  fixes w y :: u32
  assumes "\<And>n. bit y n \<longleftrightarrow> (\<exists>m < 32. bit w (n + m))"
    and "2 ^ h \<le> unat w" and "unat w < 2 ^ Suc h"
  shows "y = mask (Suc h)"
proof (rule bit_word_eqI)
  fix n assume n: "n < LENGTH(32)"
  have w: "bit w k \<longleftrightarrow> odd (unat w div 2 ^ k)" for k
  proof -
    have "bit w k = bit (unat w) k" by (simp add: bit_unsigned_iff)
    also have "\<dots> = odd (unat w div 2 ^ k)" by (rule bit_iff_odd)
    finally show ?thesis .
  qed
  have "unat w div 2 ^ h = 1"
  proof (rule div_nat_eqI)
    show "2 ^ h * 1 \<le> unat w" using assms(2) by simp
    show "unat w < 2 ^ h * Suc 1" using assms(3) by simp
  qed
  then have top: "bit w h" by (simp add: w)
  have above: "\<not> bit w k" if "h < k" for k
  proof -
    have "unat w < 2 ^ k"
      using assms(3) that by (meson Suc_leI less_le_trans one_le_numeral power_increasing)
    then show ?thesis by (simp add: w)
  qed
  show "bit y n = bit (mask (Suc h) :: u32) n"
  proof (cases "n \<le> h")
    case True
    have "h < 32" using top bit_imp_le_length by fastforce
    with True top have "\<exists>m < 32. bit w (n + m)" by (intro exI [of _ "h - n"]) auto
    with True n show ?thesis by (simp add: assms(1) bit_mask_iff)
  next
    case False
    then have "\<not> bit w (n + m)" for m by (intro above) simp
    with False show ?thesis by (simp add: assms(1) bit_mask_iff)
  qed
qed

lemma pow2roundup_exp:
  assumes "1 < unat x" and "2 ^ h < unat x" and "unat x \<le> 2 ^ Suc h"
  shows "pow2roundup x = 2 ^ Suc h"
proof -
  have "x \<noteq> 0" using assms(1) by auto
  then have w: "unat (x - 1) = unat x - 1" by (simp add: unat_minus_one)
  have "2 ^ h \<le> unat (x - 1)" "unat (x - 1) < 2 ^ Suc h"
    using assms by (simp_all add: w)
  note m = smeared_mask [OF smeared [of "x - 1"] this]
  have "mask (Suc h) + 1 = (2 ^ Suc h :: u32)"
    by (simp only: mask_eq_exp_minus_1 diff_add_cancel)
  with m \<open>x \<noteq> 0\<close> show ?thesis by (simp only: pow2roundup_def Let_def if_False)
qed

text \<open>
  The bit-smearing of \<open>pow2roundup\<close> computes what its comment says, the next power of two (the
  number itself if it is one, 1 for 0), as the loop that doubles 1 until it is large enough
  does; above \<open>2^31\<close> that power does not fit in 32 bits and the result is 0.
\<close>

theorem pow2roundup_least:
  "unat (pow2roundup x) = (if 2 ^ 31 < unat x then 0 else pow2_from 1 (unat x))"
proof (cases "unat x \<le> 1")
  case True
  then have "unat x = unat (0 :: u32) \<or> unat x = unat (1 :: u32)" by auto
  then have "x = 0 \<or> x = 1" by (simp only: word_unat_eq_iff)
  moreover have "pow2_from 1 (unat x) = 1" using True by (subst pow2_from.simps) simp
  ultimately show ?thesis by (auto simp: pow2roundup_def)
next
  case False
  then have "1 \<le> unat x - 1" by simp
  from ex_power_ivl1 [OF _ this, of 2] obtain h where h: "2 ^ h \<le> unat x - 1" "unat x - 1 < 2 ^ Suc h"
    by auto
  then have x: "2 ^ h < unat x" "unat x \<le> 2 ^ Suc h" using False by auto
  have r: "pow2roundup x = 2 ^ Suc h" using x False by (intro pow2roundup_exp) auto
  have "unat x < 2 ^ 32" by (rule order_less_le_trans [OF unsigned_less]) simp
  with x(1) have "(2 :: nat) ^ h < 2 ^ 32" by linarith
  then have h32: "h < 32" by (simp only: power_strict_increasing_iff)
  show ?thesis
  proof (cases "h = 31")
    case True
    with x r show ?thesis by simp
  next
    case F: False
    then have "Suc h \<le> 31" using h32 by simp
    then have "(2 :: nat) ^ Suc h \<le> 2 ^ 31" by (intro power_increasing) simp_all
    with x(2) have "\<not> 2 ^ 31 < unat x" by linarith
    moreover have "unat ((2 :: u32) ^ Suc h) = 2 ^ Suc h"
    proof -
      have "(2 :: u32) ^ Suc h = of_nat (2 ^ Suc h)" by simp
      moreover have "(2 :: nat) ^ Suc h < 2 ^ LENGTH(32)"
        using \<open>(2 :: nat) ^ Suc h \<le> 2 ^ 31\<close> by (rule order_le_less_trans) simp
      ultimately show ?thesis by (simp only: unsigned_of_nat take_bit_nat_eq_self of_nat_id)
    qed
    moreover have "pow2_from (2 ^ 0) (unat x) = 2 ^ Suc h"
      using x by (intro pow2_from_exp) auto
    ultimately show ?thesis using r by simp
  qed
qed

section \<open>The generators\<close>

text \<open>The three words are the state; the call returns the new third one.\<close>

definition xorshf96 :: "u64 \<times> u64 \<times> u64 \<Rightarrow> u64 \<times> (u64 \<times> u64 \<times> u64)" where
  "xorshf96 s =
     (case s of (x, y, z) \<Rightarrow>
        let x = x XOR push_bit 16 x;
            x = x XOR drop_bit 5 x;
            x = x XOR push_bit 1 x;
            t = x;
            x = y;
            y = z;
            z = (t XOR x) XOR y
        in (z, (x, y, z)))"

definition getticks :: "u32 \<Rightarrow> u32 \<Rightarrow> u64" where
  "getticks lo hi = ucast lo OR push_bit 32 (ucast hi)"

definition fast_rand :: "u64 \<Rightarrow> u32" where
  "fast_rand now = ucast (drop_bit 4 (now AND 4294967295))"

lemma getticks_same: "getticks = htll_getticks"
  by (simp add: fun_eq_iff getticks_def htll_getticks_def)

lemma xor_push_inj:
  assumes "0 < k" and "(x :: u64) XOR push_bit k x = y XOR push_bit k y"
  shows "x = y"
proof (rule bit_word_eqI)
  have step: "bit x n = bit y n" if "n < k \<or> bit x (n - k) = bit y (n - k)" "n < 64" for n
  proof -
    have "bit (x XOR push_bit k x) n = bit (y XOR push_bit k y) n" by (simp only: assms(2))
    then show ?thesis using that by (auto simp: bit_xor_iff bit_push_bit_iff)
  qed
  show "bit x n = bit y n" if "n < LENGTH(64)" for n
    using that
  proof (induction n rule: less_induct)
    case (less n)
    show ?case
    proof (rule step)
      have "n - k < n" if "\<not> n < k" using that assms(1) by linarith
      then show "n < k \<or> bit x (n - k) = bit y (n - k)"
        using less.IH [of "n - k"] less.prems by (cases "n < k") simp_all
    qed (use less.prems in simp)
  qed
qed

lemma xor_drop_inj:
  assumes "0 < k" and "(x :: u64) XOR drop_bit k x = y XOR drop_bit k y"
  shows "x = y"
proof (rule bit_word_eqI)
  have step: "bit x n = bit y n" if "bit x (k + n) = bit y (k + n)" for n
  proof -
    have "bit (x XOR drop_bit k x) n = bit (y XOR drop_bit k y) n" by (simp only: assms(2))
    then show ?thesis using that by (auto simp: bit_xor_iff bit_drop_bit_eq)
  qed
  show "bit x n = bit y n" for n
  proof (induction "64 - n" arbitrary: n rule: less_induct)
    case less
    show ?case
    proof (cases "n < 64")
      case True
      then have "64 - (k + n) < 64 - n" using assms(1) by linarith
      then show ?thesis by (rule step [OF less.hyps])
    next
      case False
      then show ?thesis using bit_imp_le_length [of x n] bit_imp_le_length [of y n] by auto
    qed
  qed
qed

text \<open>
  The generator is a permutation of its states, so a seed that is not all zeros never reaches
  the fixed point of zeros.
\<close>

lemma xor_mid_cancel: "((t :: u64) XOR x) XOR y = (u XOR x) XOR y \<longleftrightarrow> t = u"
proof
  assume "(t XOR x) XOR y = (u XOR x) XOR y"
  then have "((t XOR x) XOR y) XOR y XOR x = ((u XOR x) XOR y) XOR y XOR x" by (rule arg_cong)
  then show "t = u" by (simp add: xor.assoc)
qed simp

lemma xorshf96_inj:
  assumes "snd (xorshf96 s) = snd (xorshf96 s')"
  shows "s = s'"
proof -
  obtain x y z x' y' z' where s: "s = (x, y, z)" "s' = (x', y', z')" by (cases s; cases s')
  define a where "a v = v XOR push_bit 16 v" for v :: u64
  define b where "b v = v XOR drop_bit 5 v" for v :: u64
  define c where "c v = v XOR push_bit 1 v" for v :: u64
  have eq: "snd (xorshf96 (v, u, w)) = (u, w, (c (b (a v)) XOR u) XOR w)" for v u w
    by (simp only: xorshf96_def Let_def prod.case a_def b_def c_def snd_conv)
  from assms [unfolded s eq prod.inject] have p: "y = y'" "z = z'" "(c (b (a x)) XOR y) XOR z = (c (b (a x')) XOR y') XOR z'"
    by blast+
  from p(3) have "c (b (a x)) = c (b (a x'))" by (simp only: p(1,2) xor_mid_cancel)
  moreover have "c v = c u \<Longrightarrow> v = u" for v u
    unfolding c_def by (rule xor_push_inj [of 1]) simp_all
  moreover have "b v = b u \<Longrightarrow> v = u" for v u
    unfolding b_def by (rule xor_drop_inj [of 5]) simp_all
  moreover have "a v = a u \<Longrightarrow> v = u" for v u
    unfolding a_def by (rule xor_push_inj [of 16]) simp_all
  ultimately have "x = x'" by blast
  with p show ?thesis by (simp add: s)
qed

lemma xorshf96_zero: "snd (xorshf96 s) = (0, 0, 0) \<longleftrightarrow> s = (0, 0, 0)"
proof
  have "snd (xorshf96 (0, 0, 0)) = (0, 0, 0)" by (simp add: xorshf96_def)
  then show "snd (xorshf96 s) = (0, 0, 0) \<Longrightarrow> s = (0, 0, 0)" by (metis xorshf96_inj)
qed (simp add: xorshf96_def)

end
