(* ===== verification/Calibration.thy ===== *)
theory Calibration
  imports Utils "HOL-Library.Log_Nat"
begin

text \<open>
  The part of \<open>include/utils.h\<close> that measures and passes time: the delay loops, the two
  calibrations and the random range, with their double-precision arithmetic. A clock is the
  sequence of its readings. A \<open>double\<close> is the rational number it stands for, and every
  operation rounds its exact result to 53 bits, to nearest with ties to even, as IEEE 754
  says; the values here are far from the ends of the exponent range.
\<close>

section \<open>Double-precision arithmetic\<close>

definition round_half_even :: "rat \<Rightarrow> int" where
  "round_half_even x =
     (let n = \<lfloor>x\<rfloor>; f = x - of_int n
      in if f < 1 / 2 \<or> (f = 1 / 2 \<and> even n) then n else n + 1)"

text \<open>The exponent of the power of two at or below a positive number.\<close>

definition binade :: "rat \<Rightarrow> int" where
  "binade x =
     (let (a, b) = quotient_of x; e = bitlen a - bitlen b
      in if 2 powi e \<le> x then e else e - 1)"

definition fl :: "rat \<Rightarrow> rat" where
  "fl x =
     (if x = 0 then 0
      else let u = 2 powi (binade \<bar>x\<bar> - 52) in of_int (round_half_even (x / u)) * u)"

text \<open>The conversion of a \<open>double\<close> to an integer type cuts the fraction off.\<close>

definition trunc :: "rat \<Rightarrow> int" where
  "trunc x = (if 0 \<le> x then \<lfloor>x\<rfloor> else \<lceil>x\<rceil>)"

lemma round_half_even_int [simp]: "round_half_even (of_int n) = n"
  by (simp add: round_half_even_def)

lemma round_half_even_error: "\<bar>of_int (round_half_even x) - x\<bar> \<le> 1 / 2"
proof -
  have "of_int \<lfloor>x\<rfloor> \<le> x" "x < of_int \<lfloor>x\<rfloor> + 1" by linarith+
  then show ?thesis unfolding round_half_even_def Let_def by (cases "x - of_int \<lfloor>x\<rfloor> < 1 / 2") auto
qed

lemma round_half_even_ge: "of_int n \<le> x \<Longrightarrow> n \<le> round_half_even x"
  unfolding round_half_even_def Let_def by (simp add: le_floor_iff) linarith

lemma binade_bounds:
  assumes "0 < x"
  shows "2 powi binade x \<le> x"
proof -
  obtain a b where q: "quotient_of x = (a, b)" by (cases "quotient_of x")
  have b: "0 < b" and x: "x = of_int a / of_int b"
    using quotient_of_denom_pos [OF q] quotient_of_div [OF q] by simp_all
  with assms have a: "0 < a" by (simp add: zero_less_divide_iff)
  define m n where "m = nat (bitlen a)" and "n = nat (bitlen b)"
  have "m - 1 = nat (bitlen a - 1)" by (simp add: m_def nat_diff_distrib' bitlen_nonneg)
  then have "2 ^ (m - 1) \<le> a" "b < 2 ^ n"
    using bitlen_bounds [OF a] bitlen_bounds [OF b] \<open>m - 1 = nat (bitlen a - 1)\<close> by (simp_all add: n_def)
  moreover have "0 < m" "0 < n" "int m = bitlen a" "int n = bitlen b"
    using a b bitlen_nonneg [of a] bitlen_nonneg [of b] bitlen_eq_zero_iff [of a] bitlen_eq_zero_iff [of b]
    by (auto simp: m_def n_def)
  ultimately have "(2 :: rat) ^ (m - 1) \<le> of_int a" "of_int b \<le> (2 :: rat) ^ n"
    by (metis of_int_le_iff of_int_numeral of_int_power, metis less_imp_le of_int_le_iff of_int_numeral of_int_power)
  then have "(2 :: rat) ^ (m - 1) / 2 ^ n \<le> x" using a b by (simp add: x frac_le)
  moreover have "bitlen a - bitlen b - 1 = int (m - 1) - int n"
    using \<open>0 < m\<close> \<open>int m = bitlen a\<close> \<open>int n = bitlen b\<close> by linarith
  then have "(2 :: rat) ^ (m - 1) / 2 ^ n = 2 powi (bitlen a - bitlen b - 1)"
    by (simp only:) (subst power_int_diff, simp_all)
  ultimately show ?thesis by (simp add: binade_def q Let_def)
qed

lemma fl_error:
  assumes "0 < x"
  shows "\<bar>fl x - x\<bar> \<le> x / 2 ^ 53"
proof -
  define u where "u = (2 :: rat) powi (binade x - 52)"
  have u: "0 < u" "u * 2 ^ 52 \<le> x"
    using binade_bounds [OF assms] by (simp_all add: u_def power_int_diff)
  have "\<bar>fl x - x\<bar> = \<bar>of_int (round_half_even (x / u)) - x / u\<bar> * u"
    using assms u(1) by (simp add: fl_def u_def [symmetric] Let_def abs_mult_pos left_diff_distrib)
  also have "\<dots> \<le> 1 / 2 * u"
    using u(1) by (intro mult_right_mono round_half_even_error) simp
  also have "\<dots> \<le> x / 2 ^ 53" using u(2) by simp
  finally show ?thesis .
qed

text \<open>Below \<open>2^53\<close> the spacing of doubles divides 1, so rounding does not cross an integer from above.\<close>

lemma fl_ge_int:
  assumes "of_int n \<le> x" and "0 < x" and "x < 2 ^ 53"
  shows "of_int n \<le> fl x"
proof -
  define k where "k = nat (52 - binade x)"
  have "(2 :: rat) powi binade x < 2 powi 53" using binade_bounds [OF assms(2)] assms(3) by simp
  then have "binade x < 53" by (meson not_less one_le_numeral power_int_increasing)
  then have u: "(2 :: rat) powi (binade x - 52) = 1 / 2 ^ k"
    by (simp add: k_def power_int_def field_simps)
  have "of_int (n * 2 ^ k) \<le> x * 2 ^ k" using assms(1) by (simp add: mult_right_mono)
  then have "n * 2 ^ k \<le> round_half_even (x * 2 ^ k)" by (rule round_half_even_ge)
  then have "of_int (n * 2 ^ k) \<le> (of_int (round_half_even (x * 2 ^ k)) :: rat)" by (simp only: of_int_le_iff)
  then have "of_int n * 2 ^ k \<le> (of_int (round_half_even (x * 2 ^ k)) :: rat)" by simp
  then have "of_int n \<le> of_int (round_half_even (x * 2 ^ k)) / (2 :: rat) ^ k" by (simp add: field_simps)
  with assms(2) show ?thesis by (simp add: fl_def u)
qed

text \<open>A quotient of two integers below \<open>2^53\<close>, computed in doubles and cut off, is their integer quotient.\<close>

lemma trunc_fl_quotient:
  assumes "a < 2 ^ 53" and "0 < b"
  shows "trunc (fl (of_nat a / of_nat b)) = int (a div b)"
proof (cases "a = 0")
  case True
  then show ?thesis by (simp add: fl_def trunc_def)
next
  case False
  let ?x = "of_nat a / of_nat b :: rat" and ?q = "int (a div b)"
  have x: "0 < ?x" using False assms(2) by simp
  have "of_nat a * 1 \<le> (of_nat a * of_nat b :: rat)" using assms(2) by (intro mult_left_mono) simp_all
  then have "?x \<le> of_nat a" using assms(2) by (simp add: divide_le_eq)
  moreover have a: "(of_nat a :: rat) < 2 ^ 53" using assms(1) by (metis of_nat_less_iff of_nat_numeral of_nat_power)
  ultimately have x53: "?x < 2 ^ 53" by simp
  have ab: "of_nat a = of_nat (a div b) * of_nat b + (of_nat (a mod b) :: rat)"
    by (simp flip: of_nat_mult of_nat_add)
  have q: "of_int ?q \<le> ?x" using assms(2) by (simp add: le_divide_eq ab)
  have "a mod b + 1 \<le> b" using assms(2) by (simp add: Suc_le_eq)
  then have "of_nat (a mod b + 1) \<le> (of_nat b :: rat)" by (simp only: of_nat_le_iff)
  then have "?x + 1 / of_nat b \<le> of_int ?q + 1"
    using assms(2) by (simp add: field_simps ab)
  moreover have "?x / 2 ^ 53 < 1 / of_nat b" using a assms(2) by (simp add: field_simps)
  moreover have "fl ?x \<le> ?x + ?x / 2 ^ 53" using fl_error [OF x] by linarith
  ultimately have "fl ?x < of_int ?q + 1" by linarith
  moreover have "of_int ?q \<le> fl ?x" by (rule fl_ge_int [OF q x x53])
  ultimately have "\<lfloor>fl ?x\<rfloor> = ?q" by (simp add: floor_eq_iff)
  moreover have "0 \<le> fl ?x" using \<open>of_int ?q \<le> fl ?x\<close> by (rule order_trans [rotated]) simp
  ultimately show ?thesis by (simp add: trunc_def)
qed

text \<open>Integers up to 53 bits, and their products with powers of two, are doubles.\<close>

lemma fl_exact:
  assumes "0 < n" and "n < 2 ^ 53"
  shows "fl (of_nat n * 2 powi k) = of_nat n * 2 powi k"
proof -
  let ?x = "of_nat n * 2 powi k :: rat"
  define e where "e = binade ?x"
  have x: "0 < ?x" using assms(1) by simp
  have "(of_nat n :: rat) < 2 ^ 53" using assms(2) by (metis of_nat_less_iff of_nat_numeral of_nat_power)
  then have "?x < 2 ^ 53 * 2 powi k" by (rule mult_strict_right_mono) simp
  also have "(2 :: rat) ^ 53 * 2 powi k = 2 powi (53 + k)" by (simp add: power_int_add)
  finally have "(2 :: rat) powi e < 2 powi (53 + k)" using binade_bounds [OF x] by (simp add: e_def)
  then have "e < 53 + k" by (meson not_less one_le_numeral power_int_increasing)
  then have "(2 :: rat) powi (k - (e - 52)) = 2 ^ nat (k + 52 - e)"
    by (simp add: power_int_def algebra_simps)
  then have "(2 :: rat) powi k / 2 powi (e - 52) = 2 ^ nat (k + 52 - e)"
    by (subst (asm) power_int_diff) simp_all
  then have "?x / 2 powi (e - 52) = of_int (int n * 2 ^ nat (k + 52 - e))"
    by (simp only: times_divide_eq_right [symmetric] of_int_mult of_int_power of_int_of_nat_eq of_int_numeral)
  moreover from this have "round_half_even (?x / 2 powi (e - 52)) = int n * 2 ^ nat (k + 52 - e)"
    by (simp only: round_half_even_int)
  ultimately have "of_int (round_half_even (?x / 2 powi (e - 52))) * 2 powi (e - 52) = ?x"
    by (auto simp: field_simps)
  then show ?thesis using x by (simp add: fl_def e_def [symmetric] Let_def)
qed

lemma fl_nat: "n < 2 ^ 53 \<Longrightarrow> fl (of_nat n) = of_nat n"
  using fl_exact [of n 0] by (cases "n = 0") (simp_all add: fl_def)

section \<open>Passing time\<close>

text \<open>\<open>for (i = 0; i < n; i++)\<close> around an instruction without effect; the value is how often it ran.\<close>

lemma unat_step: "i < n \<Longrightarrow> unat (i + 1) = Suc (unat i)" for i n :: "'w::len word"
proof -
  assume "i < n"
  then have "unat i < unat n" by (simp add: word_less_nat_alt)
  then have "unat i + 1 < 2 ^ LENGTH('w)" by (metis Suc_eq_plus1 less_trans_Suc unsigned_less le_less_trans Suc_leI)
  then show ?thesis by (simp add: unat_word_ariths)
qed

function rep_loop :: "'w::len word \<Rightarrow> 'w word \<Rightarrow> nat \<Rightarrow> nat" where
  "rep_loop i n done = (if i < n then rep_loop (i + 1) n (done + 1) else done)"
  by auto

termination
  by (relation "measure (\<lambda>(i, n, _). unat n - unat i)")
    (simp_all add: unat_step word_less_nat_alt diff_less_mono2)

definition nop_rep :: "u32 \<Rightarrow> nat" where
  "nop_rep num_reps = rep_loop 0 num_reps 0"

definition pause_rep :: "u32 \<Rightarrow> nat" where
  "pause_rep num_reps = rep_loop 0 num_reps 0"

definition cpause :: "bool \<Rightarrow> u64 \<Rightarrow> nat" where
  "cpause xeon cycles = rep_loop 0 (if xeon then drop_bit 3 cycles else cycles) 0"

text \<open>A loop that reads the clock until it has reached \<open>e\<close>: the readings left, if it ends within them.\<close>

fun read_until :: "'t::linorder \<Rightarrow> 't list \<Rightarrow> 't list option" where
  "read_until e [] = None"
| "read_until e (t # ts) = (if t < e then read_until e ts else Some ts)"

fun cdelay :: "u64 \<Rightarrow> u64 list \<Rightarrow> u64 list option" where
  "cdelay cycles [] = None"
| "cdelay cycles (t # ts) = read_until (t + cycles) ts"

text \<open>\<open>gettimeofday\<close> gives seconds and microseconds.\<close>

definition wtime :: "int \<times> int \<Rightarrow> rat" where
  "wtime t = fl (fl (of_int (fst t)) + fl (fl (of_int (snd t)) / 1000000))"

fun udelay :: "u32 \<Rightarrow> (int \<times> int) list \<Rightarrow> rat list option" where
  "udelay micros [] = None"
| "udelay micros (t # ts) =
     read_until (fl (wtime t + fl (fl (of_nat (unat micros)) / 1000000))) (map wtime ts)"

declare rep_loop.simps [simp del]

text \<open>The counting loops run as often as they are told to; \<open>cpause\<close> on a Xeon one time in eight.\<close>

lemma rep_loop_count: "rep_loop i n d = d + (unat n - unat i)"
  by (induction i n d rule: rep_loop.induct)
    (subst rep_loop.simps, auto simp: unat_step word_less_nat_alt)

lemma rep_counts:
  "nop_rep n = unat n" "pause_rep n = unat n" "cpause False c = unat c" "cpause True c = unat c div 8"
  by (simp_all add: nop_rep_def pause_rep_def cpause_def rep_loop_count unat_drop_bit_eq) (simp add: drop_bit_eq_div)

text \<open>
  A delay ends with the first reading that has reached its end, and only then; if the end
  wraps around, that can be the first reading of all.
\<close>

lemma read_until_iff:
  "read_until e ts = Some rest \<longleftrightarrow> (\<exists>early t. ts = early @ t # rest \<and> (\<forall>x \<in> set early. x < e) \<and> e \<le> t)"
proof (induction ts)
  case (Cons a ts)
  show ?case
  proof (cases "a < e")
    case True
    then show ?thesis using Cons.IH by (auto simp: Cons_eq_append_conv not_le)
  next
    case False
    then show ?thesis by (auto simp: Cons_eq_append_conv not_less)
  qed
qed simp

lemma cdelay_waits:
  assumes "cdelay cycles (t # ts) = Some rest" and "unat t + unat cycles < 2 ^ 64"
  shows "\<exists>early e. ts = early @ e # rest \<and> unat t + unat cycles \<le> unat e \<and>
    (\<forall>x \<in> set early. unat x < unat t + unat cycles)"
proof -
  have "unat (t + cycles) = unat t + unat cycles" using assms(2) by (simp add: unat_word_ariths)
  with assms(1) show ?thesis by (auto simp: read_until_iff word_less_nat_alt word_le_nat_alt)
qed

lemma cdelay_wraps: "cdelay (- 1) [5, 5] = Some []"
  by simp

section \<open>The calibrations\<close>

text \<open>\<open>now i\<close> is the \<open>i\<close>-th reading of the clock. The loop adds the differences of pairs of readings.\<close>

definition GETTICKS_CALC_REPS :: nat where "GETTICKS_CALC_REPS = 5000000"
definition NOOP_CALC_REPS :: nat where "NOOP_CALC_REPS = 1000000"

fun pair_durations :: "(nat \<Rightarrow> u64) \<Rightarrow> nat \<Rightarrow> nat \<Rightarrow> u64 \<Rightarrow> u64" where
  "pair_durations now i 0 t_dur = t_dur"
| "pair_durations now i (Suc n) t_dur =
     (let t_start = now (2 * i); t_end = now (2 * i + 1)
      in pair_durations now (Suc i) n (t_dur + (t_end - t_start)))"

definition getticks_correction_calc :: "(nat \<Rightarrow> u64) \<Rightarrow> u64" where
  "getticks_correction_calc now =
     (let t_dur = pair_durations now 0 GETTICKS_CALC_REPS 0
      in of_int (trunc (fl (fl (of_nat (unat t_dur)) / of_nat GETTICKS_CALC_REPS))))"

definition get_noop_duration :: "(nat \<Rightarrow> u64) \<Rightarrow> u64" where
  "get_noop_duration now =
     (let corr = getticks_correction_calc now;
          start = now (2 * GETTICKS_CALC_REPS);
          stop = now (2 * GETTICKS_CALC_REPS + 1)
      in of_int (trunc (fl (fl (of_nat (unat (stop - start - corr))) / of_nat NOOP_CALC_REPS))))"

lemma pair_durations_const:
  assumes "\<And>j. i \<le> j \<Longrightarrow> j < i + n \<Longrightarrow> now (2 * j + 1) = now (2 * j) + c"
  shows "pair_durations now i n t = t + of_nat n * c"
  using assms
proof (induction n arbitrary: i t)
  case (Suc n)
  have "now (2 * i + 1) = now (2 * i) + c" by (rule Suc.prems) simp_all
  moreover have "pair_durations now (Suc i) n (t + c) = t + c + of_nat n * c"
    by (intro Suc.IH Suc.prems) simp_all
  ultimately show ?case by (simp add: algebra_simps)
qed simp

text \<open>
  If reading the clock costs the same \<open>c\<close> cycles (less than \<open>2^30\<close>) every time, the correction is
  \<open>c\<close>, and the measured duration of a no-op is the cycles per no-op, rounded down, of a run of
  a million of them.
\<close>

lemma correction_exact:
  assumes "\<And>i. i < GETTICKS_CALC_REPS \<Longrightarrow> now (2 * i + 1) = now (2 * i) + c" and "unat c < 2 ^ 30"
  shows "getticks_correction_calc now = c"
proof -
  have c: "GETTICKS_CALC_REPS * unat c < 2 ^ 53" using assms(2) by (simp add: GETTICKS_CALC_REPS_def)
  then have "unat (of_nat GETTICKS_CALC_REPS * c) = GETTICKS_CALC_REPS * unat c"
    by (simp add: unat_word_ariths GETTICKS_CALC_REPS_def)
  then have "unat (pair_durations now 0 GETTICKS_CALC_REPS 0) = GETTICKS_CALC_REPS * unat c"
    using pair_durations_const [of 0 GETTICKS_CALC_REPS now c 0] assms(1) by simp
  moreover have "trunc (fl (of_nat (GETTICKS_CALC_REPS * unat c) / of_nat GETTICKS_CALC_REPS)) = int (unat c)"
    using trunc_fl_quotient [OF c, of GETTICKS_CALC_REPS] by (simp add: GETTICKS_CALC_REPS_def)
  ultimately show ?thesis
    unfolding getticks_correction_calc_def Let_def by (simp only: fl_nat [OF c] of_int_of_nat_eq) simp
qed

lemma noop_duration_value:
  assumes "getticks_correction_calc now = c"
    and "now (2 * GETTICKS_CALC_REPS + 1) - now (2 * GETTICKS_CALC_REPS) - c = w"
  shows "get_noop_duration now = of_int (trunc (fl (fl (of_nat (unat w)) / of_nat NOOP_CALC_REPS)))"
  using assms by (simp only: get_noop_duration_def Let_def)

lemma noop_duration_floor:
  assumes "\<And>i. i < GETTICKS_CALC_REPS \<Longrightarrow> now (2 * i + 1) = now (2 * i) + c" and "unat c < 2 ^ 30"
    and "now (2 * GETTICKS_CALC_REPS + 1) = now (2 * GETTICKS_CALC_REPS) + c + d" and "unat d < 2 ^ 53"
  shows "unat (get_noop_duration now) = unat d div NOOP_CALC_REPS"
proof -
  have "now (2 * GETTICKS_CALC_REPS + 1) - now (2 * GETTICKS_CALC_REPS) - c = d" using assms(3) by simp
  moreover have "getticks_correction_calc now = c" by (rule correction_exact [OF _ assms(2)]) (rule assms(1))
  ultimately have "get_noop_duration now = of_nat (unat d div NOOP_CALC_REPS)"
    by (simp only: noop_duration_value fl_nat [OF assms(4)] trunc_fl_quotient [OF assms(4)] NOOP_CALC_REPS_def) simp
  moreover have "unat d div NOOP_CALC_REPS < 2 ^ 64"
    using assms(4) by (intro le_less_trans [OF div_le_dividend]) simp
  ultimately show ?thesis by (simp add: unsigned_of_nat take_bit_nat_eq_self)
qed

text \<open>
  The correction does not fit every run: a measured span shorter than it wraps around, and the
  no-op then seems to take more than \<open>10^13\<close> cycles.
\<close>

lemma noop_duration_wraps:
  "get_noop_duration (\<lambda>i. if even i then 0 else if i = 2 * GETTICKS_CALC_REPS + 1 then 9 else 10) = 18446744073709"
  (is "get_noop_duration ?now = _")
proof -
  have corr: "getticks_correction_calc ?now = 10" by (rule correction_exact) simp_all
  have span: "?now (2 * GETTICKS_CALC_REPS + 1) - ?now (2 * GETTICKS_CALC_REPS) - 10 = - 1" by simp
  have w: "unat (- 1 :: u64) = 18446744073709551615" by (simp add: unsigned_minus_1_eq_mask mask_eq_exp_minus_1)
  let ?x = "18446744073709551615 :: rat" and ?y = "fl 18446744073709551615 / 1000000"
  have x: "\<bar>fl ?x - ?x\<bar> \<le> 2048" by (rule order_trans [OF fl_error]) simp_all
  then have "\<bar>fl ?y - ?y\<bar> \<le> ?y / 2 ^ 53" by (intro fl_error) simp
  then have "fl ?y \<le> ?y + ?y / 2 ^ 53" "?y - ?y / 2 ^ 53 \<le> fl ?y" by linarith+
  with x have "18446744073709 \<le> fl ?y" "fl ?y < 18446744073710" by (simp_all add: abs_le_iff)
  then have "trunc (fl ?y) = 18446744073709" by (simp add: trunc_def floor_eq_iff)
  then show ?thesis
    unfolding noop_duration_value [OF corr span] w NOOP_CALC_REPS_def of_nat_numeral by simp
qed

section \<open>The random range\<close>

text \<open>\<open>rand i\<close> is the \<open>i\<close>-th value of \<open>rand()\<close>; the second result counts the calls.\<close>

definition RAND_MAX :: int where "RAND_MAX = 2147483647"

definition draw :: "int \<Rightarrow> int \<Rightarrow> int" where
  "draw d k = 1 + trunc (fl (fl (of_int d) * fl (fl (of_int k) / fl (fl (of_int RAND_MAX) + 1))))"

function rand_loop :: "(nat \<Rightarrow> int) \<Rightarrow> nat \<Rightarrow> int \<Rightarrow> int \<Rightarrow> int \<times> nat" where
  "rand_loop rand i r v =
     (let d = (if RAND_MAX > r then r else RAND_MAX);
          v = v + draw d (rand i);
          r = r - RAND_MAX
      in if r > 0 then rand_loop rand (Suc i) r v else (v, Suc i))"
  by auto

termination
  by (relation "measure (\<lambda>(_, _, r, _). nat r)") (simp_all add: RAND_MAX_def)

declare rand_loop.simps [simp del]

definition rand_range :: "(nat \<Rightarrow> int) \<Rightarrow> int \<Rightarrow> int" where
  "rand_range rand r = fst (rand_loop rand 0 r 0)"

lemma fl_int: "0 \<le> n \<Longrightarrow> n < 2 ^ 53 \<Longrightarrow> fl (of_int n) = of_int n"
  using fl_nat [of "nat n"] by simp

lemma draw_exact_operands:
  assumes "0 < d" and "d \<le> RAND_MAX" and "0 \<le> k" and "k \<le> RAND_MAX"
  shows "draw d k = 1 + trunc (fl (of_int (d * k) / 2147483648))"
proof -
  have "fl (of_int d) = of_int d" "fl (of_int k) = of_int k" "fl (of_int RAND_MAX) = of_int RAND_MAX"
    "fl (of_int (RAND_MAX + 1)) = of_int (RAND_MAX + 1)"
    using assms by (intro fl_int; simp add: RAND_MAX_def)+
  moreover have "of_int (RAND_MAX + 1) = of_int RAND_MAX + (1 :: rat)" "of_int (RAND_MAX + 1) = (2147483648 :: rat)"
    by (simp_all add: RAND_MAX_def)
  moreover have "fl (of_int k / 2147483648) = of_int k / 2147483648"
  proof (cases "k = 0")
    case False
    have "2 powi - 31 = (1 / 2147483648 :: rat)" by (simp add: power_int_minus)
    with fl_exact [of "nat k" "- 31"] False assms(3,4) show ?thesis by (simp add: RAND_MAX_def)
  qed (simp add: fl_def)
  ultimately show ?thesis by (simp only: draw_def times_divide_eq_right of_int_mult)
qed

lemma near_below:
  fixes y d f :: rat
  assumes "0 < y" and "y \<le> d * 2147483647 / 2147483648" and "\<bar>f - y\<bar> \<le> y / 2 ^ 53"
  shows "0 \<le> f" and "f < d"
proof -
  have "f \<le> y + y / 2 ^ 53" "y - y / 2 ^ 53 \<le> f" using assms(3) by linarith+
  then show "0 \<le> f" "f < d" using assms(1,2) by simp_all
qed

text \<open>One draw stays in its range whatever the rounding does, and is exact for small ranges.\<close>

lemma draw_range:
  assumes "0 < d" and "d \<le> RAND_MAX" and "0 \<le> k" and "k \<le> RAND_MAX"
  shows "1 \<le> draw d k" and "draw d k \<le> d"
proof -
  let ?y = "of_int (d * k) / 2147483648 :: rat"
  have "0 \<le> fl ?y \<and> fl ?y < of_int d"
  proof (cases "k = 0")
    case True
    then show ?thesis using assms(1) by (simp add: fl_def)
  next
    case False
    then have y: "0 < ?y" using assms by simp
    have "d * k \<le> d * 2147483647" using assms by (intro mult_left_mono) (simp_all add: RAND_MAX_def)
    then have "of_int (d * k) \<le> (of_int (d * 2147483647) :: rat)" by (simp only: of_int_le_iff)
    then have "?y \<le> of_int d * 2147483647 / 2147483648" by simp
    from near_below [OF y this fl_error [OF y]] show ?thesis by blast
  qed
  then show "1 \<le> draw d k" "draw d k \<le> d"
    by (auto simp: draw_exact_operands [OF assms] trunc_def simp flip: floor_less_iff)
qed

lemma draw_exact:
  assumes "0 < d" and "d \<le> 2 ^ 22" and "0 \<le> k" and "k \<le> RAND_MAX"
  shows "draw d k = 1 + d * k div 2147483648"
proof -
  have "d * k \<le> 2 ^ 22 * RAND_MAX" using assms by (intro mult_mono) simp_all
  then have n: "nat (d * k) < 2 ^ 53" by (simp add: RAND_MAX_def nat_less_iff)
  have dk: "of_nat (nat (d * k)) = (of_int (d * k) :: rat)" "0 \<le> d * k" using assms(1,3) by simp_all
  have "d \<le> RAND_MAX" using assms(2) by (simp add: RAND_MAX_def)
  from draw_exact_operands [OF assms(1) this assms(3,4)]
  show ?thesis using trunc_fl_quotient [OF n, of 2147483648] dk by (simp add: zdiv_int)
qed

text \<open>
  \<open>rand_range r\<close> lies between the number of calls of \<open>rand()\<close> it makes, one for every started
  \<open>RAND_MAX\<close> of the range, and \<open>r\<close>.
\<close>

lemma rand_loop_bounds:
  assumes "\<And>i. 0 \<le> rand i \<and> rand i \<le> RAND_MAX" and "0 < r" and "rand_loop rand i r v = (w, j)"
  shows "int j = int i + (r - 1) div RAND_MAX + 1 \<and> v + int j - int i \<le> w \<and> w \<le> v + r"
  using assms
proof (induction rand i r v rule: rand_loop.induct)
  case (1 rand i r v)
  let ?d = "if RAND_MAX > r then r else RAND_MAX"
  have d: "1 \<le> draw ?d (rand i)" "draw ?d (rand i) \<le> ?d"
    using 1(2,3) by (auto intro!: draw_range simp: RAND_MAX_def)
  show ?case
  proof (cases "r - RAND_MAX > 0")
    case True
    have "(r - 1) div RAND_MAX = (r - RAND_MAX - 1 + RAND_MAX) div RAND_MAX" by simp
    also have "\<dots> = (r - RAND_MAX - 1) div RAND_MAX + 1" by (subst div_add_self2) (simp_all add: RAND_MAX_def)
    finally have q: "(r - 1) div RAND_MAX = (r - RAND_MAX - 1) div RAND_MAX + 1" .
    have "rand_loop rand (Suc i) (r - RAND_MAX) (v + draw ?d (rand i)) = (w, j)"
      using 1(4) True by (subst (asm) rand_loop.simps) (simp add: Let_def)
    from 1(1) [OF refl refl refl True 1(2) True this] q d True show ?thesis by simp
  next
    case False
    then have "(r - 1) div RAND_MAX = 0" using 1(3) by (simp add: RAND_MAX_def)
    moreover have "(w, j) = (v + draw ?d (rand i), Suc i)"
      using 1(4) False by (subst (asm) rand_loop.simps) (simp add: Let_def)
    ultimately show ?thesis using d False by (auto split: if_splits)
  qed
qed

lemma rand_range_bounds:
  assumes "\<And>i. 0 \<le> rand i \<and> rand i \<le> RAND_MAX" and "0 < r"
  shows "1 + (r - 1) div RAND_MAX \<le> rand_range rand r" and "rand_range rand r \<le> r"
proof -
  obtain w j where run: "rand_loop rand 0 r 0 = (w, j)" by (cases "rand_loop rand 0 r 0")
  with rand_loop_bounds [OF assms run] show "1 + (r - 1) div RAND_MAX \<le> rand_range rand r" "rand_range rand r \<le> r"
    by (simp_all add: rand_range_def)
qed

text \<open>The comment promises a value below the range; the range itself can be drawn.\<close>

lemma rand_range_reaches_range: "rand_range (\<lambda>_. RAND_MAX) 6 = 6 \<and> rand_range (\<lambda>_. RAND_MAX) 1 = 1"
  by (simp add: rand_range_def rand_loop.simps draw_exact RAND_MAX_def Let_def)

end
