(* ===== verification/Platform.thy ===== *)
theory Platform
  imports Prelude
begin

text \<open>
  \<open>include/platform_defs.h\<close>: the constants and core tables of the machines the header knows, one
  record per machine, chosen at compile time; \<open>get_cluster\<close>; and the core tables of
  \<open>bench/bench_block.c\<close>. \<open>CORE_NUM\<close> of the default machine comes from the build and is an
  argument. No compiled file reads the tables.
\<close>

section \<open>The machines\<close>

record platform =
  number_of_sockets :: nat
  cores_per_socket :: nat
  cache_line_size :: nat
  nop_duration :: nat
  the_cores :: "nat list"
  the_sockets :: "nat list option"

definition platform_default :: "nat \<Rightarrow> platform" where
  "platform_default core_num = \<lparr>number_of_sockets = 1, cores_per_socket = core_num, cache_line_size = 64,
    nop_duration = 2,
    the_cores =
      [0, 1, 2, 3, 4, 5, 6, 7,
       8, 9, 10, 11, 12, 13, 14, 15,
       16, 17, 18, 19, 20, 21, 22, 23,
       24, 25, 26, 27, 28, 29, 30, 31,
       32, 33, 34, 35, 36, 37, 38, 39,
       40, 41, 42, 43, 44, 45, 46, 47],
    the_sockets = None\<rparr>"

definition platform_sparc :: "platform" where
  "platform_sparc = \<lparr>number_of_sockets = 8, cores_per_socket = 8, cache_line_size = 64,
    nop_duration = 9,
    the_cores =
      [0, 8, 16, 24, 32, 40, 48, 56,
       1, 9, 17, 25, 33, 41, 49, 57,
       2, 10, 18, 26, 34, 42, 50, 58,
       3, 11, 19, 27, 35, 43, 51, 59,
       4, 12, 20, 28, 36, 44, 52, 60,
       5, 13, 21, 29, 37, 45, 53, 61,
       6, 14, 22, 30, 38, 46, 54, 62,
       7, 15, 23, 31, 39, 47, 55, 63],
    the_sockets = Some
      [0, 0, 0, 0, 0, 0, 0, 0,
       1, 1, 1, 1, 1, 1, 1, 1,
       2, 2, 2, 2, 2, 2, 2, 2,
       3, 3, 3, 3, 3, 3, 3, 3,
       4, 4, 4, 4, 4, 4, 4, 4,
       5, 5, 5, 5, 5, 5, 5, 5,
       6, 6, 6, 6, 6, 6, 6, 6,
       7, 7, 7, 7, 7, 7, 7, 7]\<rparr>"

definition platform_sparc_plain :: "platform" where
  "platform_sparc_plain = \<lparr>number_of_sockets = 8, cores_per_socket = 8, cache_line_size = 64,
    nop_duration = 9,
    the_cores =
      [0, 1, 2, 3, 4, 5, 6, 7,
       8, 9, 10, 11, 12, 13, 14, 15,
       16, 17, 18, 19, 20, 21, 22, 23,
       24, 25, 26, 27, 28, 29, 30, 31,
       32, 33, 34, 35, 36, 37, 38, 39,
       40, 41, 42, 43, 44, 45, 46, 47,
       48, 49, 50, 51, 52, 53, 54, 55,
       56, 57, 58, 59, 60, 61, 62, 63],
    the_sockets = Some
      [0, 0, 0, 0, 0, 0, 0, 0,
       1, 1, 1, 1, 1, 1, 1, 1,
       2, 2, 2, 2, 2, 2, 2, 2,
       3, 3, 3, 3, 3, 3, 3, 3,
       4, 4, 4, 4, 4, 4, 4, 4,
       5, 5, 5, 5, 5, 5, 5, 5,
       6, 6, 6, 6, 6, 6, 6, 6,
       7, 7, 7, 7, 7, 7, 7, 7]\<rparr>"

definition platform_tile :: "platform" where
  "platform_tile = \<lparr>number_of_sockets = 1, cores_per_socket = 36, cache_line_size = 64,
    nop_duration = 4,
    the_cores =
      [0, 1, 2, 3, 4, 5, 6, 7,
       8, 9, 10, 11, 12, 13, 14, 15,
       16, 17, 18, 19, 20, 21, 22, 23,
       24, 25, 26, 27, 28, 29, 30, 31,
       32, 33, 34, 35],
    the_sockets = None\<rparr>"

definition platform_opteron :: "platform" where
  "platform_opteron = \<lparr>number_of_sockets = 8, cores_per_socket = 6, cache_line_size = 64,
    nop_duration = 2,
    the_cores =
      [0, 1, 2, 3, 4, 5, 6, 7,
       8, 9, 10, 11, 12, 13, 14, 15,
       16, 17, 18, 19, 20, 21, 22, 23,
       24, 25, 26, 27, 28, 29, 30, 31,
       32, 33, 34, 35, 36, 37, 38, 39,
       40, 41, 42, 43, 44, 45, 46, 47],
    the_sockets = None\<rparr>"

definition platform_xeon :: "platform" where
  "platform_xeon = \<lparr>number_of_sockets = 8, cores_per_socket = 10, cache_line_size = 64,
    nop_duration = 1,
    the_cores =
      [0, 1, 2, 3, 4, 5, 6, 7, 8, 9,
       10, 11, 12, 13, 14, 15, 16, 17, 18, 19,
       20, 21, 22, 23, 24, 25, 26, 27, 28, 29,
       30, 31, 32, 33, 34, 35, 36, 37, 38, 39,
       40, 41, 42, 43, 44, 45, 46, 47, 48, 49,
       50, 51, 52, 53, 54, 55, 56, 57, 58, 59,
       60, 61, 62, 63, 64, 65, 66, 67, 68, 69,
       70, 71, 72, 73, 74, 75, 76, 77, 78, 79],
    the_sockets = Some
      [0, 0, 0, 0, 0, 0, 0, 0, 0, 0,
       1, 1, 1, 1, 1, 1, 1, 1, 1, 1,
       2, 2, 2, 2, 2, 2, 2, 2, 2, 2,
       3, 3, 3, 3, 3, 3, 3, 3, 3, 3,
       4, 4, 4, 4, 4, 4, 4, 4, 4, 4,
       5, 5, 5, 5, 5, 5, 5, 5, 5, 5,
       6, 6, 6, 6, 6, 6, 6, 6, 6, 6,
       7, 7, 7, 7, 7, 7, 7, 7, 7, 7]\<rparr>"

definition platform_xeon120 :: "platform" where
  "platform_xeon120 = \<lparr>number_of_sockets = 8, cores_per_socket = 15, cache_line_size = 64,
    nop_duration = 1,
    the_cores =
      [0, 1, 2, 3, 4, 5, 6, 7, 8, 9, 10, 11, 12, 13, 14,
       15, 16, 17, 18, 19, 20, 21, 22, 23, 24, 25, 26, 27, 28, 29,
       30, 31, 32, 33, 34, 35, 36, 37, 38, 39, 40, 41, 42, 43, 44,
       45, 46, 47, 48, 49, 50, 51, 52, 53, 54, 55, 56, 57, 58, 59,
       60, 61, 62, 63, 64, 65, 66, 67, 68, 69, 70, 71, 72, 73, 74,
       75, 76, 77, 78, 79, 80, 81, 82, 83, 84, 85, 86, 87, 88, 89,
       90, 91, 92, 93, 94, 95, 96, 97, 98, 99, 100, 101, 102, 103, 104,
       105, 106, 107, 108, 109, 110, 111, 112, 113, 114, 115, 116, 117, 118, 119],
    the_sockets = Some
      [0, 0, 0, 0, 0, 0, 0, 0, 0, 0, 0, 0, 0, 0, 0,
       1, 1, 1, 1, 1, 1, 1, 1, 1, 1, 1, 1, 1, 1, 1,
       2, 2, 2, 2, 2, 2, 2, 2, 2, 2, 2, 2, 2, 2, 2,
       3, 3, 3, 3, 3, 3, 3, 3, 3, 3, 3, 3, 3, 3, 3,
       4, 4, 4, 4, 4, 4, 4, 4, 4, 4, 4, 4, 4, 4, 4,
       5, 5, 5, 5, 5, 5, 5, 5, 5, 5, 5, 5, 5, 5, 5,
       6, 6, 6, 6, 6, 6, 6, 6, 6, 6, 6, 6, 6, 6, 6,
       7, 7, 7, 7, 7, 7, 7, 7, 7, 7, 7, 7, 7, 7, 7]\<rparr>"

text \<open>The function the header gives for the socket of a core; its other branches are commented out.\<close>

definition get_cluster :: "int \<Rightarrow> int" where
  "get_cluster thread_id = 0"

text \<open>The number of cores, as the header's constants give it.\<close>

definition core_count :: "platform \<Rightarrow> nat" where
  "core_count p = number_of_sockets p * cores_per_socket p"

text \<open>The machines whose core count the header fixes.\<close>

definition known_platforms :: "platform list" where
  "known_platforms = [platform_sparc, platform_sparc_plain, platform_tile, platform_opteron,
     platform_xeon, platform_xeon120]"

section \<open>The tables fit the constants\<close>

text \<open>
  On every machine with a fixed core count \<open>the_cores\<close> lists every core exactly once, so that
  a benchmark that pins thread \<open>i\<close> to \<open>the_cores ! i\<close> uses each core once; the default table
  does so for 48 cores.
\<close>

lemma core_tables_complete:
  "list_all (\<lambda>p. sort (the_cores p) = [0..<core_count p]) known_platforms \<and>
   sort (the_cores (platform_default 48)) = [0..<core_count (platform_default 48)]"
  by code_simp

text \<open>Where there is a socket table, it gives the socket whose block of cores contains the core.\<close>

lemma socket_tables_are_blocks:
  "list_all (\<lambda>p. case the_sockets p of None \<Rightarrow> True
     | Some ts \<Rightarrow> ts = map (\<lambda>c. c div cores_per_socket p) [0..<core_count p]) known_platforms"
  by code_simp

text \<open>With \<open>ALTERNATE_SOCKETS\<close> thread \<open>i\<close> is on socket \<open>i mod 8\<close>: eight threads in a row are on eight sockets.\<close>

lemma sparc_alternates:
  "map ((!) (the (the_sockets platform_sparc))) (the_cores platform_sparc) = map (\<lambda>i. i mod 8) [0..<64]"
  by code_simp

text \<open>
  The header says \<open>get_cluster\<close> returns the socket of a core; it returns 0, which its own table
  contradicts from the second socket on.
\<close>

lemma get_cluster_ignores_table:
  assumes "p \<in> set known_platforms" and "the_sockets p = Some ts" and "c < core_count p"
  shows "get_cluster (int c) = int (ts ! c) \<longleftrightarrow> c < cores_per_socket p"
proof -
  have "ts = map (\<lambda>c. c div cores_per_socket p) [0..<core_count p]"
    using socket_tables_are_blocks assms(1,2) by (auto simp: list_all_iff split: option.splits)
  moreover have "0 < cores_per_socket p" using assms(3) by (cases "cores_per_socket p") (simp_all add: core_count_def)
  ultimately show ?thesis using assms(3) by (auto simp: get_cluster_def div_eq_0_iff)
qed

section \<open>The tables of the benchmark\<close>

text \<open>\<open>AVALIABLE_CORE_NUM\<close> and \<open>avaliable_core\<close>, by machine.\<close>

datatype bench_machine = R74x | Apple | Arm | Other_machine

fun AVALIABLE_CORE_NUM :: "bench_machine \<Rightarrow> nat" where
  "AVALIABLE_CORE_NUM R74x = 10"
| "AVALIABLE_CORE_NUM Apple = 8"
| "AVALIABLE_CORE_NUM Arm = 64"
| "AVALIABLE_CORE_NUM Other_machine = 16"

fun avaliable_core :: "bench_machine \<Rightarrow> nat list" where
  "avaliable_core R74x = [0, 2, 4, 6, 8, 10, 12, 14, 16, 18]"
| "avaliable_core Apple = [4, 5, 6, 7, 0, 1, 2, 3]"
| "avaliable_core Arm =
    [0, 1, 2, 3, 4, 5, 6, 7, 8, 9, 10, 11, 12, 13, 14, 15, 16, 17, 18, 19, 20,
     21, 22, 23,
     48, 49, 50, 51, 52, 53, 54, 55, 56, 57, 58, 59, 60, 61, 62, 63]"
| "avaliable_core Other_machine = [0, 1, 2, 3, 4, 5, 6, 7, 8, 9, 10, 11, 12, 13, 14, 15]"

text \<open>The count fits the table on every machine but ARM, where 24 of the 64 entries are missing.\<close>

lemma available_core_count:
  "length (avaliable_core m) = AVALIABLE_CORE_NUM m \<longleftrightarrow> m \<noteq> Arm"
  by (cases m) simp_all

lemma available_core_distinct: "distinct (avaliable_core m)"
  by (cases m) simp_all

end
