(* ===== verification/Layout.thy ===== *)
theory Layout
  imports Utils
begin

text \<open>
  The memory layout of the C structures the headers declare: where the fields of a lock lie, and
  that the padding keeps the fields that different threads write on different cache lines.
  \<open>L_CACHE_LINE_SIZE\<close> of the generated \<open>topology.h\<close> is the argument \<open>line\<close>; the sizes of the
  system's \<open>pthread_mutex_t\<close> and \<open>pthread_cond_t\<close> are those of glibc on 64 bits.
\<close>

section \<open>Structures\<close>

text \<open>A field with its size and alignment; \<open>Pad\<close>: an array of bytes nothing reads or writes.\<close>

datatype field = Data string nat nat | Pad nat

fun field_size :: "field \<Rightarrow> nat" where
  "field_size (Data x n a) = n"
| "field_size (Pad n) = n"

fun field_align :: "field \<Rightarrow> nat" where
  "field_align (Data x n a) = a"
| "field_align (Pad n) = 1"

definition align_up :: "nat \<Rightarrow> nat \<Rightarrow> nat" where
  "align_up n a = (n + a - 1) div a * a"

text \<open>Every data field with its offset and its size, from offset \<open>n\<close> on; and the end of the last field.\<close>

fun offsets :: "nat \<Rightarrow> field list \<Rightarrow> (string \<times> nat \<times> nat) list" where
  "offsets n [] = []"
| "offsets n (f # fs) =
     (let n = align_up n (field_align f)
      in (case f of Data x k a \<Rightarrow> [(x, n, k)] | Pad k \<Rightarrow> []) @ offsets (n + field_size f) fs)"

fun end_of :: "nat \<Rightarrow> field list \<Rightarrow> nat" where
  "end_of n [] = n"
| "end_of n (f # fs) = end_of (align_up n (field_align f) + field_size f) fs"

text \<open>A structure; \<open>struct_align\<close> is the alignment an \<open>aligned\<close> attribute asks for (1 without one).\<close>

record c_struct =
  members :: "field list"
  struct_align :: nat

definition align_of :: "c_struct \<Rightarrow> nat" where
  "align_of s = Max (set (struct_align s # map field_align (members s)))"

definition size_of :: "c_struct \<Rightarrow> nat" where
  "size_of s = align_up (end_of 0 (members s)) (align_of s)"

definition offset_of :: "c_struct \<Rightarrow> string \<Rightarrow> nat option" where
  "offset_of s x = map_option fst (map_of (offsets 0 (members s)) x)"

text \<open>
  No two data fields of an object that starts at a multiple of \<open>line\<close> have a byte on the same line.
\<close>

definition separated :: "nat \<Rightarrow> c_struct \<Rightarrow> bool" where
  "separated line s \<longleftrightarrow>
     sorted_wrt (\<lambda>(x, o1, n1) (y, o2, n2). (o1 + n1 - 1) div line < o2 div line) (offsets 0 (members s))"

section \<open>The structures of the headers\<close>

definition pad :: "nat \<Rightarrow> nat \<Rightarrow> field" where
  "pad line n = Pad (unat (pad_to_cache_line (of_nat line) (of_nat n)))"

text \<open>\<open>include/htll.h\<close>. The header has a line size of its own, and \<open>PADDING\<close> is 1.\<close>

definition CACHE_LINE_SIZE :: nat where "CACHE_LINE_SIZE = 64"
definition PADDING :: int where "PADDING = 1"

definition htll_mutex_t :: c_struct where
  "htll_mutex_t = \<lparr>members =
     [Data ''l'' 4 4, Pad (CACHE_LINE_SIZE - 4),
      Data ''ticks_spin'' 4 4, Pad (CACHE_LINE_SIZE - 4),
      Data ''cnt_unlock'' 4 4, Pad (CACHE_LINE_SIZE - 4),
      Data ''cnt_wake'' 4 4, Pad (CACHE_LINE_SIZE - 4),
      Data ''flag'' 4 4, Pad (CACHE_LINE_SIZE - 4)],
     struct_align = CACHE_LINE_SIZE\<rparr>"

definition upmutex_cond1_struct :: c_struct where
  "upmutex_cond1_struct = \<lparr>members = [Data ''m'' 8 8, Data ''seq'' 4 4, Data ''pad'' 4 4] @
     (if PADDING = 1 then [Pad (CACHE_LINE_SIZE - 16)] else []), struct_align = 1\<rparr>"

text \<open>\<open>src/interpose.c\<close>: the block an address is mapped to; \<open>ctx\<close> is the lock's context type, if it needs one (\<open>MAX_THREADS\<close> of them).\<close>

definition lock_transparent_mutex_t :: "nat \<Rightarrow> (nat \<times> nat) option \<Rightarrow> c_struct" where
  "lock_transparent_mutex_t line ctx = \<lparr>members = [Data ''lock_lock'' 8 8, pad line 8] @
     (case ctx of None \<Rightarrow> []
      | Some (n, a) \<Rightarrow> [Data ''lock_node'' (n * 2048) a, pad line (n * 2048)]), struct_align = 1\<rparr>"

text \<open>
  The macro \<open>COND_VAR\<close> as the build defines it: \<open>None\<close> if it does not. \<open>pthreadinterpose.h\<close> tests its
  value, \<open>mcssteal.h\<close> only whether it is defined.
\<close>

definition pthread_interpose_mutex_t :: "nat \<Rightarrow> int option \<Rightarrow> c_struct" where
  "pthread_interpose_mutex_t line COND_VAR = \<lparr>members =
     (case COND_VAR of Some v \<Rightarrow> if v \<noteq> 0 then [Data ''posix_lock'' 40 8, pad line 40] else [] | None \<Rightarrow> []) @
     [Data ''lock'' 40 8], struct_align = line\<rparr>"

definition mcssteal_node_t :: "nat \<Rightarrow> c_struct" where
  "mcssteal_node_t line = \<lparr>members =
     [Data ''next'' 8 8, pad line 8, Data ''status'' 4 4, pad line 4, Data ''time'' 4 4, pad line 4,
      Data ''spin'' 4 line], struct_align = line\<rparr>"

definition mcssteal_mutex_t :: "nat \<Rightarrow> int option \<Rightarrow> c_struct" where
  "mcssteal_mutex_t line COND_VAR = \<lparr>members =
     (if COND_VAR \<noteq> None then [Data ''posix_lock'' 40 8, pad line 40] else []) @
     [Data ''no_stealing'' 4 4, pad line 4, Data ''tail'' 8 line], struct_align = line\<rparr>"

section \<open>The lock\<close>

text \<open>
  Every word of a mutex is on a 64-byte line of its own: the lock word the waiters spin on is not
  invalidated by the counters the holder updates. On lines of 128 bytes, the value the Makefile
  puts into \<open>topology.h\<close>, they share lines.
\<close>

lemma htll_mutex_layout:
  "offsets 0 (members htll_mutex_t) =
     [(''l'', 0, 4), (''ticks_spin'', 64, 4), (''cnt_unlock'', 128, 4), (''cnt_wake'', 192, 4), (''flag'', 256, 4)]"
  "size_of htll_mutex_t = 320" "align_of htll_mutex_t = 64"
  by code_simp+

lemma htll_mutex_separated: "separated 64 htll_mutex_t \<and> \<not> separated 128 htll_mutex_t"
  by code_simp

text \<open>
  The program's \<open>pthread_cond_t\<close> (48 bytes) is used as an \<open>upmutex_cond1_t\<close>. The fields the functions
  access lie inside it, the structure with its padding does not.
\<close>

lemma cond_overlay:
  "offset_of upmutex_cond1_struct ''m'' = Some 0" "offset_of upmutex_cond1_struct ''seq'' = Some 8"
  "size_of upmutex_cond1_struct = 64"
  by code_simp+

section \<open>The padding macro\<close>

lemma align_up_dvd [simp]: "a dvd n \<Longrightarrow> 0 < a \<Longrightarrow> align_up n a = n"
proof -
  assume "a dvd n" "0 < a"
  then obtain k where "n = k * a" by (metis dvd_def mult.commute)
  moreover have "(k * a + (a - 1)) div a = k" using \<open>0 < a\<close> by (simp only: div_mult_self3) simp
  ultimately show ?thesis using \<open>0 < a\<close> by (simp add: align_up_def)
qed

lemma align_up_one [simp]: "align_up n (Suc 0) = n"
  by (simp add: align_up_def)

text \<open>A field of at most a line and its padding make up one line.\<close>

lemma pad_to_line:
  assumes "k < 63" and "0 < n" and "n \<le> 2 ^ k"
  shows "pad (2 ^ k) n = Pad (2 ^ k - n)"
proof -
  have k: "(2 :: nat) ^ k < 2 ^ 63" using assms(1) by (intro power_strict_increasing) simp_all
  then have n: "unat (of_nat n :: u64) = n" using assms(3) by (simp add: unsigned_of_nat take_bit_nat_eq_self)
  have "unat (cache_align (2 ^ k) (of_nat n)) = (n + 2 ^ k - 1) div 2 ^ k * 2 ^ k"
    using cache_align_least [of k "2 ^ k" "of_nat n"] assms k n by simp
  also have "(n + 2 ^ k - 1) div 2 ^ k = 1" using assms(2,3) by (intro div_nat_eqI) simp_all
  finally have a: "unat (cache_align (2 ^ k) (of_nat n)) = 2 ^ k" by simp
  moreover have "of_nat n \<le> cache_align (2 ^ k) (of_nat n)" using a n assms(3) by (simp add: word_le_nat_alt)
  ultimately show ?thesis using n by (simp add: pad_def pad_to_cache_line_def unat_sub)
qed

text \<open>
  So in the structures padded with it, for every line size that is a power of two from 64 to
  \<open>2^62\<close>, the padded fields begin at successive lines.
\<close>

lemma padded_offsets:
  assumes "6 \<le> k" and "k < 63"
  shows "offsets 0 (members (mcssteal_node_t (2 ^ k))) =
      [(''next'', 0, 8), (''status'', 2 ^ k, 4), (''time'', 2 * 2 ^ k, 4), (''spin'', 3 * 2 ^ k, 4)]"
    "offsets 0 (members (mcssteal_mutex_t (2 ^ k) None)) = [(''no_stealing'', 0, 4), (''tail'', 2 ^ k, 8)]"
    "offsets 0 (members (mcssteal_mutex_t (2 ^ k) (Some v))) =
      [(''posix_lock'', 0, 40), (''no_stealing'', 2 ^ k, 4), (''tail'', 2 * 2 ^ k, 8)]"
    "offsets 0 (members (pthread_interpose_mutex_t (2 ^ k) (Some 1))) = [(''posix_lock'', 0, 40), (''lock'', 2 ^ k, 40)]"
    "end_of 0 (members (lock_transparent_mutex_t (2 ^ k) None)) = 2 ^ k"
proof -
  have line: "(2 :: nat) ^ 6 \<le> 2 ^ k" using assms(1) by (intro power_increasing) simp_all
  then have pads: "pad (2 ^ k) 4 = Pad (2 ^ k - 4)" "pad (2 ^ k) 8 = Pad (2 ^ k - 8)" "pad (2 ^ k) 40 = Pad (2 ^ k - 40)"
    by (intro pad_to_line [OF assms(2)]; simp)+
  have dvd: "4 dvd (2 :: nat) ^ k" "8 dvd (2 :: nat) ^ k"
    using le_imp_power_dvd [of 2 k "2 :: nat"] le_imp_power_dvd [of 3 k "2 :: nat"] assms(1) by simp_all
  have dvd2: "4 dvd (2 * 2 ^ k :: nat)" "8 dvd (2 * 2 ^ k :: nat)" using dvd by (simp_all add: dvd_mult)
  have sum: "4 + ((2 :: nat) ^ k - 4) = 2 ^ k" "8 + ((2 :: nat) ^ k - 8) = 2 ^ k" "40 + ((2 :: nat) ^ k - 40) = 2 ^ k"
    "x + 4 + ((2 :: nat) ^ k - 4) = x + 2 ^ k" for x
    using line by simp_all
  note facts = pads dvd dvd2 sum mult_2 [symmetric] align_up_dvd Let_def
  show "offsets 0 (members (mcssteal_node_t (2 ^ k))) =
      [(''next'', 0, 8), (''status'', 2 ^ k, 4), (''time'', 2 * 2 ^ k, 4), (''spin'', 3 * 2 ^ k, 4)]"
    by (simp add: mcssteal_node_t_def facts)
  show "offsets 0 (members (mcssteal_mutex_t (2 ^ k) None)) = [(''no_stealing'', 0, 4), (''tail'', 2 ^ k, 8)]"
    by (simp add: mcssteal_mutex_t_def facts)
  show "offsets 0 (members (mcssteal_mutex_t (2 ^ k) (Some v))) =
      [(''posix_lock'', 0, 40), (''no_stealing'', 2 ^ k, 4), (''tail'', 2 * 2 ^ k, 8)]"
    by (simp add: mcssteal_mutex_t_def facts)
  show "offsets 0 (members (pthread_interpose_mutex_t (2 ^ k) (Some 1))) = [(''posix_lock'', 0, 40), (''lock'', 2 ^ k, 40)]"
    by (simp add: pthread_interpose_mutex_t_def facts)
  show "end_of 0 (members (lock_transparent_mutex_t (2 ^ k) None)) = 2 ^ k"
    by (simp add: lock_transparent_mutex_t_def facts)
qed

lemma padded_separated:
  assumes "6 \<le> k" and "k < 63"
  shows "separated (2 ^ k) (mcssteal_node_t (2 ^ k))" "separated (2 ^ k) (mcssteal_mutex_t (2 ^ k) cv)"
    "separated (2 ^ k) (pthread_interpose_mutex_t (2 ^ k) (Some 1))"
proof -
  define L where "L = (2 :: nat) ^ k"
  have "(2 :: nat) ^ 6 \<le> L" unfolding L_def using assms(1) by (intro power_increasing) simp_all
  then have div: "7 div L = 0" "3 div L = 0" "39 div L = 0" "(L + 3) div L = 1" "(2 * L + 3) div L = 2"
    "L div L = 1" "2 * L div L = 2" "3 * L div L = 3" "(L + 39) div L = 1"
    by (simp_all add: div_nat_eqI)
  have "0 + 8 - 1 = (7 :: nat)" "0 + 4 - 1 = (3 :: nat)" "0 + 40 - 1 = (39 :: nat)" "L + 4 - 1 = L + 3"
    "2 * L + 4 - 1 = 2 * L + 3" by simp_all
  note facts = separated_def padded_offsets [OF assms, folded L_def] sorted_wrt.simps list.set ball_simps
    prod.case this div
  show "separated (2 ^ k) (mcssteal_node_t (2 ^ k))" unfolding L_def [symmetric] by (simp only: facts) simp
  show "separated (2 ^ k) (mcssteal_mutex_t (2 ^ k) cv)" unfolding L_def [symmetric]
    by (cases cv; simp only: facts) simp_all
  show "separated (2 ^ k) (pthread_interpose_mutex_t (2 ^ k) (Some 1))" unfolding L_def [symmetric]
    by (simp only: facts) simp
qed

text \<open>
  The Makefile always defines \<open>COND_VAR\<close>, as 0 for the build without it. The wrapper then has one
  mutex, but the other header still declares the second one.
\<close>

lemma cond_var_tests_differ:
  "offset_of (pthread_interpose_mutex_t 64 (Some 0)) ''posix_lock'' = None"
  "offset_of (mcssteal_mutex_t 64 (Some 0)) ''posix_lock'' = Some 0"
  by (simp_all add: offset_of_def pthread_interpose_mutex_t_def mcssteal_mutex_t_def Let_def)

end
