(* ===== verification/Builds.thy ===== *)
theory Builds
  imports Prelude
begin

text \<open>
  How a build puts the library together: \<open>src/interpose.c\<close> calls the lock through macros
  \<open>lock_*\<close>, which the header of the chosen algorithm binds to its functions. The theorems say
  which builds find a definition for everything \<open>interpose.c\<close> calls.
\<close>

section \<open>The choice of an algorithm\<close>

text \<open>The macros \<open>src/Makefile\<close> defines are the name of the algorithm, \<open>COND_VAR\<close> and the waiting policy.\<close>

datatype algorithm = HTLL | PTHREADINTERPOSE | MCSSTEAL

text \<open>The \<open>#ifdef\<close> chain of \<open>interpose.c\<close>: \<open>MCS\<close> asks for a header the repository does not have.\<close>

definition chosen_header :: "string set \<Rightarrow> string option" where
  "chosen_header macros =
     (if ''MCS'' \<in> macros then Some ''mcs.h''
      else if ''HTLL'' \<in> macros then Some ''htll.h''
      else if ''PTHREADINTERPOSE'' \<in> macros then Some ''pthreadinterpose.h''
      else None)"

definition header_of :: "algorithm \<Rightarrow> string" where
  "header_of a = (case a of HTLL \<Rightarrow> ''htll.h'' | PTHREADINTERPOSE \<Rightarrow> ''pthreadinterpose.h'' | MCSSTEAL \<Rightarrow> ''mcssteal.h'')"

text \<open>\<open>SUPPORT_WAITING\<close> and \<open>NEED_CONTEXT\<close> of the headers; the test of \<open>interpose_init\<close> at compile time.\<close>

fun SUPPORT_WAITING :: "algorithm \<Rightarrow> bool" where
  "SUPPORT_WAITING HTLL = False"
| "SUPPORT_WAITING PTHREADINTERPOSE = False"
| "SUPPORT_WAITING MCSSTEAL = True"

fun NEED_CONTEXT :: "algorithm \<Rightarrow> bool" where
  "NEED_CONTEXT HTLL = False"
| "NEED_CONTEXT PTHREADINTERPOSE = False"
| "NEED_CONTEXT MCSSTEAL = True"

definition waiting_accepted :: "algorithm \<Rightarrow> string set \<Rightarrow> bool" where
  "waiting_accepted a macros \<longleftrightarrow> SUPPORT_WAITING a \<or> ''WAITING_ORIGINAL'' \<in> macros"

section \<open>The bindings\<close>

text \<open>
  The macros \<open>lock_*\<close>, and the functions they can be bound to: \<open>Htll Mutex_lock\<close> is
  \<open>htll_mutex_lock\<close>, \<open>Upmutex_cond1 Cond_wait\<close> is \<open>upmutex_cond1_wait\<close>.
\<close>

datatype lock_name =
    Mutex_create | Mutex_lock | Mutex_trylock | Mutex_unlock
  | Mutex_destroy | Cond_init | Cond_timedwait | Cond_wait
  | Cond_signal | Cond_broadcast | Cond_destroy | Thread_start
  | Thread_exit | Application_init | Application_exit | Init_context
  | Rwlock_create | Rwlock_destroy | Rwlock_rdlock | Rwlock_wrlock
  | Rwlock_tryrdlock | Rwlock_trywrlock | Rwlock_unlock

datatype c_function = Htll lock_name | Upmutex_cond1 lock_name | Pthread_interpose lock_name
  | Mcssteal lock_name | Segment_start | Segment_end

text \<open>The macros at the end of each header.\<close>

definition htll_api :: "(lock_name \<times> c_function) list" where
  "htll_api =
    [(Mutex_create, Htll Mutex_create),
     (Mutex_lock, Htll Mutex_lock),
     (Mutex_trylock, Htll Mutex_trylock),
     (Mutex_unlock, Htll Mutex_unlock),
     (Mutex_destroy, Htll Mutex_destroy),
     (Cond_init, Upmutex_cond1 Cond_init),
     (Cond_timedwait, Htll Cond_timedwait),
     (Cond_wait, Upmutex_cond1 Cond_wait),
     (Cond_signal, Upmutex_cond1 Cond_signal),
     (Cond_broadcast, Upmutex_cond1 Cond_broadcast),
     (Cond_destroy, Upmutex_cond1 Cond_destroy),
     (Thread_start, Htll Thread_start),
     (Thread_exit, Htll Thread_exit),
     (Application_init, Htll Application_init),
     (Application_exit, Htll Application_exit),
     (Init_context, Htll Init_context)]"

definition pthread_interpose_api :: "(lock_name \<times> c_function) list" where
  "pthread_interpose_api =
    [(Mutex_create, Pthread_interpose Mutex_create),
     (Mutex_lock, Pthread_interpose Mutex_lock),
     (Mutex_trylock, Pthread_interpose Mutex_trylock),
     (Mutex_unlock, Pthread_interpose Mutex_unlock),
     (Mutex_destroy, Pthread_interpose Mutex_destroy),
     (Cond_init, Pthread_interpose Cond_init),
     (Cond_timedwait, Pthread_interpose Cond_timedwait),
     (Cond_wait, Pthread_interpose Cond_wait),
     (Cond_signal, Pthread_interpose Cond_signal),
     (Cond_broadcast, Pthread_interpose Cond_broadcast),
     (Cond_destroy, Pthread_interpose Cond_destroy),
     (Thread_start, Pthread_interpose Thread_start),
     (Thread_exit, Pthread_interpose Thread_exit),
     (Application_init, Pthread_interpose Application_init),
     (Application_exit, Pthread_interpose Application_exit),
     (Init_context, Pthread_interpose Init_context)]"

definition mcssteal_api :: "(lock_name \<times> c_function) list" where
  "mcssteal_api =
    [(Mutex_create, Mcssteal Mutex_create),
     (Mutex_lock, Mcssteal Mutex_lock),
     (Mutex_trylock, Mcssteal Mutex_trylock),
     (Mutex_unlock, Mcssteal Mutex_unlock),
     (Mutex_destroy, Mcssteal Mutex_destroy),
     (Cond_init, Mcssteal Cond_init),
     (Cond_timedwait, Mcssteal Cond_timedwait),
     (Cond_wait, Mcssteal Cond_wait),
     (Cond_signal, Mcssteal Cond_signal),
     (Cond_broadcast, Mcssteal Cond_broadcast),
     (Cond_destroy, Mcssteal Cond_destroy),
     (Thread_start, Mcssteal Thread_start),
     (Thread_exit, Mcssteal Thread_exit),
     (Application_init, Mcssteal Application_init),
     (Application_exit, Mcssteal Application_exit),
     (Init_context, Mcssteal Init_context)]"

fun lock_api :: "algorithm \<Rightarrow> (lock_name \<times> c_function) list" where
  "lock_api HTLL = htll_api"
| "lock_api PTHREADINTERPOSE = pthread_interpose_api"
| "lock_api MCSSTEAL = mcssteal_api"

text \<open>
  The functions of the algorithm's source file that other files call; there is no file for
  \<open>mcssteal.h\<close>.
\<close>

fun defined_functions :: "algorithm \<Rightarrow> c_function list" where
  "defined_functions HTLL =
    [Htll Mutex_create, Htll Mutex_destroy, Htll Mutex_lock,
     Htll Mutex_unlock, Htll Mutex_trylock, Htll Application_init,
     Htll Application_exit, Htll Thread_start, Htll Thread_exit,
     Upmutex_cond1 Cond_init, Upmutex_cond1 Cond_destroy, Upmutex_cond1 Cond_signal,
     Upmutex_cond1 Cond_broadcast, Upmutex_cond1 Cond_wait, Htll Cond_timedwait,
     Segment_start, Segment_end]"
| "defined_functions PTHREADINTERPOSE =
    [Pthread_interpose Mutex_create, Pthread_interpose Mutex_lock, Pthread_interpose Mutex_trylock,
     Pthread_interpose Mutex_unlock, Pthread_interpose Mutex_destroy, Pthread_interpose Cond_init,
     Pthread_interpose Cond_timedwait, Pthread_interpose Cond_wait, Pthread_interpose Cond_signal,
     Pthread_interpose Cond_broadcast, Pthread_interpose Cond_destroy, Pthread_interpose Thread_start,
     Pthread_interpose Thread_exit, Pthread_interpose Application_init, Pthread_interpose Application_exit,
     Pthread_interpose Init_context]"
| "defined_functions MCSSTEAL = []"

text \<open>
  What \<open>interpose.c\<close> calls: with \<open>NEED_CONTEXT\<close> also the initialisation of the contexts, with
  \<open>RWTAS\<close> the read-write locks.
\<close>

definition interpose_calls :: "lock_name list" where
  "interpose_calls =
    [Application_init, Application_exit, Thread_start, Thread_exit,
     Mutex_create, Mutex_destroy, Mutex_lock, Mutex_trylock,
     Mutex_unlock, Cond_init, Cond_destroy, Cond_timedwait,
     Cond_wait, Cond_signal, Cond_broadcast]"

definition rwlock_calls :: "lock_name list" where
  "rwlock_calls =
    [Rwlock_create, Rwlock_destroy, Rwlock_rdlock, Rwlock_wrlock,
     Rwlock_tryrdlock, Rwlock_trywrlock, Rwlock_unlock]"

definition calls_of :: "algorithm \<Rightarrow> bool \<Rightarrow> lock_name list" where
  "calls_of a RWTAS = interpose_calls @ (if NEED_CONTEXT a then [Init_context] else []) @
     (if RWTAS then rwlock_calls else [])"

text \<open>A build links if every call is bound and bound to a function the algorithm defines.\<close>

definition linked :: "algorithm \<Rightarrow> lock_name \<Rightarrow> bool" where
  "linked a f = (case map_of (lock_api a) f of None \<Rightarrow> False | Some g \<Rightarrow> g \<in> set (defined_functions a))"

definition links :: "algorithm \<Rightarrow> bool \<Rightarrow> bool" where
  "links a RWTAS = list_all (linked a) (calls_of a RWTAS)"

section \<open>Which builds are complete\<close>

lemmas apis = htll_api_def pthread_interpose_api_def mcssteal_api_def

text \<open>All headers bind the same names, each once, and to different functions.\<close>

lemma same_interface:
  "map fst (lock_api a) = map fst (lock_api HTLL)" "distinct (map fst (lock_api a))" "distinct (map snd (lock_api a))"
  by (cases a; simp add: apis)+

text \<open>
  The two algorithms of \<open>Makefile.config\<close> define everything \<open>interpose.c\<close> calls. The third header
  has no implementation, and no header of the repository binds the read-write locks of the
  \<open>RWTAS\<close> build.
\<close>

lemma which_builds_link: "links a RWTAS \<longleftrightarrow> a \<noteq> MCSSTEAL \<and> \<not> RWTAS"
  by (cases a; cases RWTAS;
      simp add: links_def linked_def calls_of_def interpose_calls_def rwlock_calls_def apis)

text \<open>
  \<open>htll.h\<close> binds \<open>lock_init_context\<close> to a function that nobody defines, which only \<open>NEED_CONTEXT\<close>
  being 0 hides; every other name it binds is defined.
\<close>

lemma htll_unbound_context:
  "filter (\<lambda>f. \<not> linked HTLL f) (map fst (lock_api HTLL)) = [Init_context]"
  "filter (\<lambda>f. \<not> linked PTHREADINTERPOSE f) (map fst (lock_api PTHREADINTERPOSE)) = []"
  by (simp_all add: linked_def apis)

text \<open>
  Both algorithms only support their own way of waiting: with \<open>_original\<close>, as in \<open>Makefile.config\<close>,
  the build is accepted, with a generic policy it stops.
\<close>

lemma original_waiting_only:
  "waiting_accepted a {''WAITING_ORIGINAL''}" "waiting_accepted a {w} \<Longrightarrow> a \<noteq> MCSSTEAL \<Longrightarrow> w = ''WAITING_ORIGINAL''"
  by (cases a; simp add: waiting_accepted_def)+

text \<open>Defining the name of \<open>mcssteal.h\<close> chooses no header: \<open>interpose.c\<close> does not know the algorithm.\<close>

lemma chosen_headers:
  "chosen_header {''HTLL''} = Some (header_of HTLL)"
  "chosen_header {''PTHREADINTERPOSE''} = Some (header_of PTHREADINTERPOSE)"
  "chosen_header {''MCSSTEAL''} = None"
  by (simp_all add: chosen_header_def header_of_def)

end
