(* ===== verification/Bench.thy ===== *)
theory Bench
  imports Segments
begin

text \<open>
  The micro-benchmark \<open>bench/bench_block.c\<close>: threads that take one lock again and again, touch a
  number of shared cache lines under it and record the latency of every request. A request
  is one step here: its critical section is protected by the lock (\<open>BenchLock\<close> shows that this is enough), and
  the rest touches only the thread's own counters. \<open>PAPI\<close> time stamps, the parsed numbers
  and the schedule are arguments; an access outside an array is \<open>None\<close>.
\<close>

section \<open>Options\<close>

definition THD_NUM :: int where "THD_NUM = 80"
definition LATENCY_RECORD :: nat where "LATENCY_RECORD = 5000000"

record bench_opts =
  nb_thread :: int
  long_number :: int
  short_number :: int
  short_thread_number :: int
  delay :: int
  sleep_time :: int
  ux_num :: int
  possibility :: int
  target_latency :: u64

definition default_opts :: bench_opts where
  "default_opts = \<lparr>nb_thread = 20, long_number = 5120, short_number = 32, short_thread_number = 80,
     delay = 100, sleep_time = 3, ux_num = 100, possibility = 4, target_latency = 100000\<rparr>"

text \<open>
  One option with the number \<open>atoi\<close> read; \<open>None\<close> is the help text and the end of the process. The
  options without a case of their own are reported as unknown and ignored.
\<close>

definition bench_option :: "char \<Rightarrow> int \<Rightarrow> bench_opts \<Rightarrow> bench_opts option" where
  "bench_option c v opt =
     (if c = CHR ''h'' then None
      else if c = CHR ''t'' then Some (opt\<lparr>nb_thread := v\<rparr>)
      else if c = CHR ''g'' then Some (opt\<lparr>long_number := v\<rparr>)
      else if c = CHR ''s'' then Some (opt\<lparr>short_number := v\<rparr>)
      else if c = CHR ''S'' then Some (opt\<lparr>short_thread_number := v\<rparr>)
      else if c = CHR ''d'' then Some (opt\<lparr>delay := v\<rparr>)
      else if c = CHR ''T'' then Some (opt\<lparr>sleep_time := v\<rparr>)
      else if c = CHR ''u'' then Some (opt\<lparr>ux_num := v\<rparr>)
      else if c = CHR ''p'' then Some (opt\<lparr>possibility := v\<rparr>)
      else if c = CHR ''l'' then Some (opt\<lparr>target_latency := word_of_int v\<rparr>)
      else Some opt)"

fun bench_options :: "(char \<times> int) list \<Rightarrow> bench_opts \<Rightarrow> bench_opts option" where
  "bench_options [] opt = Some opt"
| "bench_options ((c, v) # cs) opt =
     (case bench_option c v opt of None \<Rightarrow> None | Some opt' \<Rightarrow> bench_options cs opt')"

text \<open>The creation of the threads: one entry of \<open>tid[THD_NUM]\<close> for each.\<close>

fun spawn :: "nat \<Rightarrow> int \<Rightarrow> 'h list \<Rightarrow> (int \<Rightarrow> 'h) \<Rightarrow> 'h list option" where
  "spawn 0 i tid h = Some tid"
| "spawn (Suc n) i tid h =
     (case arr_write tid i (h i) of None \<Rightarrow> None | Some tid' \<Rightarrow> spawn n (i + 1) tid' h)"

section \<open>A request\<close>

text \<open>The body of the loop for line \<open>i\<close>, and the loop with the number of lines left.\<close>

definition access_line :: "nat \<Rightarrow> u64 list \<Rightarrow> u64 list option" where
  "access_line i m =
     Option.bind (arr_read m (8 * int i + 7)) (\<lambda>v.
     Option.bind (arr_write m (8 * int i + 2) (v + 1)) (\<lambda>m.
     Option.bind (arr_read m (8 * int i + 2)) (\<lambda>v.
     arr_write m (8 * int i + 7) (v + 1))))"

fun access_lines :: "nat \<Rightarrow> nat \<Rightarrow> u64 list \<Rightarrow> u64 list option" where
  "access_lines 0 i m = Some m"
| "access_lines (Suc k) i m = Option.bind (access_line i m) (access_lines k (i + 1))"

definition access_variables :: "u64 list \<Rightarrow> int \<Rightarrow> u64 list option" where
  "access_variables memory_area number_of_variables = access_lines (nat number_of_variables) 0 memory_area"

text \<open>The size of an area in 64-bit words, \<open>malloc(n * 64)\<close>; the product is an \<open>int\<close>.\<close>

definition area_words :: "int \<Rightarrow> nat option" where
  "area_words n = (if 0 \<le> n \<and> n * 64 < 2 ^ 31 then Some (nat (n * 64) div 8) else None)"

record bench =
  global_cnt :: "u64 list"
  short_area :: "u64 list"
  long_area :: "u64 list"
  record_latency :: "int \<Rightarrow> u64 list"
  record_cnt :: "int \<Rightarrow> nat"

definition request_normal :: "bench_opts \<Rightarrow> int \<Rightarrow> bench \<Rightarrow> bench option" where
  "request_normal opt tid s =
     Option.bind (arr_read (global_cnt s) tid) (\<lambda>c.
     Option.bind (arr_write (global_cnt s) tid (c + 1)) (\<lambda>g.
     let s = s\<lparr>global_cnt := g\<rparr> in
     if tid < short_thread_number opt
     then map_option (\<lambda>a. s\<lparr>short_area := a\<rparr>) (access_variables (short_area s) (short_number opt))
     else map_option (\<lambda>a. s\<lparr>long_area := a\<rparr>) (access_variables (long_area s) (long_number opt))))"

text \<open>One turn of the loop of a thread, with the two time stamps of its request.\<close>

definition thread_routine_transparent :: "bench_opts \<Rightarrow> int \<times> u64 \<times> u64 \<Rightarrow> bench \<Rightarrow> bench option" where
  "thread_routine_transparent opt ev s =
     (case ev of (tid, startp, endp) \<Rightarrow>
        Option.bind (request_normal opt tid s) (\<lambda>s.
        Option.bind (arr_write (record_latency s tid) (int (record_cnt s tid)) (endp - startp)) (\<lambda>r.
        Some (s\<lparr>record_latency := (record_latency s)(tid := r),
                record_cnt := (record_cnt s)(tid := record_cnt s tid + 1)\<rparr>))))"

fun run_requests :: "bench_opts \<Rightarrow> (int \<times> u64 \<times> u64) list \<Rightarrow> bench \<Rightarrow> bench option" where
  "run_requests opt [] s = Some s"
| "run_requests opt (ev # evs) s = Option.bind (thread_routine_transparent opt ev s) (run_requests opt evs)"

text \<open>What the end of \<open>main\<close> prints for one thread: its count and that many records.\<close>

definition thread_report :: "bench \<Rightarrow> int \<Rightarrow> (u64 \<times> u64 list) option" where
  "thread_report s i =
     Option.bind (arr_read (global_cnt s) i) (\<lambda>c.
     map_option (\<lambda>xs. (c, xs))
       (those (map (\<lambda>j. arr_read (record_latency s i) (int j)) [0..<nat (sint (ucast c :: u32))])))"

text \<open>In the build with the library's interface a request is a segment with id 0.\<close>

definition request_segment :: "bench_opts \<Rightarrow> u64 \<Rightarrow> u64 \<Rightarrow> tls \<Rightarrow> fault + int \<times> tls" where
  "request_segment opt t0 t1 l =
     (case segment_start 0 t0 l of
        Inl f \<Rightarrow> Inl f
      | Inr (r, l) \<Rightarrow> segment_end 0 (target_latency opt) t1 l)"

section \<open>The accesses\<close>

lemma access_line_in:
  assumes "8 * Suc i \<le> length m"
  shows "access_line i m = Some (m[8 * i + 2 := m ! (8 * i + 7) + 1, 8 * i + 7 := m ! (8 * i + 7) + 2])"
proof -
  have "arr_read m (8 * int i + 7) = Some (m ! (8 * i + 7))"
    using assms by (simp add: arr_read_def nat_add_distrib nat_mult_distrib)
  moreover have "arr_write m (8 * int i + 2) v = Some (m[8 * i + 2 := v])" for v
    using assms by (simp add: arr_write_def nat_add_distrib nat_mult_distrib)
  moreover have "arr_read (m[8 * i + 2 := v]) (8 * int i + 2) = Some v" for v
    using assms by (simp add: arr_read_def nat_add_distrib nat_mult_distrib)
  moreover have "arr_write (m[8 * i + 2 := w]) (8 * int i + 7) v =
      Some ((m[8 * i + 2 := w])[8 * i + 7 := v])" for v w
    using assms by (simp add: arr_write_def nat_add_distrib nat_mult_distrib)
  ultimately show ?thesis by (simp add: access_line_def add.commute)
qed

text \<open>A request adds 2 to the last word of every line it visits, and stays in the area.\<close>

lemma access_lines_in:
  assumes "8 * (i + k) \<le> length m"
  shows "\<exists>m'. access_lines k i m = Some m' \<and> length m' = length m \<and>
    (\<forall>l. m' ! (8 * l + 7) = m ! (8 * l + 7) + (if i \<le> l \<and> l < i + k then 2 else 0))"
  using assms
proof (induction k arbitrary: i m)
  case 0
  then show ?case by simp
next
  case (Suc k)
  let ?m = "m[8 * i + 2 := m ! (8 * i + 7) + 1, 8 * i + 7 := m ! (8 * i + 7) + 2]"
  have line: "access_line i m = Some ?m" using Suc.prems by (intro access_line_in) simp
  have word: "?m ! (8 * l + 7) = m ! (8 * l + 7) + (if l = i then 2 else 0)" for l
  proof -
    have "8 * l + 7 \<noteq> 8 * i + 2" by presburger
    moreover have "8 * i + 7 < length m" using Suc.prems by simp
    ultimately show ?thesis by (simp add: nth_list_update)
  qed
  have "8 * (i + 1 + k) \<le> length ?m" using Suc.prems by simp
  from Suc.IH [OF this] obtain m' where m': "access_lines k (i + 1) ?m = Some m'"
    "length m' = length ?m"
    "\<And>l. m' ! (8 * l + 7) = ?m ! (8 * l + 7) + (if i + 1 \<le> l \<and> l < i + 1 + k then 2 else 0)"
    by blast
  have "m' ! (8 * l + 7) = m ! (8 * l + 7) + (if i \<le> l \<and> l < i + Suc k then 2 else 0)" for l
    by (auto simp only: m'(3) word split: if_splits) auto
  with m'(1,2) line show ?case by simp
qed

lemma access_variables_in:
  assumes "area_words n = Some (length m)"
  shows "\<exists>m'. access_variables m n = Some m' \<and> length m' = length m \<and>
    (\<forall>l < nat n. m' ! (8 * l + 7) = m ! (8 * l + 7) + 2)"
proof -
  from assms have "0 \<le> n" "length m = nat (n * 64) div 8"
    by (auto simp: area_words_def split: if_splits)
  then have "8 * (0 + nat n) \<le> length m" by (simp add: nat_mult_distrib)
  from access_lines_in [OF this] show ?thesis by (auto simp: access_variables_def)
qed

text \<open>
  What is in an area after \<open>c\<close> visits of all its lines: each visit adds 2 to word 7 of a line and
  leaves what it stored first, one less, in word 2. The other words keep their contents.
\<close>

definition after_visits :: "nat \<Rightarrow> u64 list \<Rightarrow> u64 list" where
  "after_visits c a = map (\<lambda>j.
     if j mod 8 = 7 then a ! j + 2 * of_nat c
     else if j mod 8 = 2 \<and> 0 < c then a ! (j + 5) + 2 * of_nat c - 1
     else a ! j) [0..<length a]"

lemma after_visits_0 [simp]: "after_visits 0 a = a"
  by (rule nth_equalityI) (simp_all add: after_visits_def)

lemma length_after_visits [simp]: "length (after_visits c a) = length a"
  by (simp add: after_visits_def)

lemma access_lines_words:
  assumes "8 * (i + k) \<le> length m"
  shows "access_lines k i m = Some (map (\<lambda>j.
     if j div 8 < i \<or> i + k \<le> j div 8 then m ! j
     else if j mod 8 = 7 then m ! j + 2 else if j mod 8 = 2 then m ! (j + 5) + 1 else m ! j) [0..<length m])"
  using assms
proof (induction k arbitrary: i m)
  case 0
  have "j div 8 < i \<or> i + 0 \<le> j div 8" for j by simp linarith
  then show ?case by (simp add: map_nth)
next
  case (Suc k)
  let ?m = "m[8 * i + 2 := m ! (8 * i + 7) + 1, 8 * i + 7 := m ! (8 * i + 7) + 2]"
  have line: "access_line i m = Some ?m" using Suc.prems by (intro access_line_in) simp
  have at: "8 * i + 7 < length m" using Suc.prems by simp
  have word: "?m ! j = (if j = 8 * i + 7 then m ! j + 2
      else if j = 8 * i + 2 then m ! (j + 5) + 1 else m ! j)" for j
    using at by (simp add: nth_list_update add.commute)
  have IH: "access_lines k (i + 1) ?m = Some (map (\<lambda>j.
     if j div 8 < i + 1 \<or> i + 1 + k \<le> j div 8 then ?m ! j
     else if j mod 8 = 7 then ?m ! j + 2 else if j mod 8 = 2 then ?m ! (j + 5) + 1 else ?m ! j) [0..<length ?m])"
    by (rule Suc.IH) (use Suc.prems in simp)
  have "(if j div 8 < i + 1 \<or> i + 1 + k \<le> j div 8 then ?m ! j
     else if j mod 8 = 7 then ?m ! j + 2 else if j mod 8 = 2 then ?m ! (j + 5) + 1 else ?m ! j) =
    (if j div 8 < i \<or> i + Suc k \<le> j div 8 then m ! j
     else if j mod 8 = 7 then m ! j + 2 else if j mod 8 = 2 then m ! (j + 5) + 1 else m ! j)" for j
  proof (cases "j div 8 = i")
    case True
    then have "j = 8 * i + j mod 8" by presburger
    then have "(j = 8 * i + 7) = (j mod 8 = 7)" "(j = 8 * i + 2) = (j mod 8 = 2)" by presburger+
    then show ?thesis using True by (simp only: word) auto
  next
    case False
    then have "j \<noteq> 8 * i + 7" "j \<noteq> 8 * i + 2" by presburger+
    moreover have "j + 5 \<noteq> 8 * i + 7 \<and> j + 5 \<noteq> 8 * i + 2" if "j mod 8 = 2" using that False by presburger
    ultimately show ?thesis using False by (simp only: word) auto
  qed
  then show ?case by (simp only: access_lines.simps line IH bind.bind_lunit length_list_update)
qed

lemma access_variables_after:
  assumes "area_words n = Some (length a)"
  shows "access_variables (after_visits c a) n = Some (after_visits (Suc c) a)"
proof -
  from assms have n: "0 \<le> n" "length a = nat (n * 64) div 8"
    by (auto simp: area_words_def split: if_splits)
  then have len: "length a = 8 * nat n" by (simp add: nat_mult_distrib)
  have up: "j + 5 < length a \<and> (j + 5) mod 8 = 7" if "j < length a" "j mod 8 = 2" for j
  proof -
    from len obtain k where "length a = 8 * k" by simp
    with that show ?thesis by presburger
  qed
  have "access_variables (after_visits c a) n = Some (map (\<lambda>j.
     if j div 8 < 0 \<or> 0 + nat n \<le> j div 8 then after_visits c a ! j
     else if j mod 8 = 7 then after_visits c a ! j + 2
     else if j mod 8 = 2 then after_visits c a ! (j + 5) + 1
     else after_visits c a ! j) [0..<length (after_visits c a)])"
    unfolding access_variables_def by (rule access_lines_words) (simp add: len)
  also have "\<dots> = Some (after_visits (Suc c) a)"
    unfolding after_visits_def [of "Suc c"] option.inject
  proof (rule map_cong)
    show "[0..<length (after_visits c a)] = [0..<length a]" by simp
    fix j assume "j \<in> set [0..<length a]"
    then have j: "j < length a" "\<not> nat n \<le> j div 8" using len by auto
    then show "(if j div 8 < 0 \<or> 0 + nat n \<le> j div 8 then after_visits c a ! j
     else if j mod 8 = 7 then after_visits c a ! j + 2
     else if j mod 8 = 2 then after_visits c a ! (j + 5) + 1
     else after_visits c a ! j) = (if j mod 8 = 7 then a ! j + 2 * of_nat (Suc c)
     else if j mod 8 = 2 \<and> 0 < Suc c then a ! (j + 5) + 2 * of_nat (Suc c) - 1 else a ! j)"
      using up [of j] by (auto simp: after_visits_def algebra_simps)
  qed
  finally show ?thesis .
qed

section \<open>A run of the benchmark\<close>

text \<open>The latencies of the requests of one thread, in the order of the run.\<close>

definition durations :: "int \<Rightarrow> (int \<times> u64 \<times> u64) list \<Rightarrow> u64 list" where
  "durations t evs = map (\<lambda>(i, a, b). b - a) (filter (\<lambda>(i, a, b). i = t) evs)"

definition short_requests :: "bench_opts \<Rightarrow> (int \<times> u64 \<times> u64) list \<Rightarrow> nat" where
  "short_requests opt evs = length (filter (\<lambda>(i, a, b). i < short_thread_number opt) evs)"

text \<open>The arrays as declared and allocated, with the counters at zero.\<close>

definition bench_ready :: "bench_opts \<Rightarrow> bench \<Rightarrow> bool" where
  "bench_ready opt s \<longleftrightarrow> global_cnt s = replicate 80 0 \<and>
     area_words (short_number opt) = Some (length (short_area s)) \<and>
     area_words (long_number opt) = Some (length (long_area s)) \<and>
     (\<forall>t. length (record_latency s t) = LATENCY_RECORD \<and> record_cnt s t = 0)"

text \<open>The state after the requests \<open>evs\<close>, from \<open>a0\<close> as the first contents of the short area.\<close>

definition bench_inv :: "bench_opts \<Rightarrow> u64 list \<Rightarrow> (int \<times> u64 \<times> u64) list \<Rightarrow> bench \<Rightarrow> bool" where
  "bench_inv opt a0 evs s \<longleftrightarrow> length (global_cnt s) = 80 \<and>
     area_words (short_number opt) = Some (length (short_area s)) \<and>
     area_words (long_number opt) = Some (length (long_area s)) \<and>
     (\<forall>t. 0 \<le> t \<and> t < 80 \<longrightarrow>
        global_cnt s ! nat t = of_nat (length (durations t evs)) \<and>
        record_cnt s t = length (durations t evs) \<and>
        length (record_latency s t) = LATENCY_RECORD \<and>
        take (length (durations t evs)) (record_latency s t) = durations t evs) \<and>
     (\<forall>l < nat (short_number opt).
        short_area s ! (8 * l + 7) = a0 ! (8 * l + 7) + 2 * of_nat (short_requests opt evs))"

lemma durations_snoc:
  "durations t (evs @ [(i, a, b)]) = durations t evs @ (if i = t then [b - a] else [])"
  by (simp add: durations_def)

lemma short_requests_snoc:
  "short_requests opt (evs @ [(i, a, b)]) =
   short_requests opt evs + (if i < short_thread_number opt then 1 else 0)"
  by (simp add: short_requests_def)

lemma bench_inv_ready:
  "bench_ready opt s \<Longrightarrow> bench_inv opt (short_area s) [] s"
  by (auto simp: bench_ready_def bench_inv_def durations_def short_requests_def)

lemma request_normal_in:
  assumes inv: "bench_inv opt a0 evs s" and tid: "0 \<le> tid" "tid < 80"
  obtains sa la where
    "request_normal opt tid s = Some (s\<lparr>global_cnt := (global_cnt s)[nat tid := global_cnt s ! nat tid + 1],
       short_area := sa, long_area := la\<rparr>)"
    "length sa = length (short_area s)" "length la = length (long_area s)"
    "\<And>l. l < nat (short_number opt) \<Longrightarrow> sa ! (8 * l + 7) =
       short_area s ! (8 * l + 7) + (if tid < short_thread_number opt then 2 else 0)"
proof -
  let ?g = "(global_cnt s)[nat tid := global_cnt s ! nat tid + 1]"
  have g: "arr_read (global_cnt s) tid = Some (global_cnt s ! nat tid)"
    "\<And>v. arr_write (global_cnt s) tid v = Some ((global_cnt s)[nat tid := v])"
    using inv tid by (simp_all add: bench_inv_def)
  have a: "area_words (short_number opt) = Some (length (short_area s))"
    "area_words (long_number opt) = Some (length (long_area s))"
    using inv by (simp_all add: bench_inv_def)
  show ?thesis
  proof (cases "tid < short_thread_number opt")
    case True
    obtain sa where sa: "access_variables (short_area s) (short_number opt) = Some sa"
      "length sa = length (short_area s)"
      "\<And>l. l < nat (short_number opt) \<Longrightarrow> sa ! (8 * l + 7) = short_area s ! (8 * l + 7) + 2"
      using access_variables_in [OF a(1)] by blast
    show ?thesis
      by (rule that [where sa = sa and la = "long_area s"]) (use True g sa in \<open>cases s, simp_all add: request_normal_def\<close>)
  next
    case False
    obtain la where la: "access_variables (long_area s) (long_number opt) = Some la"
      "length la = length (long_area s)"
      using access_variables_in [OF a(2)] by blast
    show ?thesis
      by (rule that [where sa = "short_area s" and la = la]) (use False g la in \<open>cases s, simp_all add: request_normal_def\<close>)
  qed
qed

text \<open>One more request keeps the books, if its thread still has room for a record.\<close>

lemma bench_step:
  assumes inv: "bench_inv opt a0 evs s" and tid: "0 \<le> tid" "tid < 80"
    and room: "length (durations tid evs) < LATENCY_RECORD"
  shows "\<exists>s'. thread_routine_transparent opt (tid, a, b) s = Some s' \<and>
    bench_inv opt a0 (evs @ [(tid, a, b)]) s'"
proof -
  obtain sa la where r: "request_normal opt tid s =
      Some (s\<lparr>global_cnt := (global_cnt s)[nat tid := global_cnt s ! nat tid + 1],
       short_area := sa, long_area := la\<rparr>)"
    and len: "length sa = length (short_area s)" "length la = length (long_area s)"
    and sa: "\<And>l. l < nat (short_number opt) \<Longrightarrow> sa ! (8 * l + 7) =
       short_area s ! (8 * l + 7) + (if tid < short_thread_number opt then 2 else 0)"
    using request_normal_in [OF inv tid] by blast
  let ?n = "length (durations tid evs)"
  have T: "record_cnt s tid = ?n" "length (record_latency s tid) = LATENCY_RECORD"
    "take ?n (record_latency s tid) = durations tid evs" "global_cnt s ! nat tid = of_nat ?n"
    using inv tid by (simp_all add: bench_inv_def)
  let ?r = "(record_latency s tid)[?n := b - a]"
  let ?s = "s\<lparr>global_cnt := (global_cnt s)[nat tid := global_cnt s ! nat tid + 1],
       short_area := sa, long_area := la, record_latency := (record_latency s)(tid := ?r),
       record_cnt := (record_cnt s)(tid := ?n + 1)\<rparr>"
  have w: "arr_write (record_latency s tid) (int ?n) (b - a) = Some ?r"
    using T(2) room by simp
  have step: "thread_routine_transparent opt (tid, a, b) s = Some ?s"
    using r w T(1) by (simp add: thread_routine_transparent_def)
  have book: "global_cnt ?s ! nat t = of_nat (length (durations t (evs @ [(tid, a, b)]))) \<and>
      record_cnt ?s t = length (durations t (evs @ [(tid, a, b)])) \<and>
      length (record_latency ?s t) = LATENCY_RECORD \<and>
      take (length (durations t (evs @ [(tid, a, b)]))) (record_latency ?s t) =
        durations t (evs @ [(tid, a, b)])" if t: "0 \<le> t" "t < 80" for t
  proof (cases "t = tid")
    case True
    have "length (global_cnt s) = 80" using inv by (simp add: bench_inv_def)
    with True T room tid show ?thesis
      by (simp add: durations_snoc take_Suc_update)
  next
    case False
    then have "nat t \<noteq> nat tid" using t tid by simp
    with False inv t show ?thesis by (simp add: bench_inv_def durations_snoc)
  qed
  have "bench_inv opt a0 (evs @ [(tid, a, b)]) ?s"
    unfolding bench_inv_def
  proof (intro conjI allI impI)
    fix l assume l: "l < nat (short_number opt)"
    then have "short_area s ! (8 * l + 7) = a0 ! (8 * l + 7) + 2 * of_nat (short_requests opt evs)"
      using inv by (simp add: bench_inv_def)
    with sa [OF l] show "short_area ?s ! (8 * l + 7) =
        a0 ! (8 * l + 7) + 2 * of_nat (short_requests opt (evs @ [(tid, a, b)]))"
      by (simp add: short_requests_snoc algebra_simps)
  qed (use inv len book in \<open>simp_all add: bench_inv_def\<close>)
  with step show ?thesis by blast
qed

lemma bench_run:
  assumes "bench_inv opt a0 done s"
    and "list_all (\<lambda>(i, a, b). 0 \<le> i \<and> i < THD_NUM) evs"
    and "\<And>t. length (durations t (done @ evs)) \<le> LATENCY_RECORD"
  shows "\<exists>s'. run_requests opt evs s = Some s' \<and> bench_inv opt a0 (done @ evs) s'"
  using assms
proof (induction evs arbitrary: "done" s)
  case Nil
  then show ?case by simp
next
  case (Cons ev evs)
  obtain i a b where ev: "ev = (i, a, b)" by (cases ev)
  have i: "0 \<le> i" "i < 80" using Cons.prems(2) ev by (simp_all add: THD_NUM_def)
  have "length (durations i done) < LATENCY_RECORD"
    using Cons.prems(3) [of i] ev by (simp add: durations_def)
  from bench_step [OF Cons.prems(1) i this] obtain s' where
    s': "thread_routine_transparent opt ev s = Some s'" "bench_inv opt a0 (done @ [ev]) s'"
    unfolding ev by blast
  have "\<exists>s''. run_requests opt evs s' = Some s'' \<and> bench_inv opt a0 ((done @ [ev]) @ evs) s''"
    using Cons.prems(2,3) by (intro Cons.IH [OF s'(2)]) simp_all
  with s'(1) show ?case by simp
qed

lemma those_reads:
  "those (map (\<lambda>j. arr_read xs (int j)) [0..<n]) = Some (take n xs)" if "n \<le> length xs"
proof -
  have "those (map (\<lambda>j. Some (xs ! j)) js) = Some (map ((!) xs) js)" for js
    by (induction js) simp_all
  moreover have "map (\<lambda>j. arr_read xs (int j)) [0..<n] = map (\<lambda>j. Some (xs ! j)) [0..<n]"
    using that by simp
  moreover have "map ((!) xs) [0..<n] = take n xs"
    using that by (intro nth_equalityI) simp_all
  ultimately show ?thesis by (simp only:)
qed

text \<open>A count that fits is not changed by the assignment to an \<open>int\<close>.\<close>

lemma count_as_int:
  assumes "n < 2 ^ 31"
  shows "sint (ucast (of_nat n :: u64) :: u32) = int n"
proof -
  have "(ucast (of_nat n :: u64) :: u32) = of_nat n"
    using assms by (simp add: unsigned_of_nat take_bit_nat_eq_self)
  moreover have "sint (of_nat n :: u32) = int n"
    using assms by (simp add: signed_of_nat signed_take_bit_int_eq_self)
  ultimately show ?thesis by simp
qed

lemma report_in:
  assumes "bench_inv opt a0 evs s" and t: "0 \<le> t" "t < 80"
    and n: "length (durations t evs) \<le> LATENCY_RECORD"
  shows "thread_report s t = Some (of_nat (length (durations t evs)), durations t evs)"
proof -
  let ?n = "length (durations t evs)"
  have T: "length (global_cnt s) = 80" "global_cnt s ! nat t = of_nat ?n"
    "length (record_latency s t) = LATENCY_RECORD" "take ?n (record_latency s t) = durations t evs"
    using assms(1) t by (simp_all add: bench_inv_def)
  have c: "nat (sint (ucast (of_nat ?n :: u64) :: u32)) = ?n"
    using n count_as_int [of ?n] by (simp add: LATENCY_RECORD_def)
  have "arr_read (global_cnt s) t = Some (of_nat ?n)" using T(1,2) t by simp
  then show ?thesis
    by (simp only: thread_report_def c bind.bind_lunit those_reads [OF n [folded T(3)]] T(4)
        option.map)
qed

text \<open>
  The benchmark counts and prints what happened: any interleaving of requests by the at most
  80 threads, with at most 5000000 of each, runs inside all arrays; afterwards the report of
  every thread is the number of its requests and their latencies in order, and no update of
  the shared lines is lost: the last word of every short line has grown by 2 for every request
  of a short thread.
\<close>

theorem requests_counted:
  assumes ready: "bench_ready opt s"
    and "list_all (\<lambda>(i, a, b). 0 \<le> i \<and> i < THD_NUM) evs"
    and room: "\<And>t. length (durations t evs) \<le> LATENCY_RECORD"
  shows "\<exists>s'. run_requests opt evs s = Some s' \<and>
    (\<forall>t. 0 \<le> t \<and> t < THD_NUM \<longrightarrow>
       thread_report s' t = Some (of_nat (length (durations t evs)), durations t evs)) \<and>
    (\<forall>l < nat (short_number opt). short_area s' ! (8 * l + 7) =
       short_area s ! (8 * l + 7) + 2 * of_nat (short_requests opt evs))"
proof -
  obtain s' where s': "run_requests opt evs s = Some s'" "bench_inv opt (short_area s) evs s'"
    using bench_run [OF bench_inv_ready [OF ready] assms(2)] room by auto
  then show ?thesis
    using report_in [OF s'(2) _ _ room] by (auto simp: bench_inv_def THD_NUM_def)
qed

text \<open>Two threads, one with short and one with long critical sections.\<close>

definition small_bench :: bench where
  "small_bench = \<lparr>global_cnt = replicate 80 0, short_area = replicate 8 0, long_area = replicate 16 0,
     record_latency = (\<lambda>_. replicate LATENCY_RECORD 0), record_cnt = (\<lambda>_. 0)\<rparr>"

definition small_opts :: bench_opts where
  "small_opts = default_opts\<lparr>nb_thread := 2, short_number := 1, long_number := 2, short_thread_number := 1\<rparr>"

lemma small_bench_ready: "bench_ready small_opts small_bench"
  by (simp add: bench_ready_def small_opts_def small_bench_def default_opts_def area_words_def)

lemma requests_counted_witness:
  "\<exists>s'. run_requests small_opts [(0, 5, 9), (1, 6, 20), (0, 30, 31)] small_bench = Some s' \<and>
     thread_report s' 0 = Some (2, [4, 1]) \<and> thread_report s' 1 = Some (1, [14]) \<and>
     short_area s' ! 7 = 4"
proof -
  let ?evs = "[(0, 5, 9), (1, 6, 20), (0, 30, 31)] :: (int \<times> u64 \<times> u64) list"
  have "length (durations t ?evs) \<le> LATENCY_RECORD" for t
    by (simp add: durations_def LATENCY_RECORD_def)
  moreover have "list_all (\<lambda>(i, a, b). 0 \<le> i \<and> i < THD_NUM) ?evs" by (simp add: THD_NUM_def)
  moreover have "durations 0 ?evs = [4, 1]" "durations 1 ?evs = [14]"
    by (simp_all add: durations_def)
  moreover have "short_requests small_opts ?evs = 2" "short_number small_opts = 1" "short_area small_bench ! 7 = 0"
    by (simp_all add: short_requests_def small_opts_def small_bench_def default_opts_def)
  ultimately show ?thesis
    using requests_counted [OF small_bench_ready, of ?evs] by (fastforce simp: THD_NUM_def)
qed

section \<open>Where it leaves its arrays\<close>

lemma spawn_beyond:
  "i \<le> int (length tid) \<Longrightarrow> 0 \<le> i \<Longrightarrow> spawn n i tid h = None \<longleftrightarrow> int (length tid) < i + int n"
proof (induction n arbitrary: i tid)
  case (Suc n)
  show ?case
  proof (cases "i < int (length tid)")
    case True
    then have "arr_write tid i (h i) = Some (tid[nat i := h i])" using Suc.prems by simp
    with True Suc show ?thesis by (simp add: add.assoc)
  qed (use Suc.prems in simp)
qed simp

text \<open>
  \<open>main\<close> does not compare the number of threads with the size of its array: \<open>-t 81\<close> writes
  behind it. Nor does a thread look at the size of its record array: the request after the
  5000000th writes behind it.
\<close>

lemma too_many_threads:
  "length tid = nat THD_NUM \<Longrightarrow> bench_options [(CHR ''t'', 81)] default_opts = Some opt \<Longrightarrow>
   spawn (nat (nb_thread opt)) 0 tid h = None"
  by (auto simp: spawn_beyond THD_NUM_def bench_option_def)

lemma request_normal_books:
  "request_normal opt tid s = Some s' \<Longrightarrow>
   record_latency s' = record_latency s \<and> record_cnt s' = record_cnt s"
  by (auto simp: request_normal_def Let_def bind_eq_Some_conv split: if_splits)

lemma record_overflow:
  "length (record_latency s tid) = LATENCY_RECORD \<Longrightarrow> record_cnt s tid = LATENCY_RECORD \<Longrightarrow>
   thread_routine_transparent opt (tid, a, b) s = None"
  using request_normal_books [of opt tid s]
  by (cases "request_normal opt tid s") (simp_all add: thread_routine_transparent_def)

text \<open>The segment of a request leaves the thread where it was.\<close>

lemma request_segment_restores:
  assumes "tls_ok l" and "stack_pos l < MAX_DEPTH - 1"
  shows "\<exists>l'. request_segment opt t0 t1 l = Inr (0, l') \<and> tls_ok l' \<and>
    cur_segment_id l' = cur_segment_id l \<and> stack_pos l' = stack_pos l"
proof -
  let ?l = "l\<lparr>stack_pos := stack_pos l + 1,
      segment_stack := (segment_stack l)[nat (stack_pos l + 1) := cur_segment_id l],
      cur_segment_id := 0, segment := (segment l)[0 := (segment l ! 0)\<lparr>start_ts := t0\<rparr>]\<rparr>"
  have s: "segment_start 0 t0 l = Inr (0, ?l)"
    using segment_start_ok [OF assms(1) _ _ assms(2), of 0 t0] by (simp add: MAX_SEGMENT_def)
  have ok: "tls_ok ?l"
    using tls_ok_started [OF assms(1) _ _ assms(2), of 0 0] by (simp add: MAX_SEGMENT_def)
  have pos: "0 \<le> stack_pos l + 1" "nat (stack_pos l + 1) < length (segment_stack l)"
    using assms by (auto simp: tls_ok_def)
  have "cur_segment_id ?l \<noteq> -1" by simp
  from ok this have "\<exists>l'. segment_end 0 (target_latency opt) t1 ?l = Inr (0, l') \<and> tls_ok l' \<and>
      cur_segment_id l' = cur_segment_id l \<and> stack_pos l' = stack_pos l"
  proof (cases rule: segment_end_cases [where segment_id = 0 and lat = "target_latency opt" and now = t1])
    case (left sg t')
    have "tls_ok t'"
      using left(2) tls_ok_started [OF assms(1) _ _ assms(2), of 0 0 sg] by (simp add: MAX_SEGMENT_def)
    then obtain l' where "leave_segment t' = Inr (0, l')" "tls_ok l'"
      "stack_pos l' = stack_pos t' - 1" "cur_segment_id l' = segment_stack t' ! nat (stack_pos t')"
    proof (rule leave_segment_cases)
      fix l' assume l': "leave_segment t' = Inr (0, l')" "tls_ok l'" and
        "0 \<le> stack_pos t' \<Longrightarrow> stack_pos l' = stack_pos t' - 1 \<and>
           cur_segment_id l' = segment_stack t' ! nat (stack_pos t') \<and> segment_stack l' = segment_stack t'"
      moreover have "0 \<le> stack_pos t'" using pos(1) left(2) by simp
      ultimately show ?thesis using that [OF l'] by simp
    qed
    moreover have "segment_stack t' ! nat (stack_pos t') = cur_segment_id l" "stack_pos t' - 1 = stack_pos l"
      using left(2) pos(2) by simp_all
    ultimately show ?thesis using left(1) by simp
  next
    case refused
    then show ?thesis by simp
  qed
  with s show ?thesis by (simp add: request_segment_def)
qed

end
