(* ===== verification/BenchLock.thy ===== *)
theory BenchLock
  imports Bench MutexSafety
begin

text \<open>
  The requests of \<open>bench/bench_block.c\<close>, access by access, on the lock of \<open>Machine\<close>: every load and
  store of \<open>request_normal\<close> and \<open>access_variables\<close> is a step of its own, interleaved with the
  steps of the other threads in the program and inside the lock. The theorems say that the
  requests are atomic all the same, which is what \<open>Bench\<close> and \<open>BenchMain\<close> take for granted
  when they make a request one step.
\<close>

section \<open>A request, access by access\<close>

text \<open>
  The position of a thread in \<open>request_normal\<close>; the numbers are the value an access has loaded
  and the line it is at. \<open>R_locking\<close> and \<open>R_unlocking\<close>: inside the call.
\<close>

datatype req_pc = R_segment | R_lock | R_locking
  | R_cnt_load | R_cnt_store u64
  | R_load7 nat | R_store2 nat u64 | R_load2 nat | R_store7 nat u64
  | R_unlock | R_unlocking | R_segment_end

definition area_of :: "bench_opts \<Rightarrow> tid \<Rightarrow> bench \<Rightarrow> u64 list" where
  "area_of opt i b = (if int i < short_thread_number opt then short_area b else long_area b)"

definition put_area :: "bench_opts \<Rightarrow> tid \<Rightarrow> u64 list \<Rightarrow> bench \<Rightarrow> bench" where
  "put_area opt i a b =
     (if int i < short_thread_number opt then b\<lparr>short_area := a\<rparr> else b\<lparr>long_area := a\<rparr>)"

definition lines_of :: "bench_opts \<Rightarrow> tid \<Rightarrow> nat" where
  "lines_of opt i = nat (if int i < short_thread_number opt then short_number opt else long_number opt)"

text \<open>The test of the loop of \<open>access_variables\<close>.\<close>

definition next_line :: "bench_opts \<Rightarrow> tid \<Rightarrow> nat \<Rightarrow> req_pc" where
  "next_line opt i j = (if j < lines_of opt i then R_load7 j else R_unlock)"

text \<open>The accesses between lock and unlock; \<open>None\<close> is one outside its array.\<close>

fun access_step :: "bench_opts \<Rightarrow> tid \<Rightarrow> req_pc \<Rightarrow> bench \<Rightarrow> (req_pc \<times> bench) option" where
  "access_step opt i R_cnt_load b =
     map_option (\<lambda>c. (R_cnt_store c, b)) (arr_read (global_cnt b) (int i))"
| "access_step opt i (R_cnt_store c) b =
     map_option (\<lambda>g. (next_line opt i 0, b\<lparr>global_cnt := g\<rparr>)) (arr_write (global_cnt b) (int i) (c + 1))"
| "access_step opt i (R_load7 j) b =
     map_option (\<lambda>v. (R_store2 j v, b)) (arr_read (area_of opt i b) (8 * int j + 7))"
| "access_step opt i (R_store2 j v) b =
     map_option (\<lambda>a. (R_load2 j, put_area opt i a b)) (arr_write (area_of opt i b) (8 * int j + 2) (v + 1))"
| "access_step opt i (R_load2 j) b =
     map_option (\<lambda>v. (R_store7 j v, b)) (arr_read (area_of opt i b) (8 * int j + 2))"
| "access_step opt i (R_store7 j v) b =
     map_option (\<lambda>a. (next_line opt i (j + 1), put_area opt i a b))
       (arr_write (area_of opt i b) (8 * int j + 7) (v + 1))"
| "access_step opt i _ b = None"

record service =
  lib :: sys
  shared :: bench
  rpc :: "tid \<Rightarrow> req_pc"

definition set_rpc :: "tid \<Rightarrow> req_pc \<Rightarrow> service \<Rightarrow> service" where
  "set_rpc i p r = r\<lparr>rpc := (rpc r)(i := p)\<rparr>"

definition library_call :: "tid \<Rightarrow> op \<Rightarrow> service \<Rightarrow> service" where
  "library_call i x r = r\<lparr>lib := call i x (lib r)\<rparr>"

text \<open>
  The next step of a thread that is outside the library. \<open>api\<close>: the build with
  \<open>LIBHTLL_INTERFACE\<close>, in which a request is a segment; \<open>m\<close> is the lock of \<open>global_lock\<close> and
  \<open>now\<close> the clock of the segment calls. A thread ends a request and begins the next one.
\<close>

definition request_step :: "bench_opts \<Rightarrow> bool \<Rightarrow> maddr \<Rightarrow> tid \<Rightarrow> u64 \<Rightarrow> service \<Rightarrow> service option" where
  "request_step opt api m i now r =
     (case rpc r i of
        R_segment \<Rightarrow> Some (set_rpc i R_lock (if api then library_call i (Seg_start 0 now) r else r))
      | R_lock \<Rightarrow> Some (set_rpc i R_locking (library_call i (Lock m) r))
      | R_locking \<Rightarrow> Some (set_rpc i R_cnt_load r)
      | R_unlock \<Rightarrow> Some (set_rpc i R_unlocking (library_call i (Unlock m) r))
      | R_unlocking \<Rightarrow> Some (set_rpc i R_segment_end r)
      | R_segment_end \<Rightarrow>
          Some (set_rpc i R_segment (if api then library_call i (Seg_end 0 (target_latency opt) now) r else r))
      | p \<Rightarrow> map_option (\<lambda>(p, b). set_rpc i p (r\<lparr>shared := b\<rparr>)) (access_step opt i p (shared r)))"

text \<open>An event: a step of a thread in the program, or one inside the library (or of the kernel).\<close>

datatype service_event = Own tid u64 | Inside event

fun service_exec :: "bench_opts \<Rightarrow> bool \<Rightarrow> maddr \<Rightarrow> service_event \<Rightarrow> service \<Rightarrow> service option" where
  "service_exec opt api m (Own i now) r =
     (if i < nthreads (lib r) \<and> pc (thr (lib r) i) = Idle then request_step opt api m i now r else None)"
| "service_exec opt api m (Inside ev) r =
     (case ev of
        Calls i x \<Rightarrow> None
      | _ \<Rightarrow> map_option (\<lambda>s. r\<lparr>lib := s\<rparr>) (run_event (\<lambda>_ _ _. True) ev (lib r)))"

definition service_step :: "bench_opts \<Rightarrow> bool \<Rightarrow> maddr \<Rightarrow> service \<Rightarrow> service \<Rightarrow> bool" where
  "service_step opt api m r r' \<longleftrightarrow> (\<exists>ev. service_exec opt api m ev r = Some r')"

definition service_start :: "nat \<Rightarrow> service \<Rightarrow> bool" where
  "service_start n r \<longleftrightarrow> initial n (lib r) \<and> (\<forall>i. rpc r i = R_segment)"

abbreviation run_service :: "bench_opts \<Rightarrow> bool \<Rightarrow> maddr \<Rightarrow> service_event list \<Rightarrow> service \<Rightarrow> service option" where
  "run_service opt api m \<equiv> exec_all (service_exec opt api m)"

lemma set_rpc_simps [simp]:
  "lib (set_rpc i p r) = lib r" "shared (set_rpc i p r) = shared r"
  "rpc (set_rpc i p r) j = (if j = i then p else rpc r j)"
  by (simp_all add: set_rpc_def)

lemma library_call_simps [simp]:
  "lib (library_call i x r) = call i x (lib r)" "shared (library_call i x r) = shared r"
  "rpc (library_call i x r) = rpc r"
  by (simp_all add: library_call_def)

section \<open>Who is in the critical section\<close>

fun in_cs :: "req_pc \<Rightarrow> bool" where
  "in_cs R_segment \<longleftrightarrow> False"
| "in_cs R_lock \<longleftrightarrow> False"
| "in_cs R_locking \<longleftrightarrow> False"
| "in_cs R_unlocking \<longleftrightarrow> False"
| "in_cs R_segment_end \<longleftrightarrow> False"
| "in_cs _ \<longleftrightarrow> True"

lemma in_cs_next_line [simp]: "in_cs (next_line opt i j)"
  by (simp add: next_line_def)

text \<open>What a position says of the thread in the library.\<close>

definition place_ok :: "maddr \<Rightarrow> req_pc \<Rightarrow> thread \<Rightarrow> bool" where
  "place_ok m p t \<longleftrightarrow>
     (in_cs p \<longrightarrow> pc t = Idle \<and> m \<in> held t) \<and>
     (p = R_locking \<longrightarrow> (\<exists>q. pc t = In_lock q m) \<or> (\<exists>f. pc t = Faulted f) \<or> pc t = Idle \<and> m \<in> held t)"

definition service_inv :: "maddr \<Rightarrow> service \<Rightarrow> bool" where
  "service_inv m r \<longleftrightarrow> mutex_inv (lib r) \<and>
     (\<forall>i < nthreads (lib r). place_ok m (rpc r i) (thr (lib r) i))"

lemma service_inv_D:
  assumes "service_inv m r"
  shows "mutex_inv (lib r)" "i < nthreads (lib r) \<Longrightarrow> place_ok m (rpc r i) (thr (lib r) i)"
  using assms by (simp_all add: service_inv_def)

lemma place_ok_moved:
  assumes "place_ok m p t" and "moved t t'"
  shows "place_ok m p t'"
proof (cases "sleeping_on (pc t)")
  case None
  with moved_busy [OF assms(2)] assms(1) show ?thesis by simp
next
  case (Some a)
  have "\<exists>q'. pc t' = In_lock q' m" if "pc t = In_lock q m" for q
    using assms(2) that by (cases q) (auto simp: moved_def woken_def)
  with Some assms(1) show ?thesis by (auto simp: place_ok_def)
qed

text \<open>A step inside \<open>htll_mutex_lock\<close> stays in the call, faults, or returns with the mutex.\<close>

lemma lock_step_place:
  assumes "lock_step e i m q s = Some s'"
  shows "place_ok m R_locking (thr s' i)"
  using assms
  by (cases q)
    (auto simp: place_ok_def swap8_or_eq swap32_or_eq acquired_def Let_def
      split: option.splits sum.splits if_splits)

lemma thread_step_place:
  assumes "place_ok m p (thr s i)" and "thread_step e i s = Some s'"
  shows "place_ok m p (thr s' i)"
  using assms lock_step_place [of e i m _ s s'] by (auto simp: place_ok_def thread_step_def)

lemma service_inv_lib:
  assumes "service_inv m r" and "mutex_inv s'" and "nthreads s' = nthreads (lib r)"
    and "\<And>j. j < nthreads s' \<Longrightarrow> place_ok m (rpc r j) (thr s' j)"
  shows "service_inv m (r\<lparr>lib := s'\<rparr>)"
  using assms by (simp add: service_inv_def)

lemma service_inv_inside:
  assumes inv: "service_inv m r" and run: "run_event (\<lambda>_ _ _. True) ev (lib r) = Some s'"
    and ev: "\<And>i x. ev \<noteq> Calls i x"
  shows "service_inv m (r\<lparr>lib := s'\<rparr>)"
proof (rule service_inv_lib [OF inv])
  show "mutex_inv s'" using mutex_inv_step [OF run_event_step [OF run]] service_inv_D(1) [OF inv] by simp
  show n: "nthreads s' = nthreads (lib r)"
    using run ev by (auto simp: run_event_def thread_step_frame(1) split: event.splits if_splits)
  show "place_ok m (rpc r j) (thr s' j)" if "j < nthreads s'" for j
  proof (cases ev)
    case (Runs i e)
    with run have "thread_step e i (lib r) = Some s'" by (auto simp: run_event_def split: if_splits)
    with service_inv_D(2) [OF inv] that n show ?thesis
      by (cases "j = i") (auto intro: thread_step_place place_ok_moved thread_step_frame(2))
  next
    case (Unblocks i)
    with run have "s' = awaken i (lib r)" "sleeping_on (pc (thr (lib r) i)) \<noteq> None"
      by (auto simp: run_event_def split: if_splits)
    then have "moved (thr (lib r) j) (thr s' j)" using only_moves_awaken moves_thr by blast
    with service_inv_D(2) [OF inv] that n show ?thesis by (auto intro: place_ok_moved)
  qed (use ev in blast)
qed

lemma place_ok_free [simp]: "\<not> in_cs p \<Longrightarrow> p \<noteq> R_locking \<Longrightarrow> place_ok m p t"
  by (simp add: place_ok_def)

lemma service_inv_set_rpc:
  assumes "service_inv m r" and "place_ok m p (thr (lib r) i)"
  shows "service_inv m (set_rpc i p r)"
  using assms by (simp add: service_inv_def)

lemma service_inv_shared [simp]: "service_inv m (r\<lparr>shared := b\<rparr>) = service_inv m r"
  by (simp add: service_inv_def)

lemma service_inv_call:
  assumes inv: "service_inv m r" and i: "i < nthreads (lib r)" "pc (thr (lib r) i) = Idle"
    and "disciplined i x (lib r)" and "place_ok m p (thr (call i x (lib r)) i)"
  shows "service_inv m (set_rpc i p (library_call i x r))"
proof -
  have "sys_step (\<lambda>_ _ _. True) (lib r) (call i x (lib r))" using i assms(4) by (rule sys_step.calls) simp
  then have "mutex_inv (call i x (lib r))" by (rule mutex_inv_step) (rule service_inv_D(1) [OF inv])
  moreover have "place_ok m (rpc r j) (thr (call i x (lib r)) j)" if "j \<noteq> i" "j < nthreads (lib r)" for j
    using that service_inv_D(2) [OF inv] by (simp add: call_frame(2))
  ultimately show ?thesis using assms(5) by (simp add: service_inv_def call_frame(1))
qed

lemma access_step_cs: "access_step opt i p b = Some (p', b') \<Longrightarrow> in_cs p \<and> in_cs p'"
  by (cases "(opt, i, p, b)" rule: access_step.cases) auto

text \<open>The steps of a thread in the program, by what they are to the library and to the data.\<close>

lemma request_step_cases:
  assumes "request_step opt api m i now r = Some r'"
  obtains (call) x p where "rpc r i = R_segment \<and> p = R_lock \<and> x = Seg_start 0 now \<or>
      rpc r i = R_lock \<and> p = R_locking \<and> x = Lock m \<or>
      rpc r i = R_unlock \<and> p = R_unlocking \<and> x = Unlock m \<or>
      rpc r i = R_segment_end \<and> p = R_segment \<and> x = Seg_end 0 (target_latency opt) now"
      "r' = set_rpc i p (library_call i x r)"
  | (pass) p where "rpc r i = R_segment \<and> p = R_lock \<or> rpc r i = R_unlocking \<and> p = R_segment_end \<or>
      rpc r i = R_segment_end \<and> p = R_segment" "r' = set_rpc i p r"
  | (enter) "rpc r i = R_locking" "r' = set_rpc i R_cnt_load r"
  | (access) p b where "access_step opt i (rpc r i) (shared r) = Some (p, b)" "r' = set_rpc i p (r\<lparr>shared := b\<rparr>)"
  using assms by (cases "rpc r i") (auto simp: request_step_def split: if_splits)

lemma service_inv_own:
  assumes inv: "service_inv m r" and i: "i < nthreads (lib r)" "pc (thr (lib r) i) = Idle"
    and step: "request_step opt api m i now r = Some r'"
  shows "service_inv m r'"
proof -
  have own: "in_cs (rpc r i) \<or> rpc r i = R_locking \<Longrightarrow> m \<in> held (thr (lib r) i)"
    using service_inv_D(2) [OF inv i(1)] i(2) by (auto simp: place_ok_def)
  from step show ?thesis
  proof (cases rule: request_step_cases)
    case (call x p)
    have "disciplined i x (lib r)" using call(1) own by auto
    moreover have "place_ok m p (thr (call i x (lib r)) i)"
      using call(1) by (auto simp: place_ok_def lock_enter_def)
    ultimately show ?thesis unfolding call(2) by (rule service_inv_call [OF inv i])
  next
    case (pass p)
    then show ?thesis using inv by (auto intro: service_inv_set_rpc)
  next
    case enter
    then show ?thesis using inv own i(2) by (auto simp: place_ok_def intro: service_inv_set_rpc)
  next
    case (access p b)
    with access_step_cs [OF access(1)] own i(2) inv show ?thesis
      by (auto simp: place_ok_def intro!: service_inv_set_rpc)
  qed
qed

lemma service_inv_exec:
  assumes "service_inv m r" and "service_exec opt api m ev r = Some r'"
  shows "service_inv m r'"
  using assms
  by (cases ev)
    (auto split: if_splits event.splits intro: service_inv_own service_inv_inside)

lemma service_inv_start: "service_start n r \<Longrightarrow> service_inv m r"
  by (auto simp: service_start_def service_inv_def mutex_inv_initial)

interpretation service: checked_system "service_exec opt api m" "service_step opt api m"
    "service_start n" "service_inv m" for opt api m n
  by unfold_locales (simp add: service_step_def, rule service_inv_start, assumption, rule service_inv_exec)

text \<open>So at most one thread is between its lock and its unlock.\<close>

lemma one_in_cs:
  assumes "service_inv m r" and "i < nthreads (lib r)" and "j < nthreads (lib r)"
    and "in_cs (rpc r i)" and "in_cs (rpc r j)"
  shows "i = j"
proof (rule word_inv_unique [of "lib r" _ m])
  show "word_inv (lib r)" using service_inv_D(1) [OF assms(1)] by (simp add: mutex_inv_def)
  show "i \<in> owners m (lib r)" "j \<in> owners m (lib r)"
    using service_inv_D(2) [OF assms(1)] assms(2-5) by (auto simp: owners_def place_ok_def)
qed

section \<open>What is left of a request\<close>

definition lines_from :: "bench_opts \<Rightarrow> tid \<Rightarrow> nat \<Rightarrow> bench \<Rightarrow> bench option" where
  "lines_from opt i j b =
     map_option (\<lambda>a. put_area opt i a b) (access_lines (lines_of opt i - j) j (area_of opt i b))"

text \<open>The shared data after the rest of the request of a thread at a position.\<close>

fun finish :: "bench_opts \<Rightarrow> tid \<Rightarrow> req_pc \<Rightarrow> bench \<Rightarrow> bench option" where
  "finish opt i R_cnt_load b = request_normal opt (int i) b"
| "finish opt i (R_cnt_store c) b =
     Option.bind (arr_write (global_cnt b) (int i) (c + 1)) (\<lambda>g. lines_from opt i 0 (b\<lparr>global_cnt := g\<rparr>))"
| "finish opt i (R_load7 j) b =
     Option.bind (access_line j (area_of opt i b)) (\<lambda>a. lines_from opt i (j + 1) (put_area opt i a b))"
| "finish opt i (R_store2 j v) b =
     Option.bind (arr_write (area_of opt i b) (8 * int j + 2) (v + 1)) (\<lambda>a.
     Option.bind (arr_read a (8 * int j + 2)) (\<lambda>v.
     Option.bind (arr_write a (8 * int j + 7) (v + 1)) (\<lambda>a. lines_from opt i (j + 1) (put_area opt i a b))))"
| "finish opt i (R_load2 j) b =
     Option.bind (arr_read (area_of opt i b) (8 * int j + 2)) (\<lambda>v.
     Option.bind (arr_write (area_of opt i b) (8 * int j + 7) (v + 1)) (\<lambda>a.
     lines_from opt i (j + 1) (put_area opt i a b)))"
| "finish opt i (R_store7 j v) b =
     Option.bind (arr_write (area_of opt i b) (8 * int j + 7) (v + 1)) (\<lambda>a.
     lines_from opt i (j + 1) (put_area opt i a b))"
| "finish opt i _ b = Some b"

lemma area_simps [simp]:
  "area_of opt i (put_area opt i a b) = a" "put_area opt i a' (put_area opt i a b) = put_area opt i a' b"
  "put_area opt i (area_of opt i b) b = b"
  by (simp_all add: area_of_def put_area_def)

lemma finish_next_line: "finish opt i (next_line opt i j) b = lines_from opt i j b"
proof (cases "j < lines_of opt i")
  case True
  then obtain k where k: "lines_of opt i - j = Suc k" "lines_of opt i - Suc j = k"
    by (metis Suc_diff_Suc)
  show ?thesis using True k
    by (cases "access_line j (area_of opt i b)") (simp_all add: next_line_def lines_from_def)
qed (simp add: next_line_def lines_from_def)

lemma request_normal_lines:
  "request_normal opt (int i) b = Option.bind (arr_read (global_cnt b) (int i)) (\<lambda>c.
     finish opt i (R_cnt_store c) b)"
  by (cases "arr_read (global_cnt b) (int i)")
    (simp_all add: request_normal_def lines_from_def lines_of_def area_of_def put_area_def access_variables_def)

text \<open>An access does the first part of what is left and leaves the rest.\<close>

lemma finish_access:
  assumes "access_step opt i p b = Some (p', b')"
  shows "finish opt i p' b' = finish opt i p b"
  using assms
  by (cases "(opt, i, p, b)" rule: access_step.cases)
    (auto simp: finish_next_line request_normal_lines access_line_def)

lemma finish_can_access:
  assumes "finish opt i p b \<noteq> None" and "in_cs p" and "p \<noteq> R_unlock"
  shows "access_step opt i p b \<noteq> None"
  using assms
  by (cases "(opt, i, p, b)" rule: access_step.cases)
    (auto simp: request_normal_def access_line_def split: bind_splits)

section \<open>Requests are atomic\<close>

text \<open>The shared data with the request that is under way, if there is one, brought to its end.\<close>

definition settled :: "bench_opts \<Rightarrow> service \<Rightarrow> bench option" where
  "settled opt r =
     (case filter (\<lambda>i. in_cs (rpc r i)) [0..<nthreads (lib r)] of
        [] \<Rightarrow> Some (shared r)
      | i # _ \<Rightarrow> finish opt i (rpc r i) (shared r))"

lemma settled_out:
  "(\<And>i. i < nthreads (lib r) \<Longrightarrow> \<not> in_cs (rpc r i)) \<Longrightarrow> settled opt r = Some (shared r)"
  by (simp add: settled_def filter_empty_conv)

lemma settled_in:
  assumes "service_inv m r" and "i < nthreads (lib r)" and "in_cs (rpc r i)"
  shows "settled opt r = finish opt i (rpc r i) (shared r)"
proof -
  let ?xs = "filter (\<lambda>i. in_cs (rpc r i)) [0..<nthreads (lib r)]"
  have all: "j \<in> set ?xs \<Longrightarrow> j = i" for j using one_in_cs [OF assms(1)] assms(2,3) by auto
  have "i \<in> set ?xs" using assms(2,3) by simp
  then obtain j js where js: "?xs = j # js" by (cases ?xs) auto
  with all [of j] have "j = i" by simp
  with js show ?thesis by (simp add: settled_def)
qed

lemma settled_cong:
  assumes "nthreads (lib r') = nthreads (lib r)" and "shared r' = shared r"
    and "\<And>j. in_cs (rpc r' j) = in_cs (rpc r j)" and "\<And>j. in_cs (rpc r j) \<Longrightarrow> rpc r' j = rpc r j"
  shows "settled opt r' = settled opt r"
proof (cases "filter (\<lambda>i. in_cs (rpc r i)) [0..<nthreads (lib r)]")
  case (Cons i js)
  then have "i \<in> set (filter (\<lambda>i. in_cs (rpc r i)) [0..<nthreads (lib r)])" by simp
  then have "rpc r' i = rpc r i" by (intro assms(4)) simp
  with Cons show ?thesis by (simp add: settled_def assms(1-3))
qed (simp add: settled_def assms(1-3))

text \<open>A request takes effect when its call of \<open>pthread_mutex_lock\<close> returns.\<close>

fun entry :: "service_event \<Rightarrow> service \<Rightarrow> tid option" where
  "entry (Own i now) r = (if rpc r i = R_locking then Some i else None)"
| "entry (Inside ev) r = None"

fun entries :: "bench_opts \<Rightarrow> bool \<Rightarrow> maddr \<Rightarrow> service_event list \<Rightarrow> service \<Rightarrow> tid list" where
  "entries opt api m [] r = []"
| "entries opt api m (ev # evs) r =
     (case service_exec opt api m ev r of
        None \<Rightarrow> []
      | Some r' \<Rightarrow> (case entry ev r of None \<Rightarrow> [] | Some i \<Rightarrow> [i]) @ entries opt api m evs r')"

text \<open>The requests one after the other, each as one step of \<open>Bench\<close>.\<close>

fun requests :: "bench_opts \<Rightarrow> tid list \<Rightarrow> bench \<Rightarrow> bench option" where
  "requests opt [] b = Some b"
| "requests opt (i # js) b = Option.bind (request_normal opt (int i) b) (requests opt js)"

lemma settled_own:
  assumes inv: "service_inv m r" and i: "i < nthreads (lib r)" "pc (thr (lib r) i) = Idle"
    and step: "request_step opt api m i now r = Some r'" and "service_inv m r'"
  shows "settled opt r' = (if rpc r i = R_locking
     then Option.bind (settled opt r) (request_normal opt (int i)) else settled opt r)"
  using step
proof (cases rule: request_step_cases)
  case (call x p)
  have n: "nthreads (lib r') = nthreads (lib r)" by (simp add: call(2) call_frame(1))
  show ?thesis
  proof (cases "rpc r i = R_unlock")
    case True
    then have "\<not> in_cs (rpc r' j)" if "j < nthreads (lib r')" for j
      using call one_in_cs [OF inv _ i(1), of j] that n by auto
    then have "settled opt r' = Some (shared r')" by (rule settled_out)
    with True settled_in [OF inv i(1)] show ?thesis by (simp add: call(2))
  next
    case False
    then have "settled opt r' = settled opt r" using call n by (intro settled_cong) auto
    with False call(1) show ?thesis by auto
  qed
next
  case (pass p)
  then have "settled opt r' = settled opt r" by (intro settled_cong) auto
  with pass(1) show ?thesis by auto
next
  case enter
  have m: "m \<in> held (thr (lib r) i)"
    using service_inv_D(2) [OF inv i(1)] i(2) enter(1) by (simp add: place_ok_def)
  have "\<not> in_cs (rpc r j)" if j: "j < nthreads (lib r)" for j
  proof
    assume cs: "in_cs (rpc r j)"
    then have "m \<in> held (thr (lib r) j)" using service_inv_D(2) [OF inv j] by (simp add: place_ok_def)
    then have "i = j"
      using word_inv_unique [of "lib r" i m j] service_inv_D(1) [OF inv] m i j
      by (simp add: mutex_inv_def owners_def)
    with cs enter(1) show False by simp
  qed
  then have "settled opt r = Some (shared r)" by (rule settled_out)
  moreover have "settled opt r' = finish opt i (rpc r' i) (shared r')"
    by (rule settled_in [OF assms(5)]) (use enter i in simp_all)
  ultimately show ?thesis by (simp add: enter)
next
  case (access p b)
  from access_step_cs [OF access(1)] have cs: "in_cs (rpc r i)" "in_cs p" by simp_all
  have "settled opt r' = finish opt i (rpc r' i) (shared r')"
    by (rule settled_in [OF assms(5)]) (use access i cs in simp_all)
  moreover have "settled opt r = finish opt i (rpc r i) (shared r)" by (rule settled_in [OF inv i(1) cs(1)])
  ultimately show ?thesis using finish_access [OF access(1)] cs(1) by (auto simp: access(2))
qed

lemma settled_exec:
  assumes "service_inv m r" and "service_exec opt api m ev r = Some r'"
  shows "settled opt r' = (case entry ev r of None \<Rightarrow> settled opt r
     | Some i \<Rightarrow> Option.bind (settled opt r) (request_normal opt (int i)))"
proof (cases ev)
  case (Own i now)
  with settled_own [OF assms(1) _ _ _ service_inv_exec [OF assms], of i opt api now] assms(2) show ?thesis
    by (auto split: if_splits)
next
  case (Inside e)
  then obtain s' where s': "run_event (\<lambda>_ _ _. True) e (lib r) = Some s'" "r' = r\<lparr>lib := s'\<rparr>"
    and "\<And>i x. e \<noteq> Calls i x"
    using assms(2) by (auto split: event.splits)
  then have "nthreads s' = nthreads (lib r)"
    by (auto simp: run_event_def thread_step_frame(1) split: event.splits if_splits)
  with s' have "settled opt r' = settled opt r" by (intro settled_cong) auto
  with Inside show ?thesis by simp
qed

lemma settled_run:
  assumes "service_inv m r" and "run_service opt api m evs r = Some r'"
  shows "settled opt r' = Option.bind (settled opt r) (requests opt (entries opt api m evs r))"
  using assms
proof (induction evs arbitrary: r)
  case (Cons ev evs)
  then obtain s where s: "service_exec opt api m ev r = Some s" "run_service opt api m evs s = Some r'"
    by (auto split: option.splits)
  from settled_exec [OF Cons.prems(1) s(1)] Cons.IH [OF service_inv_exec [OF Cons.prems(1) s(1)] s(2)] s(1)
  show ?case by (cases "settled opt r") (auto split: option.splits)
next
  case Nil
  then show ?case by (cases "settled opt r'") simp_all
qed

text \<open>
  C6. Requests are atomic. Run the threads of the benchmark on the library in any
  interleaving of single accesses, lock steps and wake-ups: at every moment the shared data,
  with the request under way brought to its end, is what the requests give that are
  executed one after the other in the order in which their calls of \<open>pthread_mutex_lock\<close>
  returned.
\<close>

theorem requests_serialised:
  assumes "service_start n r" and "run_service opt api m evs r = Some r'"
  shows "settled opt r' = requests opt (entries opt api m evs r) (shared r)"
proof -
  have "settled opt r = Some (shared r)"
    using assms(1) by (intro settled_out) (simp add: service_start_def)
  with settled_run [OF service_inv_start [OF assms(1)] assms(2)] show ?thesis by simp
qed

section \<open>Nothing is lost\<close>

text \<open>The requests that visit the lines of the short area, and those that visit the long one.\<close>

definition short_visits :: "bench_opts \<Rightarrow> tid list \<Rightarrow> nat" where
  "short_visits opt js = length (filter (\<lambda>j. int j < short_thread_number opt) js)"

definition long_visits :: "bench_opts \<Rightarrow> tid list \<Rightarrow> nat" where
  "long_visits opt js = length (filter (\<lambda>j. \<not> int j < short_thread_number opt) js)"

text \<open>The books after the requests \<open>js\<close>, from \<open>b0\<close> as the first contents.\<close>

definition request_books :: "bench_opts \<Rightarrow> bench \<Rightarrow> tid list \<Rightarrow> bench \<Rightarrow> bool" where
  "request_books opt b0 js b \<longleftrightarrow> length (global_cnt b) = 80 \<and>
     (\<forall>t < 80. global_cnt b ! t = of_nat (count_list js t)) \<and>
     short_area b = after_visits (short_visits opt js) (short_area b0) \<and>
     long_area b = after_visits (long_visits opt js) (long_area b0)"

lemma request_books_ready: "bench_ready opt b \<Longrightarrow> request_books opt b [] b"
  by (auto simp: bench_ready_def request_books_def short_visits_def long_visits_def)

lemma request_books_step:
  assumes "bench_ready opt b0" and books: "request_books opt b0 js b" and i: "i < 80"
  shows "\<exists>b'. request_normal opt (int i) b = Some b' \<and> request_books opt b0 (js @ [i]) b'"
proof -
  have g: "arr_read (global_cnt b) (int i) = Some (global_cnt b ! i)"
    "\<And>v. arr_write (global_cnt b) (int i) v = Some ((global_cnt b)[i := v])"
    using books i by (simp_all add: request_books_def)
  have "area_words (short_number opt) = Some (length (short_area b0))"
    "area_words (long_number opt) = Some (length (long_area b0))"
    using assms(1) by (simp_all add: bench_ready_def)
  then have "access_variables (short_area b) (short_number opt) =
      Some (after_visits (Suc (short_visits opt js)) (short_area b0))"
    "access_variables (long_area b) (long_number opt) =
      Some (after_visits (Suc (long_visits opt js)) (long_area b0))"
    using books access_variables_after by (simp_all add: request_books_def)
  then show ?thesis using g books i
    by (cases "int i < short_thread_number opt")
      (auto simp: request_normal_def request_books_def short_visits_def long_visits_def nth_list_update)
qed

lemma request_books_run:
  assumes "bench_ready opt b0" and "request_books opt b0 done b" and "\<forall>i \<in> set js. i < 80"
  shows "\<exists>b'. requests opt js b = Some b' \<and> request_books opt b0 (done @ js) b'"
  using assms(2,3)
proof (induction js arbitrary: "done" b)
  case (Cons i js)
  from Cons.prems(2) have "i < 80" "\<forall>i \<in> set js. i < 80" by simp_all
  from request_books_step [OF assms(1) Cons.prems(1) this(1)]
  obtain b' where b': "request_normal opt (int i) b = Some b'" "request_books opt b0 (done @ [i]) b'" by blast
  from Cons.IH [OF b'(2) \<open>\<forall>i \<in> set js. i < 80\<close>] b'(1) show ?case by simp
qed simp

lemma service_exec_nthreads:
  assumes "service_exec opt api m ev r = Some r'"
  shows "nthreads (lib r') = nthreads (lib r)"
proof (cases ev)
  case (Own i now)
  with assms have "request_step opt api m i now r = Some r'" by (auto split: if_splits)
  then show ?thesis by (cases rule: request_step_cases) (simp_all add: call_frame(1))
next
  case (Inside e)
  with assms show ?thesis
    by (auto simp: run_event_def thread_step_frame(1) split: event.splits if_splits)
qed

lemma entries_in: "i \<in> set (entries opt api m evs r) \<Longrightarrow> i < nthreads (lib r)"
proof (induction evs arbitrary: r)
  case (Cons ev evs)
  from Cons.prems obtain r' where r': "service_exec opt api m ev r = Some r'"
    by (cases "service_exec opt api m ev r") auto
  have "i \<in> set (entries opt api m evs r') \<Longrightarrow> i < nthreads (lib r)"
    using Cons.IH [of r'] by (simp add: service_exec_nthreads [OF r'])
  moreover have "entry ev r = Some i \<Longrightarrow> i < nthreads (lib r)"
    using r' by (cases ev) (auto split: if_splits)
  moreover have "entry ev r = Some i \<or> i \<in> set (entries opt api m evs r')"
    using Cons.prems r' by (auto split: option.splits)
  ultimately show ?case by blast
qed simp

text \<open>
  C7. No access leaves its array and no update is lost. From the benchmark's initial arrays, with
  at most 80 threads and in any interleaving: a thread between its lock and its unlock can
  make its next access; and whenever no thread is there, every thread's counter is the
  number of its requests, and every word of the short and of the long area is what so many
  visits of all the lines of the area make of it as there were requests of short threads
  and of long threads: word 7 of each line has grown by 2 for each, word 2 is one less, and
  the rest is as it was.
\<close>

theorem no_update_lost:
  assumes "service_start n r" and "bench_ready opt (shared r)" and "n \<le> 80"
    and run: "run_service opt api m evs r = Some r'"
  defines "js \<equiv> entries opt api m evs r"
  shows "(\<forall>i < n. in_cs (rpc r' i) \<longrightarrow> (\<forall>now. service_exec opt api m (Own i now) r' \<noteq> None)) \<and>
    ((\<forall>i < n. \<not> in_cs (rpc r' i)) \<longrightarrow>
       (\<forall>t < n. global_cnt (shared r') ! t = of_nat (count_list js t)) \<and>
       short_area (shared r') = after_visits (short_visits opt js) (short_area (shared r)) \<and>
       long_area (shared r') = after_visits (long_visits opt js) (long_area (shared r)))"
proof -
  have inv: "service_inv m r'" by (rule service.run_inv [OF run service_inv_start [OF assms(1)]])
  have start: "nthreads (lib r) = n" "settled opt r = Some (shared r)"
    using assms(1) by (simp_all add: service_start_def initial_def settled_out)
  have "exec_all (service_exec opt api m) evs r = Some r' \<Longrightarrow> nthreads (lib r') = nthreads (lib r)" for evs r
    by (induction evs arbitrary: r) (auto simp: service_exec_nthreads split: option.splits)
  with run start have n: "nthreads (lib r') = n" by simp
  have "\<forall>i \<in> set js. i < 80" using entries_in [of _ opt api m evs r] start assms(3) by (fastforce simp: js_def)
  from request_books_run [OF assms(2) request_books_ready [OF assms(2)] this]
  obtain b where b: "requests opt js (shared r) = Some b" "request_books opt (shared r) js b" by auto
  have settled: "settled opt r' = Some b"
    using settled_run [OF service_inv_start [OF assms(1)] run] start(2) b(1) by (simp add: js_def)
  have "service_exec opt api m (Own i now) r' \<noteq> None" if i: "i < n" "in_cs (rpc r' i)" for i now
  proof -
    have "finish opt i (rpc r' i) (shared r') = Some b" using settled settled_in [OF inv] i n by simp
    moreover have "pc (thr (lib r') i) = Idle"
      using service_inv_D(2) [OF inv] i n by (simp add: place_ok_def)
    ultimately show ?thesis using finish_can_access [of opt i "rpc r' i" "shared r'"] i n
      by (cases "rpc r' i") (auto simp: request_step_def simp del: finish.simps access_step.simps)
  qed
  moreover have "shared r' = b" if "\<forall>i < n. \<not> in_cs (rpc r' i)"
    using settled settled_out [of r' opt] that n by simp
  ultimately show ?thesis using b(2) assms(3) by (auto simp: request_books_def)
qed

text \<open>
  A run: thread 0 is in its critical section, has stored to its line once and loaded it again;
  thread 1 has found the lock taken.
\<close>

definition half_way :: "service_event list" where
  "half_way = [Own 0 0, Own 0 0, Inside (Runs 0 quiet), Own 0 0, Own 1 0, Own 1 0, Own 0 0, Own 0 0,
     Inside (Runs 1 quiet), Own 0 0, Own 0 0, Own 0 0]"

definition service_init :: service where
  "service_init = \<lparr>lib = init_sys 2, shared = small_bench, rpc = (\<lambda>_. R_segment)\<rparr>"

lemma service_init_start: "service_start 2 service_init"
  by (simp add: service_start_def service_init_def initial_init_sys)

lemma half_way_result:
  "\<exists>r. run_service small_opts False 5 half_way service_init = Some r \<and> rpc r 0 = R_store7 0 1 \<and>
     rpc r 1 = R_locking \<and> short_area (shared r) ! 7 = 0 \<and>
     entries small_opts False 5 half_way service_init = [0]"
  by (simp add: half_way_def service_init_def request_step_def set_rpc_def library_call_def run_defs
      htll_mutex_create_def lock_consts set_locked_def area_of_def put_area_def next_line_def lines_of_def
      small_opts_def default_opts_def small_bench_def eval_nat_numeral)

theorem requests_serialised_witness:
  "\<exists>r. run_service small_opts False 5 half_way service_init = Some r \<and> rpc r 0 = R_store7 0 1 \<and>
     rpc r 1 = R_locking \<and> short_area (shared r) ! 7 = 0 \<and>
     settled small_opts r = requests small_opts [0] small_bench"
proof -
  obtain r where r: "run_service small_opts False 5 half_way service_init = Some r" "rpc r 0 = R_store7 0 1"
    "rpc r 1 = R_locking" "short_area (shared r) ! 7 = 0" "entries small_opts False 5 half_way service_init = [0]"
    using half_way_result by blast
  with requests_serialised [OF service_init_start r(1)] show ?thesis by (simp add: service_init_def)
qed

lemma whole_way_result:
  "\<exists>r. run_service small_opts False 5 (half_way @ [Own 0 0, Own 0 0]) service_init = Some r \<and>
     rpc r 0 = R_unlocking \<and> rpc r 1 = R_locking \<and>
     entries small_opts False 5 (half_way @ [Own 0 0, Own 0 0]) service_init = [0]"
  by (simp add: half_way_def service_init_def request_step_def set_rpc_def library_call_def run_defs
      htll_mutex_create_def lock_consts set_locked_def area_of_def put_area_def next_line_def lines_of_def
      small_opts_def default_opts_def small_bench_def eval_nat_numeral)

theorem no_update_lost_witness:
  "\<exists>r. run_service small_opts False 5 (half_way @ [Own 0 0, Own 0 0]) service_init = Some r \<and>
     global_cnt (shared r) ! 0 = 1 \<and> global_cnt (shared r) ! 1 = 0 \<and>
     short_area (shared r) = [0, 0, 1, 0, 0, 0, 0, 2] \<and> long_area (shared r) = replicate 16 0"
proof -
  obtain r where r: "run_service small_opts False 5 (half_way @ [Own 0 0, Own 0 0]) service_init = Some r"
    "rpc r 0 = R_unlocking" "rpc r 1 = R_locking"
    "entries small_opts False 5 (half_way @ [Own 0 0, Own 0 0]) service_init = [0]"
    using whole_way_result by blast
  have "shared service_init = small_bench" by (simp add: service_init_def)
  moreover have "\<forall>i < 2. \<not> in_cs (rpc r i)" using r(2,3) by (simp add: less_Suc_eq numeral_2_eq_2)
  moreover have "short_area small_bench = [0, 0, 0, 0, 0, 0, 0, 0]" "long_area small_bench = replicate 16 0"
    by (simp_all add: small_bench_def numeral_eq_Suc)
  moreover have "short_visits small_opts [0] = 1" "long_visits small_opts [0] = 0"
    by (simp_all add: small_opts_def default_opts_def short_visits_def long_visits_def)
  moreover have "after_visits 1 [0, 0, 0, 0, 0, 0, 0, 0] = [0, 0, 1, 0, 0, 0, 0, 2]" by code_simp
  ultimately have "global_cnt (shared r) ! 0 = 1 \<and> global_cnt (shared r) ! 1 = 0 \<and>
      short_area (shared r) = [0, 0, 1, 0, 0, 0, 0, 2] \<and> long_area (shared r) = replicate 16 0"
    using no_update_lost [OF service_init_start _ _ r(1)] r(4) small_bench_ready
    by simp
  with r(1) show ?thesis by blast
qed

end
