(* ===== verification/BenchMain.thy ===== *)
theory BenchMain
  imports Bench
begin

text \<open>
  The threads of \<open>bench/bench_block.c\<close> together: \<open>main\<close> creates them, meets them at a barrier,
  sleeps, sets \<open>global_stop\<close> and prints its report without waiting for them. A request, which
  the lock serialises, is one step as in \<open>Bench\<close>, but its record is stored in a step of its own,
  and \<open>main\<close> reads each counter and each record in a step.
\<close>

section \<open>State\<close>

text \<open>
  Positions in \<open>thread_routine_transparent\<close>: \<open>W_record d\<close> is after the request, with the duration
  still to be stored; positions in \<open>main\<close> from the creation of the threads on, with the loop
  variables and \<open>cur\<close>. What \<open>main\<close> prints is \<open>out\<close>; the throughput is a pair, the quotient is
  not computed. \<open>arrived\<close> are the threads that have called \<open>pthread_barrier_wait\<close>, \<open>None\<close> is
  \<open>main\<close>. The records are thread-local storage (\<open>__thread\<close>), which is gone when its thread has
  returned (\<open>W_done\<close>), and \<open>main\<close> does not join the threads: \<open>M_dangling\<close> is after it has read
  the record of such a thread through \<open>record_all\<close>. What happens then is undefined.
\<close>

datatype wpc = W_new | W_start | W_arrive | W_wait | W_test | W_request | W_record u64 | W_done

datatype mpc = M_create int | M_arrive | M_wait | M_sleep | M_destroy
  | M_sum int | M_head int | M_count int int | M_rec int int int | M_exit | M_dangling

datatype line = Throughput u64 int | Count int u64 | Latency int u64

record bench_run =
  books :: bench
  arrived :: "int option set"
  global_stop :: bool
  record_all :: "int \<Rightarrow> bool"
  wpc :: "int \<Rightarrow> wpc"
  mpc :: mpc
  total_cnt :: u64
  out :: "line list"

section \<open>Steps\<close>

definition w_go :: "int \<Rightarrow> wpc \<Rightarrow> bench_run \<Rightarrow> bench_run" where
  "w_go i p s = s\<lparr>wpc := (wpc s)(i := p)\<rparr>"

text \<open>The barrier is initialised for \<open>nb_thread + 1\<close> threads.\<close>

definition barrier_open :: "bench_opts \<Rightarrow> bench_run \<Rightarrow> bool" where
  "barrier_open opt s \<longleftrightarrow> nb_thread opt + 1 \<le> int (card (arrived s))"

definition store_latency :: "int \<Rightarrow> u64 \<Rightarrow> bench \<Rightarrow> bench option" where
  "store_latency tid duration s =
     map_option (\<lambda>r. s\<lparr>record_latency := (record_latency s)(tid := r),
                       record_cnt := (record_cnt s)(tid := record_cnt s tid + 1)\<rparr>)
       (arr_write (record_latency s tid) (int (record_cnt s tid)) duration)"

text \<open>With a request these are one turn of the loop of \<open>Bench\<close>.\<close>

lemma turn_steps:
  "thread_routine_transparent opt (i, a, b) s = Option.bind (request_normal opt i s) (store_latency i (b - a))"
  by (cases "request_normal opt i s")
    (auto simp: thread_routine_transparent_def store_latency_def split: bind_split option.split)

definition worker_step :: "bench_opts \<Rightarrow> int \<Rightarrow> u64 \<Rightarrow> u64 \<Rightarrow> bench_run \<Rightarrow> bench_run option" where
  "worker_step opt i startp endp s =
     (case wpc s i of
        W_start \<Rightarrow> Some (w_go i W_arrive (s\<lparr>record_all := (record_all s)(i := True)\<rparr>))
      | W_arrive \<Rightarrow> Some (w_go i W_wait (s\<lparr>arrived := insert (Some i) (arrived s)\<rparr>))
      | W_wait \<Rightarrow> if barrier_open opt s then Some (w_go i W_test s) else None
      | W_test \<Rightarrow> Some (w_go i (if global_stop s then W_done else W_request) s)
      | W_request \<Rightarrow>
          map_option (\<lambda>b. w_go i (W_record (endp - startp)) (s\<lparr>books := b\<rparr>)) (request_normal opt i (books s))
      | W_record d \<Rightarrow> map_option (\<lambda>b. w_go i W_test (s\<lparr>books := b\<rparr>)) (store_latency i d (books s))
      | _ \<Rightarrow> None)"

text \<open>\<open>created\<close> says whether \<open>pthread_create\<close> succeeds; \<open>main\<close> does not look at its result.\<close>

definition main_step :: "bench_opts \<Rightarrow> bool \<Rightarrow> bench_run \<Rightarrow> bench_run option" where
  "main_step opt created s =
     (case mpc s of
        M_create i \<Rightarrow>
          if nb_thread opt \<le> i then Some (s\<lparr>mpc := M_arrive\<rparr>)
          else if THD_NUM \<le> i then None
          else Some ((if created then w_go i W_start s else s)\<lparr>mpc := M_create (i + 1)\<rparr>)
      | M_arrive \<Rightarrow> Some (s\<lparr>arrived := insert None (arrived s), mpc := M_wait\<rparr>)
      | M_wait \<Rightarrow> if barrier_open opt s then Some (s\<lparr>mpc := M_sleep\<rparr>) else None
      | M_sleep \<Rightarrow> Some (s\<lparr>global_stop := True, mpc := M_destroy\<rparr>)
      | M_destroy \<Rightarrow> Some (s\<lparr>mpc := M_sum 0\<rparr>)
      | M_sum i \<Rightarrow>
          if i < nb_thread opt
          then map_option (\<lambda>c. s\<lparr>total_cnt := total_cnt s + c, mpc := M_sum (i + 1)\<rparr>)
                 (arr_read (global_cnt (books s)) i)
          else Some (s\<lparr>out := out s @ [Throughput (total_cnt s) (sleep_time opt)], mpc := M_head 0\<rparr>)
      | M_head i \<Rightarrow>
          if i < nb_thread opt
          then map_option (\<lambda>c. s\<lparr>mpc := M_count i (sint (ucast c :: u32))\<rparr>) (arr_read (global_cnt (books s)) i)
          else Some (s\<lparr>mpc := M_exit\<rparr>)
      | M_count i cur \<Rightarrow>
          map_option (\<lambda>c. s\<lparr>out := out s @ [Count i c], mpc := M_rec i 0 cur\<rparr>)
            (arr_read (global_cnt (books s)) i)
      | M_rec i j cur \<Rightarrow>
          if j < cur
          then if \<not> record_all s i then None
               else if wpc s i = W_done then Some (s\<lparr>mpc := M_dangling\<rparr>)
               else map_option (\<lambda>v. s\<lparr>out := out s @ [Latency i v], mpc := M_rec i (j + 1) cur\<rparr>)
                      (arr_read (record_latency (books s) i) j)
          else Some (s\<lparr>mpc := M_head (i + 1)\<rparr>)
      | _ \<Rightarrow> None)"

text \<open>The return from \<open>main\<close> ends the process with all its threads.\<close>

datatype bench_event = Worker int u64 u64 | Main bool

fun bench_exec :: "bench_opts \<Rightarrow> bench_event \<Rightarrow> bench_run \<Rightarrow> bench_run option" where
  "bench_exec opt (Worker i a b) s = (if mpc s \<in> {M_exit, M_dangling} then None else worker_step opt i a b s)"
| "bench_exec opt (Main created) s = main_step opt created s"

definition bench_step :: "bench_opts \<Rightarrow> bench_run \<Rightarrow> bench_run \<Rightarrow> bool" where
  "bench_step opt s s' \<longleftrightarrow> (\<exists>ev. bench_exec opt ev s = Some s')"

definition bench_start :: "bench_opts \<Rightarrow> bench_run \<Rightarrow> bool" where
  "bench_start opt s \<longleftrightarrow> 0 \<le> nb_thread opt \<and> bench_ready opt (books s) \<and> arrived s = {} \<and> \<not> global_stop s \<and>
     (\<forall>i. \<not> record_all s i \<and> wpc s i = W_new) \<and> mpc s = M_create 0 \<and> total_cnt s = 0 \<and> out s = []"

definition bench_reachable :: "bench_opts \<Rightarrow> bench_run \<Rightarrow> bool" where
  "bench_reachable opt = reach (bench_start opt) (bench_step opt)"

lemma w_go_simps [simp]:
  "books (w_go i p s) = books s" "arrived (w_go i p s) = arrived s" "global_stop (w_go i p s) = global_stop s"
  "record_all (w_go i p s) = record_all s" "mpc (w_go i p s) = mpc s" "total_cnt (w_go i p s) = total_cnt s"
  "out (w_go i p s) = out s" "wpc (w_go i p s) j = (if j = i then p else wpc s j)"
  "barrier_open opt (w_go i p s) = barrier_open opt s"
  by (simp_all add: w_go_def barrier_open_def)

section \<open>The barrier\<close>

fun past_barrier_call :: "wpc \<Rightarrow> bool" where
  "past_barrier_call W_new = False"
| "past_barrier_call W_start = False"
| "past_barrier_call W_arrive = False"
| "past_barrier_call _ = True"

fun running :: "wpc \<Rightarrow> bool" where
  "running W_test = True"
| "running W_request = True"
| "running (W_record d) = True"
| "running W_done = True"
| "running _ = False"

fun main_arrived :: "mpc \<Rightarrow> bool" where
  "main_arrived (M_create i) = False"
| "main_arrived M_arrive = False"
| "main_arrived _ = True"

definition barrier_inv :: "bench_opts \<Rightarrow> bench_run \<Rightarrow> bool" where
  "barrier_inv opt s \<longleftrightarrow> 0 \<le> nb_thread opt \<and>
     (\<forall>t. Some t \<in> arrived s \<longleftrightarrow> past_barrier_call (wpc s t)) \<and>
     (None \<in> arrived s \<longleftrightarrow> main_arrived (mpc s)) \<and>
     (\<forall>t. wpc s t \<noteq> W_new \<longrightarrow> 0 \<le> t \<and> t < nb_thread opt) \<and>
     (\<forall>i. mpc s = M_create i \<longrightarrow> 0 \<le> i \<and> (\<forall>t. wpc s t \<noteq> W_new \<longrightarrow> t < i)) \<and>
     (\<forall>t. wpc s t \<noteq> W_new \<longrightarrow> wpc s t \<noteq> W_start \<longrightarrow> record_all s t) \<and>
     ((\<exists>t. running (wpc s t)) \<or> main_arrived (mpc s) \<and> mpc s \<noteq> M_wait \<longrightarrow> barrier_open opt s)"

text \<open>Only the threads that can be created and \<open>main\<close> can arrive.\<close>

lemma arrived_in:
  assumes "barrier_inv opt s"
  shows "arrived s \<subseteq> insert None (Some ` {0..<nb_thread opt})"
proof
  fix x assume "x \<in> arrived s"
  then show "x \<in> insert None (Some ` {0..<nb_thread opt})"
  proof (cases x)
    case (Some t)
    with \<open>x \<in> arrived s\<close> assms have "past_barrier_call (wpc s t)" by (simp add: barrier_inv_def)
    then have "wpc s t \<noteq> W_new" by auto
    with assms Some show ?thesis by (simp add: barrier_inv_def)
  qed simp
qed

lemma barrier_open_mono:
  assumes "barrier_inv opt s" and "barrier_open opt s" and "arrived s' = insert x (arrived s)"
  shows "barrier_open opt s'"
proof -
  have "finite (arrived s)" using arrived_in [OF assms(1)] finite_subset by blast
  then have "card (arrived s) \<le> card (arrived s')" by (simp add: assms(3) card_insert_le)
  with assms(2) show ?thesis by (simp add: barrier_open_def)
qed

text \<open>The barrier opens only when all have arrived.\<close>

lemma barrier_open_all:
  assumes "barrier_inv opt s" and "barrier_open opt s"
  shows "main_arrived (mpc s)" "0 \<le> t \<Longrightarrow> t < nb_thread opt \<Longrightarrow> past_barrier_call (wpc s t)"
proof -
  let ?all = "insert None (Some ` {0..<nb_thread opt})"
  have "card ?all = nat (nb_thread opt) + 1" by (simp add: card_image image_iff)
  then have "card ?all \<le> card (arrived s)" using assms by (simp only: barrier_open_def barrier_inv_def) arith
  with arrived_in [OF assms(1)] have "arrived s = ?all" by (intro card_seteq) auto
  then show "main_arrived (mpc s)" "0 \<le> t \<Longrightarrow> t < nb_thread opt \<Longrightarrow> past_barrier_call (wpc s t)"
    using assms(1) unfolding barrier_inv_def by auto
qed

text \<open>A thread moves without calling the barrier; \<open>main\<close> moves on behind it.\<close>

lemma barrier_inv_move:
  assumes "barrier_inv opt s" and "arrived s' = arrived s" and "mpc s' = mpc s"
    and "wpc s' = (wpc s)(i := q)" and "past_barrier_call q = past_barrier_call (wpc s i)"
    and "wpc s i \<noteq> W_new" and "running q \<Longrightarrow> barrier_open opt s"
    and "record_all s' = record_all s \<and> (wpc s i = W_start \<longrightarrow> record_all s i \<or> q = W_start) \<or>
      record_all s' = (record_all s)(i := True)"
  shows "barrier_inv opt s'"
proof -
  have open_eq: "barrier_open opt s' = barrier_open opt s" using assms(2) by (simp add: barrier_open_def)
  have old: "wpc s t \<noteq> W_new" if "wpc s' t \<noteq> W_new" for t using assms(4,6) that by (cases "t = i") auto
  have past: "past_barrier_call (wpc s' t) = past_barrier_call (wpc s t)" for t
    using assms(4,5) by (cases "t = i") auto
  have pointer: "record_all s' t" if "wpc s' t \<noteq> W_new" "wpc s' t \<noteq> W_start" for t
    using assms(1,4,6,8) that unfolding barrier_inv_def by (cases "t = i") (auto split: if_splits)
  have run: "barrier_open opt s" if "running (wpc s' t)" for t
    using assms(1,4,7) that unfolding barrier_inv_def by (cases "t = i") auto
  show ?thesis
    using assms(1) old past pointer run unfolding barrier_inv_def open_eq assms(2,3) by blast
qed

lemma barrier_inv_later:
  assumes "barrier_inv opt s" and "arrived s' = arrived s" and "wpc s' = wpc s" and "record_all s' = record_all s"
    and "main_arrived (mpc s)" "main_arrived (mpc s')" and "mpc s \<noteq> M_wait \<or> barrier_open opt s"
  shows "barrier_inv opt s'"
proof -
  have "barrier_open opt s' = barrier_open opt s" using assms(2) by (simp add: barrier_open_def)
  then show ?thesis using assms unfolding barrier_inv_def by auto
qed

lemma barrier_inv_worker:
  assumes inv: "barrier_inv opt s" and st: "worker_step opt i a b s = Some s'"
  shows "barrier_inv opt s'"
proof -
  have opened: "barrier_open opt s" if "running (wpc s i)" using inv that unfolding barrier_inv_def by blast
  show ?thesis
  proof (cases "wpc s i")
    case W_arrive
    then have s': "s' = w_go i W_wait (s\<lparr>arrived := insert (Some i) (arrived s)\<rparr>)"
      using st by (simp add: worker_step_def)
    have "barrier_open opt s'" if "barrier_open opt s"
      using barrier_open_mono [OF inv that] by (simp add: s')
    then show ?thesis using inv W_arrive unfolding barrier_inv_def by (auto simp: s')
  next
    case W_wait
    then show ?thesis
      using st by (intro barrier_inv_move [OF inv, of _ i W_test])
        (auto simp: worker_step_def w_go_def barrier_open_def split: if_splits)
  next
    case W_start
    then show ?thesis
      using st by (intro barrier_inv_move [OF inv, of _ i W_arrive])
        (auto simp: worker_step_def w_go_def split: if_splits)
  qed (rule barrier_inv_move [OF inv, of _ i "wpc s' i"],
      use st opened in \<open>auto simp: worker_step_def w_go_def\<close>)+
qed

lemma barrier_inv_main:
  assumes inv: "barrier_inv opt s" and st: "main_step opt c s = Some s'"
  shows "barrier_inv opt s'"
proof (cases "mpc s")
  case M_arrive
  then have s': "s' = s\<lparr>arrived := insert None (arrived s), mpc := M_wait\<rparr>"
    using st by (simp add: main_step_def)
  have "barrier_open opt s'" if "barrier_open opt s"
    using barrier_open_mono [OF inv that] by (simp add: s')
  then show ?thesis using inv M_arrive unfolding barrier_inv_def by (auto simp: s')
next
  case (M_create i)
  have new: "wpc s i = W_new" and i: "0 \<le> i" using inv M_create unfolding barrier_inv_def by blast+
  consider "s' = s\<lparr>mpc := M_arrive\<rparr>" | "i < nb_thread opt" "s' = s\<lparr>mpc := M_create (i + 1)\<rparr>"
    | "i < nb_thread opt" "s' = w_go i W_start s\<lparr>mpc := M_create (i + 1)\<rparr>"
    using st M_create by (auto simp: main_step_def split: if_splits)
  then show ?thesis
  proof cases
    case 3
    have same: "past_barrier_call (wpc s' t) = past_barrier_call (wpc s t)"
      "running (wpc s' t) = running (wpc s t)" "barrier_open opt s' = barrier_open opt s"
      "wpc s' t \<noteq> W_new \<Longrightarrow> wpc s' t \<noteq> W_start \<Longrightarrow> wpc s t \<noteq> W_new \<and> wpc s t \<noteq> W_start" for t
      using new by (auto simp: 3(2) barrier_open_def split: if_splits)
    have bound: "0 \<le> t \<and> t \<le> i" if "wpc s' t \<noteq> W_new" for t
    proof (cases "t = i")
      case False
      with that have "wpc s t \<noteq> W_new" by (simp add: 3(2))
      then show ?thesis using inv M_create unfolding barrier_inv_def by force
    qed (use i in simp)
    show ?thesis
      unfolding barrier_inv_def same
    proof (intro conjI allI impI)
      show "record_all s' t" if "wpc s' t \<noteq> W_new" "wpc s' t \<noteq> W_start" for t
        using inv same(4) [OF that] unfolding barrier_inv_def by (simp add: 3(2))
      show "t < nb_thread opt" if "wpc s' t \<noteq> W_new" for t using bound [OF that] 3(1) by simp
      show "t < j" if "mpc s' = M_create j" "wpc s' t \<noteq> W_new" for t j
        using bound [OF that(2)] that(1) by (simp add: 3(2))
    qed (use inv i M_create bound in \<open>auto simp: barrier_inv_def 3(2)\<close>)
  qed (use inv M_create in \<open>auto simp: barrier_inv_def barrier_open_def\<close>)
qed (rule barrier_inv_later [OF inv], use st in \<open>auto simp: main_step_def split: if_splits\<close>)+

section \<open>The books\<close>

text \<open>A request that is counted and not yet recorded.\<close>

fun pending :: "wpc \<Rightarrow> nat" where
  "pending (W_record d) = 1"
| "pending _ = 0"

definition books_inv :: "bench_run \<Rightarrow> bool" where
  "books_inv s \<longleftrightarrow> length (global_cnt (books s)) = 80 \<and>
     (\<forall>t. length (record_latency (books s) t) = LATENCY_RECORD \<and> record_cnt (books s) t \<le> LATENCY_RECORD) \<and>
     (\<forall>t. 0 \<le> t \<longrightarrow> t < 80 \<longrightarrow>
        global_cnt (books s) ! nat t = of_nat (record_cnt (books s) t + pending (wpc s t)))"

lemma request_normal_SomeD:
  assumes "request_normal opt i b = Some b'"
  shows "0 \<le> i \<and> i < int (length (global_cnt b)) \<and>
    global_cnt b' = (global_cnt b)[nat i := global_cnt b ! nat i + 1] \<and>
    record_latency b' = record_latency b \<and> record_cnt b' = record_cnt b"
  using assms
  by (auto simp: request_normal_def Let_def bind_eq_Some_conv dest!: arr_read_SomeD arr_write_SomeD
      split: if_splits)

lemma store_latency_SomeD:
  assumes "store_latency i d b = Some b'"
  shows "global_cnt b' = global_cnt b \<and> record_cnt b' = (record_cnt b)(i := record_cnt b i + 1) \<and>
    record_cnt b i < length (record_latency b i) \<and>
    record_latency b' = (record_latency b)(i := (record_latency b i)[record_cnt b i := d])"
  using assms by (auto simp: store_latency_def dest!: arr_write_SomeD)

text \<open>What a thread's step does to the books, if anything.\<close>

lemma worker_cases:
  assumes "worker_step opt i a b s = Some s'"
  obtains (quiet) q where "wpc s' = (wpc s)(i := q)" "books s' = books s" "pending q = pending (wpc s i)"
  | (request) bk where "wpc s i = W_request" "request_normal opt i (books s) = Some bk"
      "s' = w_go i (W_record (b - a)) (s\<lparr>books := bk\<rparr>)"
  | (stored) d bk where "wpc s i = W_record d" "store_latency i d (books s) = Some bk"
      "s' = w_go i W_test (s\<lparr>books := bk\<rparr>)"
proof (cases "wpc s i")
  case W_request
  with assms request show ?thesis by (auto simp: worker_step_def)
next
  case (W_record d)
  with assms stored show ?thesis by (auto simp: worker_step_def)
qed (use assms quiet in \<open>auto simp: worker_step_def w_go_def split: if_splits\<close>)

lemma worker_rest:
  assumes "worker_step opt i a b s = Some s'"
  shows "mpc s' = mpc s" "out s' = out s"
  using assms by (cases "wpc s i"; auto simp: worker_step_def split: if_splits)+

lemma books_inv_worker:
  assumes inv: "books_inv s" and st: "worker_step opt i a b s = Some s'"
  shows "books_inv s'"
  using st
proof (cases rule: worker_cases)
  case (quiet q)
  then have "pending (wpc s' t) = pending (wpc s t)" for t by simp
  with quiet(2) inv show ?thesis by (simp add: books_inv_def)
next
  case (request bk)
  note r = request_normal_SomeD [OF request(2)]
  have "global_cnt bk ! nat t = of_nat (record_cnt bk t + pending (wpc s' t))" if "0 \<le> t" "t < 80" for t
  proof (cases "t = i")
    case True
    then have "nat i < length (global_cnt (books s))" using r that inv by (simp add: books_inv_def)
    with True r inv request(1,3) that show ?thesis by (simp add: books_inv_def add.commute)
  next
    case False
    then have "nat t \<noteq> nat i" using r that by auto
    with False r inv request(3) that show ?thesis by (simp add: books_inv_def)
  qed
  with r inv request(3) show ?thesis by (simp add: books_inv_def)
next
  case (stored d bk)
  note r = store_latency_SomeD [OF stored(2)]
  have "record_cnt (books s) i < LATENCY_RECORD" using r inv by (simp add: books_inv_def)
  with r inv stored(1,3) show ?thesis by (auto simp: books_inv_def)
qed

lemma main_books:
  assumes "main_step opt c s = Some s'" and "barrier_inv opt s"
  shows "books s' = books s" "pending (wpc s' t) = pending (wpc s t)"
proof -
  show "books s' = books s"
    using assms(1) by (cases "mpc s") (auto simp: main_step_def split: if_splits)
  show "pending (wpc s' t) = pending (wpc s t)"
  proof (cases "mpc s")
    case (M_create i)
    then have "wpc s i = W_new" using assms(2) unfolding barrier_inv_def by blast
    with M_create assms(1) show ?thesis by (auto simp: main_step_def split: if_splits)
  qed (use assms(1) in \<open>auto simp: main_step_def split: if_splits\<close>)
qed

lemma bench_inv_exec:
  assumes "barrier_inv opt s \<and> books_inv s" and "bench_exec opt ev s = Some s'"
  shows "barrier_inv opt s' \<and> books_inv s'"
proof (cases ev)
  case (Worker i a b)
  with assms barrier_inv_worker books_inv_worker show ?thesis by (fastforce split: if_splits)
next
  case (Main c)
  with assms have st: "main_step opt c s = Some s'" by simp
  from assms(1) main_books [OF st] have "books_inv s'" by (simp add: books_inv_def)
  with barrier_inv_main [OF _ st] assms(1) show ?thesis by simp
qed

lemma bench_inv_start: "bench_start opt s \<Longrightarrow> barrier_inv opt s \<and> books_inv s"
  by (auto simp: bench_start_def bench_ready_def barrier_inv_def books_inv_def)

interpretation bench: checked_system "bench_exec opt" "bench_step opt" "bench_start opt"
    "\<lambda>s. barrier_inv opt s \<and> books_inv s" for opt
  by unfold_locales (simp add: bench_step_def, rule bench_inv_start, assumption, rule bench_inv_exec)

text \<open>
  Nothing is counted before the start: a step that changes a counter, a shared line or a
  record is only possible when \<open>main\<close> and every one of the \<open>nb_thread\<close> threads has called the
  barrier, and by then each of them has entered its records into \<open>record_all\<close>, so that \<open>main\<close>
  follows no null pointer when it prints them.
\<close>

theorem barrier_before_requests:
  assumes "bench_reachable opt s" and "bench_exec opt ev s = Some s'" and "books s' \<noteq> books s"
  shows "main_arrived (mpc s) \<and>
    (\<forall>t. 0 \<le> t \<and> t < nb_thread opt \<longrightarrow> past_barrier_call (wpc s t) \<and> record_all s t)"
proof -
  have inv: "barrier_inv opt s"
    using assms(1) bench.reachable_inv unfolding bench_reachable_def by blast
  obtain i a b where "worker_step opt i a b s = Some s'"
    using assms(2,3) main_books(1) [OF _ inv] by (cases ev) (auto split: if_splits)
  then have "running (wpc s i)" using assms(3) by (cases rule: worker_cases) auto
  then have "barrier_open opt s" using inv unfolding barrier_inv_def by blast
  note all = barrier_open_all [OF inv this]
  have "record_all s t" if "past_barrier_call (wpc s t)" for t
    using inv that unfolding barrier_inv_def by (metis past_barrier_call.simps(1,2))
  with all show ?thesis by blast
qed

section \<open>The report\<close>

text \<open>The latencies printed for a thread.\<close>

definition latencies :: "int \<Rightarrow> bench_run \<Rightarrow> u64 list" where
  "latencies i s =
     concat (map (\<lambda>l. case l of Latency k v \<Rightarrow> if k = i then [v] else [] | _ \<Rightarrow> []) (out s))"

text \<open>
  What has been printed for a thread with \<open>c\<close> records in \<open>r\<close>: everything, at least \<open>n\<close>; or the first
  \<open>j\<close> of \<open>cur\<close>. Only the last one can differ from the record.
\<close>

definition complete :: "nat \<Rightarrow> nat \<Rightarrow> u64 list \<Rightarrow> u64 list \<Rightarrow> bool" where
  "complete n c r xs \<longleftrightarrow> n \<le> length xs \<and> length xs \<le> c + 1 \<and> (\<forall>k. k + 1 < length xs \<longrightarrow> xs ! k = r ! k)"

definition partial :: "nat \<Rightarrow> nat \<Rightarrow> u64 list \<Rightarrow> u64 list \<Rightarrow> int \<Rightarrow> int \<Rightarrow> bool" where
  "partial n c r xs j cur \<longleftrightarrow> int (length xs) = j \<and> j \<le> cur \<and> int n \<le> cur \<and> cur \<le> int c + 1 \<and>
     (\<forall>k < length xs. int k + 1 < cur \<longrightarrow> xs ! k = r ! k)"

definition report_at :: "nat \<Rightarrow> nat \<Rightarrow> u64 list \<Rightarrow> u64 list \<Rightarrow> mpc \<Rightarrow> int \<Rightarrow> bool" where
  "report_at n c r xs p i \<longleftrightarrow>
     (case p of
        M_head k \<Rightarrow> if i < k then complete n c r xs else xs = []
      | M_count k cur \<Rightarrow>
          if i < k then complete n c r xs else if i = k then partial n c r xs 0 cur else xs = []
      | M_rec k j cur \<Rightarrow>
          if i < k then complete n c r xs else if i = k then partial n c r xs j cur else xs = []
      | M_exit \<Rightarrow> complete n c r xs
      | M_dangling \<Rightarrow> True
      | _ \<Rightarrow> xs = [])"

definition report_inv :: "bench_opts \<Rightarrow> (int \<Rightarrow> nat) \<Rightarrow> bench_run \<Rightarrow> bool" where
  "report_inv opt n s \<longleftrightarrow>
     (\<forall>i. 0 \<le> i \<longrightarrow> i < nb_thread opt \<longrightarrow> n i \<le> record_cnt (books s) i \<and>
        report_at (n i) (record_cnt (books s) i) (record_latency (books s) i) (latencies i s) (mpc s) i)"

text \<open>Later records do not change what has been printed.\<close>

lemma report_at_more:
  assumes "report_at n c r xs p i" and "c \<le> c'" and "\<And>k. k < c \<Longrightarrow> r' ! k = r ! k"
  shows "report_at n c' r' xs p i"
proof -
  have "complete n c r xs \<Longrightarrow> complete n c' r' xs" and "partial n c r xs j cur \<Longrightarrow> partial n c' r' xs j cur" for j cur
    using assms(2,3) by (auto simp: complete_def partial_def)
  then show ?thesis using assms(1) unfolding report_at_def by (cases p) (auto split: if_splits)
qed

lemma report_inv_worker:
  assumes inv: "report_inv opt n s" and st: "worker_step opt i a b s = Some s'"
  shows "report_inv opt n s'"
proof -
  note rest = worker_rest [OF st]
  have more: "record_cnt (books s) t \<le> record_cnt (books s') t \<and>
      (\<forall>k < record_cnt (books s) t. record_latency (books s') t ! k = record_latency (books s) t ! k)" for t
    using st
  proof (cases rule: worker_cases)
    case (request bk)
    from request_normal_SomeD [OF request(2)] request(3) show ?thesis by simp
  next
    case (stored d bk)
    from store_latency_SomeD [OF stored(2)] stored(3) show ?thesis by auto
  qed simp
  have same: "latencies t s' = latencies t s" for t by (simp add: latencies_def rest)
  show ?thesis
    unfolding report_inv_def rest same
  proof (intro allI impI conjI)
    fix t assume t: "0 \<le> t" "t < nb_thread opt"
    then show "n t \<le> record_cnt (books s') t" using inv more [of t] by (auto simp: report_inv_def)
    have "report_at (n t) (record_cnt (books s) t) (record_latency (books s) t) (latencies t s) (mpc s) t"
      using inv t by (simp add: report_inv_def)
    then show "report_at (n t) (record_cnt (books s') t) (record_latency (books s') t) (latencies t s) (mpc s) t"
      by (rule report_at_more) (use more [of t] in auto)
  qed
qed

lemma latencies_more:
  "out s' = out s @ [Latency k v] \<Longrightarrow> latencies i s' = latencies i s @ (if i = k then [v] else [])"
  "out s' = out s @ [Count k v] \<Longrightarrow> latencies i s' = latencies i s"
  by (auto simp: latencies_def)

lemma latencies_same [simp]:
  "latencies i (mpc_update f s) = latencies i s" "latencies i (arrived_update g s) = latencies i s"
  "latencies i (global_stop_update h s) = latencies i s" "latencies i (total_cnt_update w s) = latencies i s"
  "latencies i (w_go j q s) = latencies i s"
  "latencies i (s\<lparr>out := out s @ [Throughput x y]\<rparr>) = latencies i s"
  by (simp_all add: latencies_def)

lemma report_inv_main:
  assumes inv: "report_inv opt n s" and bk: "books_inv s" and bar: "barrier_inv opt s"
    and st: "main_step opt c s = Some s'"
  shows "report_inv opt n s'"
proof -
  note same = main_books(1) [OF st bar]
  have old: "n i \<le> record_cnt (books s) i"
    "report_at (n i) (record_cnt (books s) i) (record_latency (books s) i) (latencies i s) (mpc s) i"
    if "0 \<le> i" "i < nb_thread opt" for i
    using inv that by (simp_all add: report_inv_def)
  have new: "report_at (n i) (record_cnt (books s) i) (record_latency (books s) i) (latencies i s') (mpc s') i"
    if i: "0 \<le> i" "i < nb_thread opt" for i
  proof (cases "mpc s")
    case (M_head k)
    show ?thesis
    proof (cases "k < nb_thread opt")
      case True
      then obtain g where g: "arr_read (global_cnt (books s)) k = Some g"
        and s': "s' = s\<lparr>mpc := M_count k (sint (ucast g :: u32))\<rparr>"
        using st M_head by (auto simp: main_step_def)
      from arr_read_SomeD [OF g] bk have k: "0 \<le> k" "k < 80" "g = global_cnt (books s) ! nat k"
        by (simp_all add: books_inv_def)
      let ?m = "record_cnt (books s) k + pending (wpc s k)"
      have "pending (wpc s k) \<le> 1" by (cases "wpc s k") auto
      moreover have "g = of_nat ?m" "record_cnt (books s) k \<le> LATENCY_RECORD" using bk k by (simp_all add: books_inv_def)
      ultimately have "sint (ucast g :: u32) = int ?m" using count_as_int [of ?m] by (simp add: LATENCY_RECORD_def)
      with old [OF i] \<open>pending (wpc s k) \<le> 1\<close> M_head show ?thesis
        by (auto simp: s' report_at_def partial_def split: if_splits)
    next
      case False
      with st M_head old [OF i] i show ?thesis by (auto simp: main_step_def report_at_def)
    qed
  next
    case (M_count k cur)
    then obtain g where s': "s' = s\<lparr>out := out s @ [Count k g], mpc := M_rec k 0 cur\<rparr>"
      using st by (auto simp: main_step_def)
    have "latencies i s' = latencies i s" by (rule latencies_more(2)) (simp add: s')
    with old [OF i] M_count show ?thesis by (simp add: s' report_at_def)
  next
    case (M_rec k j cur)
    show ?thesis
    proof (cases "j < cur \<and> wpc s k \<noteq> W_done")
      case True
      then obtain v where v: "arr_read (record_latency (books s) k) j = Some v"
        and s': "s' = s\<lparr>out := out s @ [Latency k v], mpc := M_rec k (j + 1) cur\<rparr>"
        using st M_rec by (auto simp: main_step_def split: if_splits)
      have "latencies i s' = latencies i s @ (if i = k then [v] else [])"
        by (rule latencies_more(1)) (simp add: s')
      with old [OF i] M_rec True arr_read_SomeD [OF v] show ?thesis
        by (auto simp: s' report_at_def partial_def nth_append less_Suc_eq split: if_splits)
    next
      case False
      then consider "s' = s\<lparr>mpc := M_dangling\<rparr>" | "\<not> j < cur" "s' = s\<lparr>mpc := M_head (k + 1)\<rparr>"
        using st M_rec by (auto simp: main_step_def split: if_splits)
      then show ?thesis
      proof cases
        case 2
        have "partial (n i) c r xs j cur \<Longrightarrow> complete (n i) c r xs" for c r xs
          using 2(1) by (auto simp: partial_def complete_def)
        with old [OF i] M_rec show ?thesis
          by (auto simp: 2(2) report_at_def split: if_splits)
      qed (simp add: report_at_def)
    qed
  qed (use st old [OF i] i in \<open>auto simp: main_step_def report_at_def split: if_splits\<close>)
  with old(1) same show ?thesis by (simp add: report_inv_def)
qed

definition bench_main_inv :: "bench_opts \<Rightarrow> (int \<Rightarrow> nat) \<Rightarrow> bench_run \<Rightarrow> bool" where
  "bench_main_inv opt n s \<longleftrightarrow> (barrier_inv opt s \<and> books_inv s) \<and> report_inv opt n s"

lemma bench_main_inv_exec:
  assumes "bench_main_inv opt n s" and "bench_exec opt ev s = Some s'"
  shows "bench_main_inv opt n s'"
proof -
  have old: "barrier_inv opt s" "books_inv s" "report_inv opt n s" using assms(1) by (simp_all add: bench_main_inv_def)
  have "report_inv opt n s'"
  proof (cases ev)
    case (Worker i a b)
    with assms(2) report_inv_worker [OF old(3)] show ?thesis by (auto split: if_splits)
  next
    case (Main c)
    with assms(2) report_inv_main [OF old(3,2,1)] show ?thesis by simp
  qed
  with bench_inv_exec [OF _ assms(2)] old show ?thesis by (simp add: bench_main_inv_def)
qed

lemma bench_main_inv_start: "bench_start opt s \<Longrightarrow> bench_main_inv opt (\<lambda>_. 0) s"
  using bench_inv_start [of opt s]
  by (simp add: bench_main_inv_def bench_start_def report_inv_def report_at_def latencies_def)

interpretation report: checked_system "bench_exec opt" "bench_step opt" "\<lambda>s. bench_start opt s \<and> n = (\<lambda>_. 0)"
    "bench_main_inv opt n" for opt n
  by unfold_locales (auto simp: bench_step_def intro: bench_main_inv_start bench_main_inv_exec)

text \<open>
  C38. The report of a running benchmark. \<open>main\<close> prints while the threads go on; still, in every
  run that gets to the end of \<open>main\<close>, that is, in which \<open>main\<close> does not read the record of a
  thread that has already returned, it prints for every thread at least the latencies that
  were recorded before the stop, at most one more than are recorded at the end, in their order,
  and each is the recorded one, except possibly the last: its request may have been counted
  but not recorded yet.
\<close>

theorem running_report:
  assumes "bench_reachable opt s" and "mpc s = M_sleep"
    and "exec_all (bench_exec opt) evs s = Some s'" and "mpc s' = M_exit"
    and "0 \<le> i" "i < nb_thread opt"
  shows "record_cnt (books s) i \<le> length (latencies i s') \<and>
    length (latencies i s') \<le> record_cnt (books s') i + 1 \<and>
    (\<forall>k. k + 1 < length (latencies i s') \<longrightarrow> latencies i s' ! k = record_latency (books s') i ! k)"
proof -
  have "bench_main_inv opt (\<lambda>_. 0) s"
    using assms(1) report.reachable_inv [of opt "\<lambda>_. 0" s] by (simp add: bench_reachable_def)
  then have "bench_main_inv opt (record_cnt (books s)) s"
    using assms(2) by (simp add: bench_main_inv_def report_inv_def report_at_def)
  with assms(3) have "bench_main_inv opt (record_cnt (books s)) s'" by (rule report.run_inv)
  then show ?thesis
    using assms(4-6) by (simp add: bench_main_inv_def report_inv_def report_at_def complete_def)
qed

section \<open>The record of a thread that has returned\<close>

text \<open>\<open>main\<close> has not begun the report of thread \<open>i\<close>.\<close>

fun before_report :: "int \<Rightarrow> mpc \<Rightarrow> bool" where
  "before_report i (M_head k) = (k \<le> i)"
| "before_report i (M_count k cur) = (k < i)"
| "before_report i (M_rec k j cur) = (k < i)"
| "before_report i M_exit = False"
| "before_report i M_dangling = False"
| "before_report i _ = True"

text \<open>Nothing is printed from the record of a thread that has returned.\<close>

lemma returned_silent:
  assumes "wpc s i = W_done" and "latencies i s = []" and "barrier_inv opt s"
    and "bench_exec opt ev s = Some s'"
  shows "wpc s' i = W_done \<and> latencies i s' = []"
proof (cases ev)
  case (Worker j a b)
  then have st: "worker_step opt j a b s = Some s'" using assms(4) by (auto split: if_splits)
  with assms(1) have "j \<noteq> i" by (auto simp: worker_step_def)
  with st have "wpc s' i = wpc s i" by (cases "wpc s j") (auto simp: worker_step_def split: if_splits)
  with assms(1,2) worker_rest(2) [OF st] show ?thesis by (simp add: latencies_def)
next
  case (Main c)
  then have st: "main_step opt c s = Some s'" using assms(4) by simp
  show ?thesis
  proof (cases "mpc s")
    case (M_create j)
    then have "wpc s j = W_new" using assms(3) unfolding barrier_inv_def by blast
    with M_create assms(1,2) st show ?thesis by (auto simp: main_step_def latencies_def split: if_splits)
  next
    case (M_count j cur)
    with assms(1,2) st show ?thesis by (auto simp: main_step_def latencies_def)
  next
    case (M_rec j k cur)
    with assms(1,2) st show ?thesis by (auto simp: main_step_def latencies_def split: if_splits)
  qed (use assms(1,2) st in \<open>auto simp: main_step_def latencies_def split: if_splits\<close>)
qed

lemma returned_silent_run:
  assumes "wpc s i = W_done" and "latencies i s = []" and "barrier_inv opt s \<and> books_inv s"
    and "exec_all (bench_exec opt) evs s = Some s'"
  shows "latencies i s' = []"
  using assms
proof (induction evs arbitrary: s)
  case (Cons ev evs)
  then obtain s1 where s1: "bench_exec opt ev s = Some s1" "exec_all (bench_exec opt) evs s1 = Some s'"
    by (auto split: option.splits)
  with returned_silent [OF Cons.prems(1,2) _ s1(1)] bench_inv_exec [OF Cons.prems(3) s1(1)] Cons.prems(3)
  show ?case by (intro Cons.IH [of s1]) auto
qed simp

text \<open>
  A quick thread spoils the report. When a thread with a recorded request has returned
  before \<open>main\<close> begins to report on it, no run goes on to the end of \<open>main\<close>: its first read of
  the record is a read of storage that no longer exists.
\<close>

theorem returned_thread_spoils_report:
  assumes "bench_reachable opt s" and "0 \<le> i" "i < nb_thread opt"
    and "wpc s i = W_done" and "0 < record_cnt (books s) i" and "before_report i (mpc s)"
    and "exec_all (bench_exec opt) evs s = Some s'"
  shows "mpc s' \<noteq> M_exit"
proof
  assume exit: "mpc s' = M_exit"
  let ?n = "(\<lambda>_. 0)(i := record_cnt (books s) i)"
  have inv: "bench_main_inv opt (\<lambda>_. 0) s"
    using assms(1) report.reachable_inv [of opt "\<lambda>_. 0" s] by (simp add: bench_reachable_def)
  then have report: "report_at 0 (record_cnt (books s) t) (record_latency (books s) t) (latencies t s) (mpc s) t"
    if "0 \<le> t" "t < nb_thread opt" for t
    using that by (simp add: bench_main_inv_def report_inv_def)
  have none: "latencies i s = []"
    using report [OF assms(2,3)] assms(6) by (cases "mpc s") (auto simp: report_at_def)
  have "report_at (?n t) (record_cnt (books s) t) (record_latency (books s) t) (latencies t s) (mpc s) t"
    if "0 \<le> t" "t < nb_thread opt" for t
  proof (cases "t = i")
    case True
    then show ?thesis using none assms(6) by (cases "mpc s") (auto simp: report_at_def)
  qed (use report [OF that] in simp)
  then have "bench_main_inv opt ?n s" using inv by (simp add: bench_main_inv_def report_inv_def)
  with assms(7) have "bench_main_inv opt ?n s'" by (rule report.run_inv)
  then have "complete (?n i) (record_cnt (books s') i) (record_latency (books s') i) (latencies i s')"
    unfolding bench_main_inv_def report_inv_def exit report_at_def using assms(2,3) by auto
  moreover have "latencies i s' = []"
    using inv returned_silent_run [OF assms(4) none _ assms(7)] by (simp add: bench_main_inv_def)
  ultimately show False using assms(5) by (simp add: complete_def)
qed

section \<open>A report with an unwritten latency\<close>

text \<open>
  One thread; \<open>main\<close> stops it, and reads its counter and its record between the end of its
  only request, which took 4 cycles, and the store of this number.
\<close>

definition one_thread :: bench_opts where
  "one_thread = small_opts\<lparr>nb_thread := 1\<rparr>"

definition main_zero :: bench_run where
  "main_zero = \<lparr>books = small_bench, arrived = {}, global_stop = False, record_all = (\<lambda>_. False),
     wpc = (\<lambda>_. W_new), mpc = M_create 0, total_cnt = 0, out = []\<rparr>"

definition meet :: "bench_event list" where
  "meet = [Main True, Main True, Main True, Worker 0 0 0, Worker 0 0 0, Main True]"

definition overtaken :: "bench_event list" where
  "overtaken = [Worker 0 0 0, Worker 0 0 0, Worker 0 5 9, Main True, Main True, Main True, Main True,
     Main True, Main True, Main True, Main True, Main True]"

lemma one_thread_start: "bench_start one_thread main_zero"
  using small_bench_ready
  by (simp add: bench_start_def main_zero_def one_thread_def bench_ready_def small_opts_def default_opts_def)

lemma one_thread_simps [simp]: "nb_thread one_thread = 1" "sleep_time one_thread = 3"
  by (simp_all add: one_thread_def small_opts_def default_opts_def)

lemmas bench_eval = worker_step_def main_step_def w_go_def barrier_open_def THD_NUM_def

lemma meet_result:
  "\<exists>s. exec_all (bench_exec one_thread) meet main_zero = Some s \<and> mpc s = M_sleep \<and> wpc s 0 = W_wait \<and>
     card (arrived s) = 2 \<and> books s = small_bench \<and> record_all s 0 \<and> total_cnt s = 0 \<and> out s = [] \<and> \<not> global_stop s"
  by (simp add: meet_def main_zero_def bench_eval)

lemma one_request:
  "\<exists>b. request_normal one_thread 0 small_bench = Some b \<and> arr_read (global_cnt b) 0 = Some 1 \<and>
     record_latency b = record_latency small_bench"
  by (simp add: request_normal_def small_bench_def one_thread_def small_opts_def default_opts_def
      access_variables_def access_line_def arr_read_def arr_write_def)

lemma overtaken_result:
  assumes "mpc s = M_sleep" "wpc s 0 = W_wait" "card (arrived s) = 2" "books s = small_bench" "record_all s 0"
    "total_cnt s = 0" "out s = []" "\<not> global_stop s"
  shows "\<exists>s'. exec_all (bench_exec one_thread) overtaken s = Some s' \<and> mpc s' = M_exit \<and>
    out s' = [Throughput 1 3, Count 0 1, Latency 0 0] \<and> wpc s' 0 = W_record 4"
proof -
  obtain b where b: "request_normal one_thread 0 small_bench = Some b" "arr_read (global_cnt b) 0 = Some 1"
    "record_latency b = record_latency small_bench"
    using one_request by blast
  have r: "arr_read (record_latency small_bench 0) 0 = Some 0"
    by (simp add: small_bench_def arr_read_def LATENCY_RECORD_def)
  show ?thesis
    using assms b r by (simp add: overtaken_def bench_eval)
qed

lemma meet_reachable:
  obtains s where "bench_reachable one_thread s" "mpc s = M_sleep" "wpc s 0 = W_wait" "card (arrived s) = 2"
    "books s = small_bench" "record_all s 0" "total_cnt s = 0" "out s = []" "\<not> global_stop s"
proof -
  obtain s where s: "exec_all (bench_exec one_thread) meet main_zero = Some s" "mpc s = M_sleep"
    "wpc s 0 = W_wait" "card (arrived s) = 2" "books s = small_bench" "record_all s 0" "total_cnt s = 0"
    "out s = []" "\<not> global_stop s"
    using meet_result by blast
  have "bench_reachable one_thread s"
    unfolding bench_reachable_def by (rule bench.run_reach [OF s(1)], rule reach_init, rule one_thread_start)
  with s that show ?thesis by blast
qed

lemma unwritten_latency_printed:
  "\<exists>s. bench_reachable one_thread s \<and> mpc s = M_exit \<and>
     out s = [Throughput 1 3, Count 0 1, Latency 0 0] \<and> wpc s 0 = W_record 4"
proof (rule meet_reachable)
  fix s assume s: "bench_reachable one_thread s" "mpc s = M_sleep" "wpc s 0 = W_wait" "card (arrived s) = 2"
    "books s = small_bench" "record_all s 0" "total_cnt s = 0" "out s = []" "\<not> global_stop s"
  from overtaken_result [OF s(2-9)] s(1) bench.run_reach show ?thesis unfolding bench_reachable_def by blast
qed

theorem running_report_witness:
  "\<exists>s s'. bench_reachable one_thread s \<and> mpc s = M_sleep \<and> mpc s' = M_exit \<and> latencies 0 s' = [0] \<and>
     length (latencies 0 s') \<le> record_cnt (books s') 0 + 1"
proof (rule meet_reachable)
  fix s assume s: "bench_reachable one_thread s" "mpc s = M_sleep" "wpc s 0 = W_wait" "card (arrived s) = 2"
    "books s = small_bench" "record_all s 0" "total_cnt s = 0" "out s = []" "\<not> global_stop s"
  obtain s' where s': "exec_all (bench_exec one_thread) overtaken s = Some s'" "mpc s' = M_exit"
    "out s' = [Throughput 1 3, Count 0 1, Latency 0 0]"
    using overtaken_result [OF s(2-9)] by blast
  from running_report [OF s(1,2) s'(1,2), of 0] s(1,2) s'(2,3) show ?thesis
    by (intro exI [of _ s] exI [of _ s']) (simp add: latencies_def)
qed

text \<open>The thread finishes its request, sees the stop and returns; \<open>main\<close> then reads its record.\<close>

definition finished :: "bench_event list" where
  "finished = [Worker 0 0 0, Worker 0 0 0, Worker 0 5 9, Worker 0 0 0, Main True, Worker 0 0 0]"

lemma one_record:
  assumes "record_latency b = record_latency small_bench" "record_cnt b = record_cnt small_bench"
  shows "\<exists>b'. store_latency 0 d b = Some b' \<and> record_cnt b' 0 = 1 \<and> global_cnt b' = global_cnt b"
  using assms by (simp add: store_latency_def small_bench_def arr_write_def LATENCY_RECORD_def)

lemma finished_result:
  assumes "mpc s = M_sleep" "wpc s 0 = W_wait" "card (arrived s) = 2" "books s = small_bench" "record_all s 0"
    "total_cnt s = 0" "out s = []" "\<not> global_stop s"
  shows "\<exists>s1 s2. exec_all (bench_exec one_thread) finished s = Some s1 \<and> mpc s1 = M_destroy \<and>
    wpc s1 0 = W_done \<and> record_cnt (books s1) 0 = 1 \<and>
    exec_all (bench_exec one_thread) (replicate 6 (Main True)) s1 = Some s2 \<and> mpc s2 = M_dangling"
proof -
  obtain b where b: "request_normal one_thread 0 small_bench = Some b" "arr_read (global_cnt b) 0 = Some 1"
    "record_latency b = record_latency small_bench"
    using one_request by blast
  from request_normal_SomeD [OF b(1)] have "record_cnt b = record_cnt small_bench" by simp
  from one_record [OF b(3) this] obtain b' where b': "store_latency 0 4 b = Some b'"
    "record_cnt b' 0 = 1" "global_cnt b' = global_cnt b" by blast
  show ?thesis
    using assms b b' by (simp add: finished_def bench_eval numeral_eq_Suc)
qed

theorem returned_thread_spoils_report_witness:
  "\<exists>s s'. bench_reachable one_thread s \<and> wpc s 0 = W_done \<and> mpc s = M_destroy \<and>
     exec_all (bench_exec one_thread) (replicate 6 (Main True)) s = Some s' \<and> mpc s' = M_dangling \<and>
     (\<nexists>evs s'. exec_all (bench_exec one_thread) evs s = Some s' \<and> mpc s' = M_exit)"
proof (rule meet_reachable)
  fix s assume s: "bench_reachable one_thread s" "mpc s = M_sleep" "wpc s 0 = W_wait" "card (arrived s) = 2"
    "books s = small_bench" "record_all s 0" "total_cnt s = 0" "out s = []" "\<not> global_stop s"
  obtain s1 s2 where r: "exec_all (bench_exec one_thread) finished s = Some s1" "mpc s1 = M_destroy"
    "wpc s1 0 = W_done" "record_cnt (books s1) 0 = 1"
    "exec_all (bench_exec one_thread) (replicate 6 (Main True)) s1 = Some s2" "mpc s2 = M_dangling"
    using finished_result [OF s(2-9)] by blast
  have s1: "bench_reachable one_thread s1"
    using bench.run_reach [OF r(1)] s(1) unfolding bench_reachable_def by blast
  from returned_thread_spoils_report [OF s1, of 0] r s1 show ?thesis
    by (intro exI [of _ s1] exI [of _ s2]) auto
qed

theorem barrier_before_requests_witness:
  "\<exists>s s'. bench_reachable one_thread s \<and> bench_exec one_thread (Worker 0 5 9) s = Some s' \<and>
     books s' \<noteq> books s \<and> main_arrived (mpc s) \<and> past_barrier_call (wpc s 0) \<and> record_all s 0"
proof (rule meet_reachable)
  fix s assume s: "bench_reachable one_thread s" "mpc s = M_sleep" "wpc s 0 = W_wait" "card (arrived s) = 2"
    "books s = small_bench" "record_all s 0" "total_cnt s = 0" "out s = []" "\<not> global_stop s"
  obtain b where b: "request_normal one_thread 0 small_bench = Some b" "arr_read (global_cnt b) 0 = Some 1"
    using one_request by blast
  have "arr_read (global_cnt small_bench) 0 = Some 0" by (simp add: small_bench_def arr_read_def)
  with b(2) have diff: "b \<noteq> small_bench" by auto
  obtain s1 where s1: "exec_all (bench_exec one_thread) [Worker 0 0 0, Worker 0 0 0] s = Some s1"
    "wpc s1 0 = W_request" "mpc s1 = M_sleep" "books s1 = small_bench"
    using s by (simp add: bench_eval)
  have r: "bench_reachable one_thread s1"
    using bench.run_reach [OF s1(1)] s(1) unfolding bench_reachable_def by blast
  obtain s2 where s2: "bench_exec one_thread (Worker 0 5 9) s1 = Some s2" "books s2 = b"
    using s1 b(1) by (simp add: worker_step_def)
  from s1(4) s2(2) diff have "books s2 \<noteq> books s1" by simp
  from barrier_before_requests [OF r s2(1) this] r s2(1) this show ?thesis by fastforce
qed

end
